(* ===== verification/Gw_Prelude.thy ===== *)
theory Gw_Prelude
  imports Main "HOL-Library.Sublist" "HOL-Library.AList"
begin

text \<open>
  Shared material of the development: the 64-bit integer arithmetic of Go written out on
  \<open>int\<close>, the functions of Go's standard library that the modelled code calls (string
  prefixes, substring search, decimal parsing), association lists as Go maps that are
  iterated over, and two interfaces used by several components (a machine with an
  invariant, and a codec).
\<close>

named_theorems go_arith \<open>rewriting 64-bit arithmetic that stays in range\<close>
named_theorems go_map \<open>lookups in updated association lists\<close>

section \<open>Definitions\<close>

subsection \<open>Go's int64\<close>

text \<open>
  \<open>i64\<close> is the value a mathematical result takes when it is stored in an int64 (or in an
  int of a 64-bit platform): two's complement wrap-around. \<open>quo\<close> is Go's integer division,
  which truncates towards zero. Every use of \<open>quo\<close> in the model has a non-zero divisor, as
  the code guards it.
\<close>

definition i64 :: "int \<Rightarrow> int" where
  "i64 x = (x + 9223372036854775808) mod 18446744073709551616 - 9223372036854775808"

definition in64 :: "int \<Rightarrow> bool" where
  "in64 x \<longleftrightarrow> - 9223372036854775808 \<le> x \<and> x < 9223372036854775808"

definition quo :: "int \<Rightarrow> int \<Rightarrow> int" where
  "quo a b = sgn a * sgn b * (\<bar>a\<bar> div \<bar>b\<bar>)"

subsection \<open>Go's strings package\<close>

definition HasPrefix :: "string \<Rightarrow> string \<Rightarrow> bool" where
  "HasPrefix s p = prefix p s"

definition CutPrefix :: "string \<Rightarrow> string \<Rightarrow> string \<times> bool" where
  "CutPrefix s p = (if prefix p s then (drop (length p) s, True) else (s, False))"

fun Contains :: "string \<Rightarrow> string \<Rightarrow> bool" where
  "Contains [] p = (p = [])"
| "Contains (c # cs) p = (prefix p (c # cs) \<or> Contains cs p)"

subsection \<open>Go's strconv package\<close>

definition digit_of :: "char \<Rightarrow> int option" where
  "digit_of c =
     (let n = int (of_char c) in if 48 \<le> n \<and> n \<le> 57 then Some (n - 48) else None)"

fun digits_val :: "int \<Rightarrow> string \<Rightarrow> int option" where
  "digits_val acc [] = Some acc"
| "digits_val acc (c # cs) =
     (case digit_of c of None \<Rightarrow> None | Some d \<Rightarrow> digits_val (10 * acc + d) cs)"

text \<open>
  \<open>strconv.ParseInt(s, 10, 64)\<close>: an optional sign, at least one decimal digit, and a value
  that fits an int64. Every error is \<open>None\<close>.
\<close>

definition ParseInt :: "string \<Rightarrow> int option" where
  "ParseInt s =
     (let neg = (case s of [] \<Rightarrow> False | c # _ \<Rightarrow> c = CHR ''-'');
          body = (case s of [] \<Rightarrow> [] | c # cs \<Rightarrow> if c = CHR ''-'' \<or> c = CHR ''+'' then cs else s)
      in if body = [] then None
         else case digits_val 0 body of
                None \<Rightarrow> None
              | Some v \<Rightarrow> (let r = (if neg then - v else v) in if in64 r then Some r else None))"

text \<open>\<open>strings.Join\<close> with a one-character separator.\<close>

fun joinWith :: "char \<Rightarrow> string list \<Rightarrow> string" where
  "joinWith d [] = []"
| "joinWith d [x] = x"
| "joinWith d (x # y # ys) = x @ d # joinWith d (y # ys)"

subsection \<open>Runs of a deterministic machine\<close>

fun run :: "('s \<Rightarrow> 'e \<Rightarrow> 's) \<Rightarrow> 's \<Rightarrow> 'e list \<Rightarrow> 's" where
  "run step s [] = s"
| "run step s (e # es) = run step (step s e) es"

section \<open>Lemmas\<close>

subsection \<open>Arithmetic\<close>

lemma i64_id [go_arith]: "in64 x \<Longrightarrow> i64 x = x"
  by (simp add: i64_def in64_def)

lemma i64_0 [simp]: "i64 0 = 0"
  by (simp add: i64_def)

lemma i64_in64 [simp]: "in64 (i64 x)"
proof -
  let ?y = "(x + 9223372036854775808) mod 18446744073709551616 :: int"
  have "0 \<le> ?y" "?y < 18446744073709551616" by simp_all
  then show ?thesis by (simp add: i64_def in64_def)
qed

lemma i64_idem [simp]: "i64 (i64 x) = i64 x"
  by (rule i64_id) simp

lemma in64_iff [go_arith]:
  "in64 x \<longleftrightarrow> - 9223372036854775808 \<le> x \<and> x < 9223372036854775808"
  by (rule in64_def)

lemma quo_pos [go_arith]: "0 \<le> a \<Longrightarrow> 0 < b \<Longrightarrow> quo a b = a div b"
  by (cases "a = 0") (simp_all add: quo_def)

lemma quo_nonneg: "0 \<le> a \<Longrightarrow> 0 < b \<Longrightarrow> 0 \<le> quo a b"
  by (simp add: quo_pos pos_imp_zdiv_nonneg_iff)

text \<open>Rounding a quotient up: the exact characterisation the refill arithmetic needs.\<close>

lemma ceil_div_bounds:
  fixes a b :: int
  assumes "0 < b"
  shows "a \<le> b * ((a + b - 1) div b)" and "b * ((a + b - 1) div b) \<le> a + b - 1"
proof -
  have eq: "a + b - 1 = b * ((a + b - 1) div b) + (a + b - 1) mod b"
    by simp
  have "0 \<le> (a + b - 1) mod b" "(a + b - 1) mod b < b"
    using assms by simp_all
  with eq show "a \<le> b * ((a + b - 1) div b)" and "b * ((a + b - 1) div b) \<le> a + b - 1"
    by linarith+
qed

subsection \<open>Strings\<close>

lemma Contains_char: "Contains s [c] \<longleftrightarrow> c \<in> set s"
  by (induction s) auto

lemma CutPrefix_append [simp]: "CutPrefix (p @ s) p = (s, True)"
  by (simp add: CutPrefix_def)

text \<open>A delimiter that occurs in neither left part determines the split.\<close>

lemma delim_split:
  assumes "d \<notin> set a" and "d \<notin> set a'" and "a @ d # b = a' @ d # b'"
  shows "a = a' \<and> b = b'"
  using assms
proof (induction a arbitrary: a')
  case Nil
  then show ?case by (cases a') auto
next
  case (Cons x xs)
  from Cons.prems(1,3) obtain ys where ys: "a' = x # ys"
    by (cases a') auto
  from Cons.prems ys have "xs = ys \<and> b = b'"
    by (intro Cons.IH) auto
  with ys show ?case by simp
qed

subsection \<open>Association lists as iterated maps\<close>

lemma map_of_update [go_map]: "map_of (AList.update k v m) = (map_of m)(k \<mapsto> v)"
  by (rule update_conv')

lemma map_of_delete [go_map]: "map_of (AList.delete k m) = (map_of m)(k := None)"
  by (simp add: delete_conv')

lemma map_of_filter_keys:
  assumes "distinct (map fst m)"
  shows "map_of (filter (\<lambda>(k, v). P k v) m) k =
           (case map_of m k of None \<Rightarrow> None | Some v \<Rightarrow> if P k v then Some v else None)"
  using assms
proof (induction m)
  case Nil
  then show ?case by simp
next
  case (Cons kv m)
  obtain k' v' where kv: "kv = (k', v')" by (cases kv)
  have "k' = k \<Longrightarrow> map_of (filter (\<lambda>(k, v). P k v) m) k = None"
    using Cons.prems kv by (force simp: map_of_eq_None_iff)
  with Cons kv show ?case by auto
qed

subsection \<open>Machines and their invariants\<close>

lemma run_append: "run step s (xs @ ys) = run step (run step s xs) ys"
  by (induction xs arbitrary: s) auto

text \<open>
  A component whose operations are steps on a state and keep an invariant. The laws are
  discharged once per component; the facts about runs come from here.
\<close>

locale machine =
  fixes step :: "'s \<Rightarrow> 'e \<Rightarrow> 's"
    and inv :: "'s \<Rightarrow> bool"
  assumes step_inv: "inv s \<Longrightarrow> inv (step s e)"
begin

lemma run_inv: "inv s \<Longrightarrow> inv (run step s es)"
  by (induction es arbitrary: s) (auto intro: step_inv)

lemma run_prefix_inv: "inv s \<Longrightarrow> inv (run step s (take n es))"
  by (rule run_inv)

end

text \<open>
  A machine with a quantity that no step decreases: the order is a parameter, so that drain
  times, epochs and counters all fit.
\<close>

locale monotone_machine = machine +
  fixes val :: "'s \<Rightarrow> int"
  assumes step_mono: "inv s \<Longrightarrow> val s \<le> val (step s e)"
begin

lemma run_mono: "inv s \<Longrightarrow> val s \<le> val (run step s es)"
proof (induction es arbitrary: s)
  case Nil
  then show ?case by simp
next
  case (Cons e es)
  have "val s \<le> val (step s e)" using Cons.prems by (rule step_mono)
  also have "\<dots> \<le> val (run step (step s e) es)"
    using Cons.prems by (intro Cons.IH step_inv)
  finally show ?case by simp
qed

end

text \<open>A codec: what decoding promises of an encoded value, on the values that are encoded.\<close>

locale codec =
  fixes enc :: "'a \<Rightarrow> 'w"
    and dec :: "'w \<Rightarrow> 'a option"
    and ok :: "'a \<Rightarrow> bool"
  assumes dec_enc: "ok x \<Longrightarrow> dec (enc x) = Some x"
begin

lemma enc_inj: "ok x \<Longrightarrow> ok y \<Longrightarrow> enc x = enc y \<Longrightarrow> x = y"
  by (metis dec_enc option.inject)

lemma enc_inj_on: "inj_on enc {x. ok x}"
  by (auto intro: inj_onI enc_inj)

end

text \<open>Subsequences of lists without repetitions.\<close>

lemma subseq_distinct: "subseq xs ys \<Longrightarrow> distinct ys \<Longrightarrow> distinct xs"
  by (induction rule: list_emb.induct) (auto dest: list_emb_set)

lemma subseq_set: "subseq xs ys \<Longrightarrow> set xs \<subseteq> set ys"
  by (induction rule: list_emb.induct) auto

text \<open>Fields that do not hold the separator can be read back from the joined string.\<close>

lemma joinWith_inj:
  assumes "length xs = length ys" and "\<forall>x \<in> set xs. d \<notin> set x" and "\<forall>y \<in> set ys. d \<notin> set y"
    and "joinWith d xs = joinWith d ys"
  shows "xs = ys"
  using assms
proof (induction xs arbitrary: ys)
  case Nil
  then show ?case by simp
next
  case (Cons x xs)
  then obtain y ys' where y: "ys = y # ys'" by (cases ys) auto
  show ?case
  proof (cases xs)
    case Nil
    with Cons y show ?thesis by simp
  next
    case (Cons x' xs')
    then obtain y' ys'' where y': "ys' = y' # ys''" using Cons.prems(1) y by (cases ys') auto
    have "x @ d # joinWith d xs = y @ d # joinWith d ys'"
      using Cons.prems(4) by (simp add: Cons y y')
    from delim_split [OF _ _ this] have "x = y \<and> joinWith d xs = joinWith d ys'"
      using Cons.prems(2,3) y by simp
    with Cons.IH [of ys'] Cons.prems y show ?thesis by simp
  qed
qed

end
