(* ===== verification/Token_Bucket.thy ===== *)
theory Token_Bucket
  imports Gw_Prelude
begin

text \<open>
  The smooth token bucket of one quota key (src/pkg/ratelimit/ratelimit.go): the process-wide
  knobs and clocks, the refill arithmetic, the entry and its atomic updates. The bucket is kept
  as its virtual drain time \<open>tatMs\<close>: the wall-clock millisecond at which the outstanding spend
  is refilled. The theory shows that a charge is never free, that the drain time only moves
  forward, and that the spend of every interval in which the bucket ends out of debt is bounded
  by the burst plus the refill of that interval.

  The record \<open>quotaGlobals\<close> holds the package variables: the two coarse clocks and the two
  knobs resolved at start-up. Each operation reads one value of them; the interleaving of the
  atomic steps of several goroutines is the subject of another theory.
\<close>

section \<open>Definitions\<close>

subsection \<open>Constants\<close>

definition cleanupInactiveAfter :: int where "cleanupInactiveAfter = 600000000000"
definition epochIntervalSecs :: int where "epochIntervalSecs = 60"
definition quotaEvictFloorWindows :: int where "quotaEvictFloorWindows = 2"
definition quotaEvictDefaultWindows :: int where "quotaEvictDefaultWindows = 10"
definition quotaBurstDefaultPct :: int where "quotaBurstDefaultPct = 100"
definition quotaBurstMinPct :: int where "quotaBurstMinPct = 1"
definition quotaBurstMaxPct :: int where "quotaBurstMaxPct = 1000"
definition msPerMinute :: int where "msPerMinute = 60000"

lemmas quota_consts = cleanupInactiveAfter_def epochIntervalSecs_def quotaEvictFloorWindows_def
  quotaEvictDefaultWindows_def quotaBurstDefaultPct_def quotaBurstMinPct_def
  quotaBurstMaxPct_def msPerMinute_def

subsection \<open>Package variables\<close>

record quotaGlobals =
  quotaEvictAfterWindows :: int
  quotaBurstPct :: int
  currentQuotaEpoch :: int
  quotaNowMs :: int

text \<open>
  \<open>init\<close>: the two environment knobs (an unset or unparsable one keeps the default) and the
  clocks. \<open>unixMs\<close> is the wall clock in Unix milliseconds; \<open>Unix()\<close> is its whole seconds.
\<close>

definition ratelimit_init :: "string \<Rightarrow> string \<Rightarrow> int \<Rightarrow> quotaGlobals" where
  "ratelimit_init evictEnv burstEnv unixMs =
     \<lparr>quotaEvictAfterWindows =
        (if evictEnv \<noteq> '''' then
           (case ParseInt evictEnv of
              Some n \<Rightarrow> max n quotaEvictFloorWindows
            | None \<Rightarrow> quotaEvictDefaultWindows)
         else quotaEvictDefaultWindows),
      quotaBurstPct =
        (if burstEnv \<noteq> '''' then
           (case ParseInt burstEnv of
              Some n \<Rightarrow> min (max n quotaBurstMinPct) quotaBurstMaxPct
            | None \<Rightarrow> quotaBurstDefaultPct)
         else quotaBurstDefaultPct),
      currentQuotaEpoch = quo (unixMs div 1000) epochIntervalSecs,
      quotaNowMs = unixMs\<rparr>"

text \<open>One tick of the clock goroutine.\<close>

definition quotaClockTick :: "bool \<Rightarrow> int \<Rightarrow> quotaGlobals \<Rightarrow> quotaGlobals" where
  "quotaClockTick frozen unixMs g =
     (if frozen then g
      else g\<lparr>quotaNowMs := unixMs,
             currentQuotaEpoch := quo (unixMs div 1000) epochIntervalSecs\<rparr>)"

subsection \<open>Refill arithmetic\<close>

definition burstTokensFor :: "quotaGlobals \<Rightarrow> int \<Rightarrow> int \<Rightarrow> int" where
  "burstTokensFor g limit pct =
     (let pct = (if pct \<le> 0 then quotaBurstPct g
                 else min (max pct quotaBurstMinPct) quotaBurstMaxPct)
      in max (quo (i64 (limit * pct)) 100) 1)"

definition refillCeilMs :: "int \<Rightarrow> int \<Rightarrow> int" where
  "refillCeilMs tokens limit = quo (i64 (i64 (i64 (tokens * msPerMinute) + limit) - 1)) limit"

definition debtTokensOf :: "int \<Rightarrow> int \<Rightarrow> int \<Rightarrow> int" where
  "debtTokensOf tatMs nowMs limit =
     (if tatMs \<le> nowMs then 0 else quo (i64 (i64 (tatMs - nowMs) * limit)) msPerMinute)"

text \<open>\<open>BurstTokens\<close> of burst.go.\<close>

definition BurstTokens :: "quotaGlobals \<Rightarrow> int \<Rightarrow> int \<Rightarrow> int" where
  "BurstTokens g tokensPerMin burstPct =
     (if tokensPerMin \<le> 0 then 0 else burstTokensFor g tokensPerMin burstPct)"

subsection \<open>The entry of one quota key\<close>

record tokenWindowEntry =
  windowEpoch :: int
  tatMs :: int
  reserved :: int
  claims :: int
  reservedEpoch :: int
  limitTokens :: int
  burstPct :: int

text \<open>The zero value \<open>&tokenWindowEntry{}\<close>.\<close>

definition emptyEntry :: tokenWindowEntry where
  "emptyEntry = \<lparr>windowEpoch = 0, tatMs = 0, reserved = 0, claims = 0, reservedEpoch = 0,
                 limitTokens = 0, burstPct = 0\<rparr>"

definition touchQuotaEpoch :: "quotaGlobals \<Rightarrow> tokenWindowEntry \<Rightarrow> tokenWindowEntry" where
  "touchQuotaEpoch g e =
     (let epoch = currentQuotaEpoch g;
          e1 = (if epoch > windowEpoch e then e\<lparr>windowEpoch := epoch\<rparr> else e)
      in if epoch > reservedEpoch e1
         then e1\<lparr>reservedEpoch := epoch, reserved := 0, claims := 0\<rparr>
         else e1)"

definition chargeTat :: "tokenWindowEntry \<Rightarrow> int \<Rightarrow> int \<Rightarrow> int \<Rightarrow> int \<times> tokenWindowEntry" where
  "chargeTat e count limit nowMs =
     (let inc = refillCeilMs count limit;
          nxt = i64 (max (tatMs e) nowMs + inc)
      in (nxt, e\<lparr>tatMs := nxt\<rparr>))"

definition reservedSubClamp :: "tokenWindowEntry \<Rightarrow> int \<Rightarrow> tokenWindowEntry" where
  "reservedSubClamp e amt =
     (let nxt = i64 (reserved e - amt)
      in e\<lparr>reserved := (if nxt < 0 then 0 else nxt)\<rparr>)"

definition claimsSubClamp :: "tokenWindowEntry \<Rightarrow> tokenWindowEntry" where
  "claimsSubClamp e =
     (if claims e \<le> 0 then e else e\<lparr>claims := i64 (claims e - 1)\<rparr>)"

text \<open>
  The debt test that \<open>IsTokenQuotaExceeded\<close> and \<open>quotaEntryInDebt\<close> share: the drain time is
  more than one burst beyond now.
\<close>

definition quotaEntryInDebt :: "quotaGlobals \<Rightarrow> tokenWindowEntry \<Rightarrow> int \<Rightarrow> bool" where
  "quotaEntryInDebt g we nowMs =
     (let limit = limitTokens we
      in if limit \<le> 0 then False
         else let burst = burstTokensFor g limit (burstPct we)
              in i64 (tatMs we - nowMs) > refillCeilMs burst limit)"

text \<open>
  The charge of \<open>AllowTokens\<close> on an entry: publish the configuration, stamp the epoch, advance
  the drain time and report whether the bucket is now in debt, with the advised wait.
\<close>

definition chargeEntry ::
  "quotaGlobals \<Rightarrow> tokenWindowEntry \<Rightarrow> int \<Rightarrow> int \<Rightarrow> int \<Rightarrow> (bool \<times> int) \<times> tokenWindowEntry" where
  "chargeEntry g e count limit pct =
     (let e = touchQuotaEpoch g (e\<lparr>limitTokens := limit, burstPct := pct\<rparr>);
          nowMs = quotaNowMs g;
          (newTat, e) = chargeTat e count limit nowMs;
          burst = burstTokensFor g limit pct;
          burstMs = refillCeilMs burst limit;
          debtMs = i64 (newTat - nowMs)
      in if debtMs > burstMs
         then let retry = min (quo (i64 (i64 (debtMs - burstMs) + 999)) 1000) epochIntervalSecs
              in ((False, max retry 1), e)
         else ((True, 0), e))"

text \<open>
  The admission of \<open>ReserveTokens\<close> on an entry: a claim larger than the whole bucket is refused
  for a full epoch; otherwise it is added, and taken back when the level does not cover every
  outstanding claim.
\<close>

definition reserveEntry ::
  "quotaGlobals \<Rightarrow> tokenWindowEntry \<Rightarrow> int \<Rightarrow> int \<Rightarrow> int \<Rightarrow> (bool \<times> int \<times> int) \<times> tokenWindowEntry" where
  "reserveEntry g e want limit pct =
     (let e = touchQuotaEpoch g (e\<lparr>limitTokens := limit, burstPct := pct\<rparr>);
          burst = burstTokensFor g limit pct
      in if want > burst then ((False, epochIntervalSecs, 0), e)
         else
           let level = i64 (burst - debtTokensOf (tatMs e) (quotaNowMs g) limit);
               newReserved = i64 (reserved e + want);
               e = e\<lparr>reserved := newReserved\<rparr>
           in if newReserved > level
              then let e = reservedSubClamp e want;
                       deficit = i64 (newReserved - level);
                       retry = min (quo (i64 (i64 (i64 (deficit * 60) + limit) - 1)) limit)
                                   epochIntervalSecs
                   in ((False, max retry 1, 0), e)
              else ((True, 0, currentQuotaEpoch g), e\<lparr>claims := i64 (claims e + 1)\<rparr>))"

text \<open>
  The two-part admission of \<open>ReserveTokensElastic\<close> on an entry, after its guards: \<open>firm\<close> is
  refused as \<open>ReserveTokens\<close> refuses it, \<open>elastic\<close> shrinks to what is left.
\<close>

definition reserveElasticEntry ::
  "quotaGlobals \<Rightarrow> tokenWindowEntry \<Rightarrow> int \<Rightarrow> int \<Rightarrow> int \<Rightarrow> int \<Rightarrow>
     (bool \<times> int \<times> int \<times> int) \<times> tokenWindowEntry" where
  "reserveElasticEntry g e firm elastic limit pct =
     (let e = touchQuotaEpoch g (e\<lparr>limitTokens := limit, burstPct := pct\<rparr>);
          burst = burstTokensFor g limit pct
      in if firm > burst then ((False, epochIntervalSecs, 0, 0), e)
         else
           let el = min elastic (i64 (burst - firm));
               level = i64 (burst - debtTokensOf (tatMs e) (quotaNowMs g) limit);
               want = i64 (firm + el);
               newReserved = i64 (reserved e + want);
               e = e\<lparr>reserved := newReserved\<rparr>;
               over = i64 (newReserved - level)
           in if over > 0 \<and> over > el
              then let e = reservedSubClamp e want;
                       deficit = i64 (over - el);
                       retry = min (quo (i64 (i64 (i64 (deficit * 60) + limit) - 1)) limit)
                                   epochIntervalSecs
                   in ((False, max retry 1, 0, 0), e)
              else
                let e = (if over > 0 then reservedSubClamp e over else e);
                    el = (if over > 0 then i64 (el - over) else el)
                in if i64 (firm + el) = 0 then ((True, 0, 0, 0), e)
                   else ((True, 0, currentQuotaEpoch g, i64 (firm + el)),
                         e\<lparr>claims := i64 (claims e + 1)\<rparr>))"

text \<open>A run of charges against one entry, each at the clock of its own globals.\<close>

fun chargeAll :: "tokenWindowEntry \<Rightarrow> int \<Rightarrow> int \<Rightarrow> (quotaGlobals \<times> int) list \<Rightarrow> tokenWindowEntry" where
  "chargeAll e limit pct [] = e"
| "chargeAll e limit pct ((g, count) # cs) = chargeAll (snd (chargeEntry g e count limit pct)) limit pct cs"

subsection \<open>Ranges\<close>

text \<open>
  The bounds the knobs are clamped to, and the ranges in which the 64-bit arithmetic is exact:
  a quota of up to \<open>2^40\<close> tokens per minute, and drain times whose distance from the clock, times
  the quota, stays below \<open>2^63\<close>.
\<close>

definition knobs_ok :: "quotaGlobals \<Rightarrow> bool" where
  "knobs_ok g \<longleftrightarrow> quotaBurstMinPct \<le> quotaBurstPct g \<and> quotaBurstPct g \<le> quotaBurstMaxPct
     \<and> quotaEvictFloorWindows \<le> quotaEvictAfterWindows g"

definition maxLimit :: int where "maxLimit = 1099511627776"

definition limit_ok :: "int \<Rightarrow> bool" where
  "limit_ok limit \<longleftrightarrow> 0 < limit \<and> limit \<le> maxLimit"

text \<open>
  Charges whose clocks lie in an interval, and an upper bound on what they add to the drain time.
\<close>

definition charges_in :: "int \<Rightarrow> int \<Rightarrow> (quotaGlobals \<times> int) list \<Rightarrow> bool" where
  "charges_in t0 tn cs \<longleftrightarrow> (\<forall>(g, c) \<in> set cs. t0 \<le> quotaNowMs g \<and> quotaNowMs g \<le> tn \<and> 0 \<le> c)"

definition charge_room :: "int \<Rightarrow> (quotaGlobals \<times> int) list \<Rightarrow> int" where
  "charge_room limit cs = (\<Sum>(g, c) \<leftarrow> cs. c * 60000 + limit)"

text \<open>
  The specification of admission: the tokens a bucket can still promise, which is the burst less
  the spend not yet refilled less the claims outstanding in the current minute. \<open>quotaEntry0\<close> is
  the entry as an operation finds it after publishing its configuration and stamping the minute.
  \<open>room_range\<close> says that this arithmetic is exact.
\<close>

definition quotaEntry0 :: "quotaGlobals \<Rightarrow> tokenWindowEntry \<Rightarrow> int \<Rightarrow> int \<Rightarrow> tokenWindowEntry" where
  "quotaEntry0 g e limit pct = touchQuotaEpoch g (e\<lparr>limitTokens := limit, burstPct := pct\<rparr>)"

definition room :: "quotaGlobals \<Rightarrow> tokenWindowEntry \<Rightarrow> int \<Rightarrow> int \<Rightarrow> int" where
  "room g e limit pct =
     burstTokensFor g limit pct - max 0 (tatMs e - quotaNowMs g) * limit div 60000
       - (if currentQuotaEpoch g > reservedEpoch e then 0 else reserved e)"

definition room_range :: "quotaGlobals \<Rightarrow> tokenWindowEntry \<Rightarrow> int \<Rightarrow> bool" where
  "room_range g e limit \<longleftrightarrow>
     knobs_ok g \<and> limit_ok limit \<and>
     max 0 (tatMs e - quotaNowMs g) * limit < 9223372036854775808 \<and>
     0 \<le> reserved e \<and> reserved e \<le> 10 * maxLimit \<and> 0 \<le> claims e \<and> claims e < 4611686018427387904"

section \<open>Lemmas\<close>

subsection \<open>The knobs\<close>

lemma ratelimit_init_knobs: "knobs_ok (ratelimit_init a b t)"
  by (simp add: knobs_ok_def ratelimit_init_def quota_consts split: option.split)

lemma quotaClockTick_knobs [simp]: "knobs_ok (quotaClockTick fr t g) = knobs_ok g"
  by (simp add: knobs_ok_def quotaClockTick_def)


subsection \<open>The arithmetic in range\<close>

lemma maxLimit_val: "maxLimit = 1099511627776"
  by (rule maxLimit_def)

lemma burstTokensFor_pos [simp]: "1 \<le> burstTokensFor g limit pct"
  by (simp add: burstTokensFor_def Let_def)

lemma burstTokensFor_le:
  assumes "knobs_ok g" and "limit_ok limit"
  shows "burstTokensFor g limit pct \<le> 10 * limit"
proof -
  define p where "p = (if pct \<le> 0 then quotaBurstPct g else min (max pct quotaBurstMinPct) quotaBurstMaxPct)"
  have p: "1 \<le> p" "p \<le> 1000"
    using assms(1) by (auto simp: p_def knobs_ok_def quota_consts)
  have lim: "0 < limit" "limit \<le> 1099511627776"
    using assms(2) by (auto simp: limit_ok_def maxLimit_def)
  have up: "limit * p \<le> limit * 1000" and lo: "0 \<le> limit * p"
    using p lim by (auto intro: mult_left_mono)
  have "i64 (limit * p) = limit * p"
    using up lo lim by (intro i64_id, unfold in64_def) linarith
  then have "quo (i64 (limit * p)) 100 = limit * p div 100"
    using lo by (simp add: quo_pos)
  also have "\<dots> \<le> 10 * limit"
    using up by linarith
  finally show ?thesis
    using lim by (simp add: burstTokensFor_def Let_def p_def)
qed

lemma refillCeilMs_eq:
  assumes "0 < limit" and "0 \<le> tokens" and "tokens * 60000 + limit < 9223372036854775808"
  shows "refillCeilMs tokens limit = (tokens * 60000 + limit - 1) div limit"
proof -
  have "i64 (tokens * 60000) = tokens * 60000" "i64 (tokens * 60000 + limit) = tokens * 60000 + limit"
       "i64 (tokens * 60000 + limit - 1) = tokens * 60000 + limit - 1"
    using assms by (auto intro!: i64_id simp: in64_def)
  then show ?thesis
    using assms by (simp add: refillCeilMs_def msPerMinute_def quo_pos)
qed

lemma refillCeilMs_bounds:
  assumes "0 < limit" and "0 \<le> tokens" and "tokens * 60000 + limit < 9223372036854775808"
  shows "tokens * 60000 \<le> limit * refillCeilMs tokens limit"
    and "limit * refillCeilMs tokens limit \<le> tokens * 60000 + limit - 1"
    and "0 \<le> refillCeilMs tokens limit"
    and "refillCeilMs tokens limit \<le> tokens * 60000 + limit - 1"
proof -
  note b = ceil_div_bounds [OF assms(1), of "tokens * 60000"]
  show "tokens * 60000 \<le> limit * refillCeilMs tokens limit"
       "limit * refillCeilMs tokens limit \<le> tokens * 60000 + limit - 1"
    using b by (simp_all add: refillCeilMs_eq [OF assms])
  show nn: "0 \<le> refillCeilMs tokens limit"
    using assms by (simp add: refillCeilMs_eq [OF assms] pos_imp_zdiv_nonneg_iff)
  have "refillCeilMs tokens limit \<le> limit * refillCeilMs tokens limit"
    using nn assms(1) by (simp add: mult_le_cancel_right1)
  then show "refillCeilMs tokens limit \<le> tokens * 60000 + limit - 1"
    using b by (simp add: refillCeilMs_eq [OF assms])
qed

lemma refillCeilMs_pos:
  assumes "0 < limit" and "0 < tokens" and "tokens * 60000 + limit < 9223372036854775808"
  shows "0 < refillCeilMs tokens limit"
proof (rule ccontr)
  assume "\<not> 0 < refillCeilMs tokens limit"
  then have "limit * refillCeilMs tokens limit \<le> 0"
    using assms(1) by (simp add: mult_le_0_iff)
  with refillCeilMs_bounds(1) [of limit tokens] assms show False by simp
qed

text \<open>The burst of a configured quota and its refill time are always in range.\<close>

lemma burst_range:
  assumes "knobs_ok g" and "limit_ok limit"
  shows "burstTokensFor g limit pct * 60000 + limit < 9223372036854775808"
  using burstTokensFor_le [OF assms, of pct] assms(2) unfolding limit_ok_def maxLimit_def by linarith

lemma burstMs_bounds:
  fixes pct :: int
  assumes "knobs_ok g" and "limit_ok limit"
  defines "b \<equiv> burstTokensFor g limit pct"
  shows "b * 60000 \<le> limit * refillCeilMs b limit"
    and "limit * refillCeilMs b limit \<le> b * 60000 + limit - 1"
    and "0 < refillCeilMs b limit"
    and "refillCeilMs b limit \<le> 600000"
proof -
  have lim: "0 < limit" using assms(2) by (simp add: limit_ok_def)
  have b0: "0 < b" using burstTokensFor_pos [of g limit pct] unfolding b_def by linarith
  have r: "b * 60000 + limit < 9223372036854775808"
    unfolding b_def by (rule burst_range [OF assms(1,2)])
  note rb = refillCeilMs_bounds [OF lim _ r]
  show "b * 60000 \<le> limit * refillCeilMs b limit"
       "limit * refillCeilMs b limit \<le> b * 60000 + limit - 1"
    using rb b0 by auto
  show "0 < refillCeilMs b limit" by (rule refillCeilMs_pos [OF lim b0 r])
  have "b \<le> 10 * limit" unfolding b_def by (rule burstTokensFor_le [OF assms(1,2)])
  then have "limit * refillCeilMs b limit \<le> 10 * limit * 60000 + limit - 1"
    using rb(2) b0 by linarith
  also have "\<dots> < limit * 600001" using lim by simp
  finally have "refillCeilMs b limit < 600001" using lim by (simp add: mult_less_cancel_left)
  then show "refillCeilMs b limit \<le> 600000" by simp
qed

subsection \<open>Frame facts of the entry updates\<close>

lemma touchQuotaEpoch_simps [simp]:
  "tatMs (touchQuotaEpoch g e) = tatMs e"
  "limitTokens (touchQuotaEpoch g e) = limitTokens e"
  "burstPct (touchQuotaEpoch g e) = burstPct e"
  "reservedEpoch (touchQuotaEpoch g e) = max (reservedEpoch e) (currentQuotaEpoch g)"
  "windowEpoch (touchQuotaEpoch g e) = max (windowEpoch e) (currentQuotaEpoch g)"
  by (auto simp: touchQuotaEpoch_def Let_def)

lemma touchQuotaEpoch_reserved:
  "reserved (touchQuotaEpoch g e) = (if currentQuotaEpoch g > reservedEpoch e then 0 else reserved e)"
  "claims (touchQuotaEpoch g e) = (if currentQuotaEpoch g > reservedEpoch e then 0 else claims e)"
  by (auto simp: touchQuotaEpoch_def Let_def)

lemma reservedSubClamp_simps [simp]:
  "tatMs (reservedSubClamp e a) = tatMs e"
  "windowEpoch (reservedSubClamp e a) = windowEpoch e"
  "reservedEpoch (reservedSubClamp e a) = reservedEpoch e"
  "limitTokens (reservedSubClamp e a) = limitTokens e"
  "burstPct (reservedSubClamp e a) = burstPct e"
  "claims (reservedSubClamp e a) = claims e"
  by (simp_all add: reservedSubClamp_def Let_def)

lemma claimsSubClamp_simps [simp]:
  "tatMs (claimsSubClamp e) = tatMs e"
  "windowEpoch (claimsSubClamp e) = windowEpoch e"
  "reservedEpoch (claimsSubClamp e) = reservedEpoch e"
  "limitTokens (claimsSubClamp e) = limitTokens e"
  "burstPct (claimsSubClamp e) = burstPct e"
  "reserved (claimsSubClamp e) = reserved e"
  by (simp_all add: claimsSubClamp_def)

lemma reservedSubClamp_nonneg [simp]: "0 \<le> reserved (reservedSubClamp e a)"
  by (simp add: reservedSubClamp_def Let_def)

lemma chargeEntry_frame:
  "limitTokens (snd (chargeEntry g e c limit pct)) = limit"
  "burstPct (snd (chargeEntry g e c limit pct)) = pct"
  "reservedEpoch (snd (chargeEntry g e c limit pct)) = max (reservedEpoch e) (currentQuotaEpoch g)"
  "windowEpoch (snd (chargeEntry g e c limit pct)) = max (windowEpoch e) (currentQuotaEpoch g)"
  "tatMs (snd (chargeEntry g e c limit pct)) =
     i64 (max (tatMs e) (quotaNowMs g) + refillCeilMs c limit)"
  by (simp_all add: chargeEntry_def chargeTat_def Let_def)

lemma chargeEntry_reserved:
  "reserved (snd (chargeEntry g e c limit pct)) = (if currentQuotaEpoch g > reservedEpoch e then 0 else reserved e)"
  "claims (snd (chargeEntry g e c limit pct)) = (if currentQuotaEpoch g > reservedEpoch e then 0 else claims e)"
  by (simp_all add: chargeEntry_def chargeTat_def Let_def touchQuotaEpoch_reserved)

subsection \<open>Charges\<close>

lemma chargeEntry_tat:
  assumes "0 < limit" and "0 \<le> c" and "0 \<le> quotaNowMs g"
    and "max (tatMs e) (quotaNowMs g) + (c * 60000 + limit) < 9223372036854775808"
  shows "tatMs (snd (chargeEntry g e c limit pct)) =
           max (tatMs e) (quotaNowMs g) + refillCeilMs c limit"
proof -
  have r: "c * 60000 + limit < 9223372036854775808"
    using assms by linarith
  note b = refillCeilMs_bounds(3,4) [OF assms(1,2) r]
  have "in64 (max (tatMs e) (quotaNowMs g) + refillCeilMs c limit)"
    unfolding in64_def using b assms(3,4) by linarith
  then show ?thesis by (simp add: chargeEntry_frame(5) i64_id)
qed

text \<open>
  What one charge, and then a run of charges, does to the drain time: from below (every charge
  is paid for) and from above (nothing is charged twice).
\<close>

lemma chargeEntry_step:
  fixes pct :: int
  assumes "0 < limit" and "0 \<le> t0" and "t0 \<le> quotaNowMs g" and "quotaNowMs g \<le> tn" and "0 \<le> c"
    and "max (tatMs e) tn + (c * 60000 + limit) < 9223372036854775808"
  defines "e1 \<equiv> snd (chargeEntry g e c limit pct)"
  shows "limit * max (tatMs e) t0 + 60000 * c \<le> limit * max (tatMs e1) t0"
    and "max (tatMs e1) tn \<le> max (tatMs e) tn + (c * 60000 + limit)"
proof -
  have t1: "tatMs e1 = max (tatMs e) (quotaNowMs g) + refillCeilMs c limit"
    unfolding e1_def using assms(1-6) by (intro chargeEntry_tat) auto
  have r: "c * 60000 + limit < 9223372036854775808"
    using assms by linarith
  note b = refillCeilMs_bounds [OF assms(1,5) r]
  show "max (tatMs e1) tn \<le> max (tatMs e) tn + (c * 60000 + limit)"
    using t1 b(3,4) assms by linarith
  have "max (tatMs e) t0 + refillCeilMs c limit \<le> max (tatMs e1) t0"
    using t1 assms by linarith
  then have "limit * (max (tatMs e) t0 + refillCeilMs c limit) \<le> limit * max (tatMs e1) t0"
    using assms(1) by (intro mult_left_mono) auto
  then show "limit * max (tatMs e) t0 + 60000 * c \<le> limit * max (tatMs e1) t0"
    using b(1) by (simp add: distrib_left)
qed

lemma charge_room_nonneg: "0 < limit \<Longrightarrow> charges_in t0 tn cs \<Longrightarrow> 0 \<le> charge_room limit cs"
  by (induction cs) (auto simp: charge_room_def charges_in_def)

lemma chargeAll_bounds:
  assumes "0 < limit" and "0 \<le> t0" and "charges_in t0 tn cs"
    and "max (tatMs e) tn + charge_room limit cs < 9223372036854775808"
  shows "limit * max (tatMs e) t0 + 60000 * sum_list (map snd cs)
           \<le> limit * max (tatMs (chargeAll e limit pct cs)) t0 \<and>
         max (tatMs (chargeAll e limit pct cs)) tn \<le> max (tatMs e) tn + charge_room limit cs"
  using assms(3,4)
proof (induction cs arbitrary: e)
  case Nil
  then show ?case by (simp add: charge_room_def)
next
  case (Cons gc cs)
  obtain g c where gc: "gc = (g, c)" by (cases gc)
  from Cons.prems gc have g: "t0 \<le> quotaNowMs g" "quotaNowMs g \<le> tn" "0 \<le> c"
    and cs: "charges_in t0 tn cs"
    by (auto simp: charges_in_def)
  have room: "charge_room limit (gc # cs) = (c * 60000 + limit) + charge_room limit cs"
    by (simp add: charge_room_def gc)
  have nn: "0 \<le> charge_room limit cs"
    by (rule charge_room_nonneg [OF assms(1) cs])
  let ?e1 = "snd (chargeEntry g e c limit pct)"
  note st = chargeEntry_step [OF assms(1,2) g(1,2,3), of e pct]
  have step: "limit * max (tatMs e) t0 + 60000 * c \<le> limit * max (tatMs ?e1) t0"
       "max (tatMs ?e1) tn \<le> max (tatMs e) tn + (c * 60000 + limit)"
    using st Cons.prems(2) room nn by linarith+
  have "max (tatMs ?e1) tn + charge_room limit cs < 9223372036854775808"
    using step(2) Cons.prems(2) room by linarith
  note ih = Cons.IH [OF cs this, THEN conjunct1] Cons.IH [OF cs this, THEN conjunct2]
  have eqs: "chargeAll e limit pct (gc # cs) = chargeAll ?e1 limit pct cs"
       "sum_list (map snd (gc # cs)) = c + sum_list (map snd cs)"
    by (simp_all add: gc)
  show ?case unfolding eqs room
  proof (rule conjI)
    show "limit * max (tatMs e) t0 + 60000 * (c + sum_list (map snd cs))
            \<le> limit * max (tatMs (chargeAll ?e1 limit pct cs)) t0"
      using ih(1) step(1) by (simp add: distrib_left)
    show "max (tatMs (chargeAll ?e1 limit pct cs)) tn
            \<le> max (tatMs e) tn + (c * 60000 + limit + charge_room limit cs)"
      using ih(2) step(2) by linarith
  qed
qed

subsection \<open>Debt\<close>

lemma chargeEntry_allowed_iff:
  "fst (fst (chargeEntry g e c limit pct)) \<longleftrightarrow>
     \<not> i64 (tatMs (snd (chargeEntry g e c limit pct)) - quotaNowMs g)
         > refillCeilMs (burstTokensFor g limit pct) limit"
  by (simp add: chargeEntry_def chargeTat_def Let_def)

text \<open>The debt test read as a comparison of times, and its agreement with the charge's answer.\<close>

lemma quotaEntryInDebt_iff:
  assumes "0 < limitTokens e" and "in64 (tatMs e - now)"
  shows "quotaEntryInDebt g e now \<longleftrightarrow>
           now + refillCeilMs (burstTokensFor g (limitTokens e) (burstPct e)) (limitTokens e) < tatMs e"
  using assms by (auto simp: quotaEntryInDebt_def Let_def i64_id)

lemma chargeEntry_debt:
  assumes "0 < limit"
  shows "quotaEntryInDebt g (snd (chargeEntry g e c limit pct)) (quotaNowMs g) \<longleftrightarrow>
           \<not> fst (fst (chargeEntry g e c limit pct))"
  using assms by (simp add: quotaEntryInDebt_def chargeEntry_frame chargeEntry_allowed_iff Let_def)

lemma chargeEntry_retry:
  assumes "knobs_ok g" and "limit_ok limit" and "0 \<le> c" and "0 \<le> quotaNowMs g"
    and "max (tatMs e) (quotaNowMs g) + (c * 60000 + limit) < 9223372036854774000"
    and "chargeEntry g e c limit pct = ((False, r), e')"
  shows "1 \<le> r \<and> r \<le> 60 \<and>
         (r < 60 \<longrightarrow> tatMs e' - refillCeilMs (burstTokensFor g limit pct) limit
                        \<le> quotaNowMs g + 1000 * r) \<and>
         quotaNowMs g + 1000 * (r - 1)
           < tatMs e' - refillCeilMs (burstTokensFor g limit pct) limit"
proof -
  let ?b = "refillCeilMs (burstTokensFor g limit pct) limit"
  let ?d = "tatMs e' - quotaNowMs g"
  have e': "e' = snd (chargeEntry g e c limit pct)" using assms(6) by simp
  have lim: "0 < limit" using assms(2) by (simp add: limit_ok_def)
  have rc: "c * 60000 + limit < 9223372036854775808" using assms(4,5) by linarith
  note cb = refillCeilMs_bounds(3,4) [OF lim assms(3) rc]
  have tat: "tatMs e' = max (tatMs e) (quotaNowMs g) + refillCeilMs c limit"
    unfolding e' using assms lim by (intro chargeEntry_tat) auto
  note bb = burstMs_bounds(3,4) [OF assms(1,2), of pct]
  have d: "0 \<le> ?d" "?d < 9223372036854774000"
    using tat cb assms(4,5) by linarith+
  have di: "i64 ?d = ?d" using d by (intro i64_id) (simp add: in64_def)
  have "\<not> fst (fst (chargeEntry g e c limit pct))" using assms(6) by simp
  then have over: "?d > ?b" by (simp add: chargeEntry_allowed_iff e' [symmetric] di)
  have x1: "i64 (?d - ?b) = ?d - ?b" and x2: "i64 (?d - ?b + 999) = ?d - ?b + 999"
    using d bb over by (auto intro!: i64_id simp: in64_def)
  have q: "quo (?d - ?b + 999) 1000 = (?d - ?b + 999) div 1000"
    using over by (intro quo_pos) auto
  have "i64 (max (tatMs e) (quotaNowMs g) + refillCeilMs c limit) = tatMs e'"
    using e' by (simp add: chargeEntry_frame)
  then have r: "r = min ((?d - ?b + 999) div 1000) 60"
    using assms(6) over
    by (simp add: chargeEntry_def chargeTat_def Let_def di x1 x2 q epochIntervalSecs_def split: if_splits)
  have k: "?d - ?b \<le> 1000 * ((?d - ?b + 999) div 1000)"
          "1000 * ((?d - ?b + 999) div 1000) < ?d - ?b + 1000"
    by linarith+
  show ?thesis using r k over by auto
qed

subsection \<open>Reservations\<close>

lemma debtTokensOf_eq:
  assumes "0 < limit" and "max 0 (tat - now) * limit < 9223372036854775808"
  shows "debtTokensOf tat now limit = max 0 (tat - now) * limit div 60000"
    and "0 \<le> debtTokensOf tat now limit"
    and "debtTokensOf tat now limit < 153722867280913"
proof -
  let ?d = "max 0 (tat - now)"
  have "?d \<le> ?d * limit" using assms(1) by (simp add: mult_le_cancel_left1)
  then have d: "0 \<le> ?d" "?d < 9223372036854775808" using assms(2) by auto
  have p: "0 \<le> ?d * limit" using d assms(1) by simp
  show eq: "debtTokensOf tat now limit = ?d * limit div 60000"
  proof (cases "tat \<le> now")
    case True
    then show ?thesis by (simp add: debtTokensOf_def)
  next
    case False
    then have m: "?d = tat - now" by simp
    have "i64 (tat - now) = tat - now" "i64 ((tat - now) * limit) = (tat - now) * limit"
      using d p assms(2) unfolding m by (auto intro!: i64_id simp: in64_def)
    then show ?thesis
      using False p unfolding m by (simp add: debtTokensOf_def msPerMinute_def quo_pos)
  qed
  show "0 \<le> debtTokensOf tat now limit" unfolding eq using p by (simp add: pos_imp_zdiv_nonneg_iff)
  show "debtTokensOf tat now limit < 153722867280913" unfolding eq using assms(2) by linarith
qed

lemma room_level:
  fixes pct :: int
  assumes "room_range g e limit"
  defines "e0 \<equiv> quotaEntry0 g e limit pct" and "b \<equiv> burstTokensFor g limit pct"
  shows "i64 (b - debtTokensOf (tatMs e0) (quotaNowMs g) limit) = room g e limit pct + reserved e0"
    and "room g e limit pct + reserved e0 \<le> b"
    and "- 153722867280913 \<le> room g e limit pct + reserved e0"
    and "0 \<le> reserved e0" and "reserved e0 \<le> 10 * maxLimit"
    and "0 \<le> claims e0" and "claims e0 < 4611686018427387904"
    and "1 \<le> b" and "b \<le> 10 * maxLimit"
proof -
  have r: "knobs_ok g" "limit_ok limit" "0 < limit"
      "max 0 (tatMs e - quotaNowMs g) * limit < 9223372036854775808"
    using assms(1) by (auto simp: room_range_def limit_ok_def)
  note d = debtTokensOf_eq [OF r(3,4)]
  have b: "1 \<le> b" "b \<le> 10 * limit"
    unfolding b_def using burstTokensFor_le [OF r(1,2)] by auto
  then show "1 \<le> b" "b \<le> 10 * maxLimit"
    using r(2) by (auto simp: limit_ok_def)
  have t: "tatMs e0 = tatMs e" by (simp add: e0_def quotaEntry0_def)
  have res: "reserved e0 = (if currentQuotaEpoch g > reservedEpoch e then 0 else reserved e)"
    by (simp add: e0_def quotaEntry0_def touchQuotaEpoch_reserved)
  show "0 \<le> reserved e0" "reserved e0 \<le> 10 * maxLimit"
    using assms(1) by (auto simp: res room_range_def maxLimit_def)
  show "0 \<le> claims e0" "claims e0 < 4611686018427387904"
    using assms(1) by (auto simp: e0_def quotaEntry0_def touchQuotaEpoch_reserved room_range_def)
  have eq: "b - debtTokensOf (tatMs e) (quotaNowMs g) limit = room g e limit pct + reserved e0"
    by (simp add: room_def res b_def d(1))
  show "room g e limit pct + reserved e0 \<le> b" using eq d(2) by linarith
  show "- 153722867280913 \<le> room g e limit pct + reserved e0" using eq d(3) b by linarith
  have "in64 (b - debtTokensOf (tatMs e) (quotaNowMs g) limit)"
    unfolding in64_def using d b r(2) unfolding limit_ok_def maxLimit_def by linarith
  then show "i64 (b - debtTokensOf (tatMs e0) (quotaNowMs g) limit) = room g e limit pct + reserved e0"
    using eq t by (simp add: i64_id)
qed

text \<open>
  The admission decision, exactly: the claim is taken iff it fits the room; a refused claim
  leaves the entry as it was found.
\<close>

lemma reserveEntry_spec:
  fixes pct :: int
  assumes "room_range g e limit" and "0 < want"
  defines "e0 \<equiv> quotaEntry0 g e limit pct"
  shows "want \<le> room g e limit pct \<Longrightarrow>
           reserveEntry g e want limit pct =
             ((True, 0, currentQuotaEpoch g),
              e0\<lparr>reserved := reserved e0 + want, claims := claims e0 + 1\<rparr>)"
    and "\<not> want \<le> room g e limit pct \<Longrightarrow>
           \<exists>r. 1 \<le> r \<and> r \<le> 60 \<and> reserveEntry g e want limit pct = ((False, r, 0), e0)"
proof -
  let ?b = "burstTokensFor g limit pct" and ?lv = "room g e limit pct + reserved e0"
  note L = room_level [OF assms(1), of pct, folded e0_def]
  have m: "maxLimit = 1099511627776" by (rule maxLimit_def)
  have body: "reserveEntry g e want limit pct =
     (if want > ?b then ((False, epochIntervalSecs, 0), e0)
      else if i64 (reserved e0 + want) > ?lv
      then ((False, max (min (quo (i64 (i64 (i64 (i64 (i64 (reserved e0 + want) - ?lv) * 60) + limit) - 1)) limit)
                             epochIntervalSecs) 1, 0),
            reservedSubClamp (e0\<lparr>reserved := i64 (reserved e0 + want)\<rparr>) want)
      else ((True, 0, currentQuotaEpoch g),
            e0\<lparr>reserved := i64 (reserved e0 + want), claims := i64 (claims e0 + 1)\<rparr>))"
    by (simp add: reserveEntry_def quotaEntry0_def [symmetric] e0_def [symmetric] Let_def L(1))
  { assume w: "want \<le> ?b"
    have "i64 (reserved e0 + want) = reserved e0 + want" "i64 (claims e0 + 1) = claims e0 + 1"
      using L w assms(2) m by (auto intro!: i64_id simp: in64_def)
    then have "reservedSubClamp (e0\<lparr>reserved := i64 (reserved e0 + want)\<rparr>) want = e0"
      using L m by (simp add: reservedSubClamp_def i64_id in64_def)
    note \<open>i64 (reserved e0 + want) = reserved e0 + want\<close> \<open>i64 (claims e0 + 1) = claims e0 + 1\<close> this }
  note in_b = this
  { assume A: "want \<le> room g e limit pct"
    then have w: "want \<le> ?b" using L by linarith
    show "reserveEntry g e want limit pct =
             ((True, 0, currentQuotaEpoch g),
              e0\<lparr>reserved := reserved e0 + want, claims := claims e0 + 1\<rparr>)"
      using A w in_b(1,2) [OF w] by (simp add: body) }
  { assume A: "\<not> want \<le> room g e limit pct"
    show "\<exists>r. 1 \<le> r \<and> r \<le> 60 \<and> reserveEntry g e want limit pct = ((False, r, 0), e0)"
    proof (cases "want > ?b")
      case True
      then show ?thesis by (simp add: body epochIntervalSecs_def)
    next
      case False
      then have w: "want \<le> ?b" by simp
      show ?thesis
        using A False in_b(3) [OF w] in_b(1) [OF w] by (simp add: body epochIntervalSecs_def)
    qed }
qed

lemma reserveElasticEntry_body:
  fixes pct :: int
  assumes "room_range g e limit" and "0 \<le> firm" and "0 < elastic"
    and "firm \<le> burstTokensFor g limit pct"
  defines "e0 \<equiv> quotaEntry0 g e limit pct"
    and "el \<equiv> min elastic (burstTokensFor g limit pct - firm)"
    and "rm \<equiv> room g e limit pct"
  shows "reserveElasticEntry g e firm elastic limit pct =
     (if firm + el > rm \<and> firm > rm
      then ((False, max (min (quo (i64 (i64 (i64 (i64 (firm + el - rm - el) * 60) + limit) - 1)) limit)
                         epochIntervalSecs) 1, 0, 0), e0)
      else let m = (if firm + el > rm then rm else firm + el)
           in if m = 0 then ((True, 0, 0, 0), e0)
              else ((True, 0, currentQuotaEpoch g, m),
                    e0\<lparr>reserved := reserved e0 + m, claims := claims e0 + 1\<rparr>))"
proof -
  let ?b = "burstTokensFor g limit pct"
  let ?e1 = "e0\<lparr>reserved := reserved e0 + (firm + el)\<rparr>"
  note L = room_level [OF assms(1), of pct, folded e0_def rm_def]
  have mx: "maxLimit = 1099511627776" by (rule maxLimit_def)
  have el: "0 \<le> el" "el \<le> ?b - firm" using assms(2,3,4) by (auto simp: el_def)
  have ov: "i64 (firm + (el - rm)) = firm + el - rm"
    using L el assms(2,4) mx by (subst i64_id) (auto simp: in64_def)
  have x: "i64 (?b - firm) = ?b - firm" "i64 (firm + el) = firm + el"
      "i64 (reserved e0 + (firm + el)) = reserved e0 + (firm + el)"
      "i64 (claims e0 + 1) = claims e0 + 1"
    using L el assms(2,4) mx by (auto intro!: i64_id simp: in64_def)
  have undo: "reservedSubClamp ?e1 (firm + el) = e0"
    using L mx by (simp add: reservedSubClamp_def i64_id in64_def)
  have trim: "reservedSubClamp ?e1 (firm + el - rm) = e0\<lparr>reserved := reserved e0 + rm\<rparr>"
    if "firm \<le> rm"
    using L mx that assms(2) by (simp add: reservedSubClamp_def i64_id in64_def)
  have ell: "i64 (rm - firm) = rm - firm" "i64 rm = rm" if "firm \<le> rm"
    using L mx that assms(2) by (auto intro!: i64_id simp: in64_def)
  have body: "reserveElasticEntry g e firm elastic limit pct =
     (let over = firm + el - rm
        in if over > 0 \<and> over > el
           then ((False, max (min (quo (i64 (i64 (i64 (i64 (over - el) * 60) + limit) - 1)) limit)
                             epochIntervalSecs) 1, 0, 0), reservedSubClamp ?e1 (firm + el))
           else let e2 = (if over > 0 then reservedSubClamp ?e1 over else ?e1);
                    el2 = (if over > 0 then i64 (el - over) else el)
                in if i64 (firm + el2) = 0 then ((True, 0, 0, 0), e2)
                   else ((True, 0, currentQuotaEpoch g, i64 (firm + el2)),
                         e2\<lparr>claims := i64 (claims e2 + 1)\<rparr>))"
    using assms(4)
    by (simp add: reserveElasticEntry_def quotaEntry0_def [symmetric] e0_def [symmetric] Let_def
          L(1) x(1) el_def [symmetric] x(2,3) ov)
  show ?thesis
  proof (cases "firm + el > rm")
    case False
    have "e0\<lparr>reserved := reserved e0\<rparr> = e0" by simp
    with False show ?thesis using L by (simp add: body Let_def x)
  next
    case True
    show ?thesis
    proof (cases "firm \<le> rm")
      case True
      then show ?thesis using \<open>firm + el > rm\<close> el L by (simp add: body Let_def trim ell x)
    next
      case False
      then show ?thesis using \<open>firm + el > rm\<close> el by (simp add: body Let_def undo)
    qed
  qed
qed

text \<open>
  The elastic admission, exactly: it is decided by the firm part alone, and grants the smaller
  of what was asked and the room.
\<close>

lemma reserveElasticEntry_spec:
  fixes pct :: int
  assumes "room_range g e limit" and "0 \<le> firm" and "0 < elastic"
  defines "e0 \<equiv> quotaEntry0 g e limit pct" and "m \<equiv> min (firm + elastic) (room g e limit pct)"
  shows "firm \<le> room g e limit pct \<Longrightarrow>
           reserveElasticEntry g e firm elastic limit pct =
             (if m = 0 then ((True, 0, 0, 0), e0)
              else ((True, 0, currentQuotaEpoch g, m),
                    e0\<lparr>reserved := reserved e0 + m, claims := claims e0 + 1\<rparr>))"
    and "\<not> firm \<le> room g e limit pct \<Longrightarrow>
           \<exists>r. 1 \<le> r \<and> r \<le> 60 \<and> reserveElasticEntry g e firm elastic limit pct = ((False, r, 0, 0), e0)"
proof -
  let ?b = "burstTokensFor g limit pct" and ?rm = "room g e limit pct"
  note L = room_level [OF assms(1), of pct, folded e0_def]
  note B = reserveElasticEntry_body [OF assms(1,2,3), of pct, folded e0_def]
  show "reserveElasticEntry g e firm elastic limit pct =
             (if m = 0 then ((True, 0, 0, 0), e0)
              else ((True, 0, currentQuotaEpoch g, m),
                    e0\<lparr>reserved := reserved e0 + m, claims := claims e0 + 1\<rparr>))"
    if A: "firm \<le> ?rm"
  proof -
    have w: "firm \<le> ?b" using A L by linarith
    have "(if firm + min elastic (?b - firm) > ?rm then ?rm else firm + min elastic (?b - firm)) = m"
      using A L unfolding m_def by auto
    with A show ?thesis by (simp only: B [OF w] Let_def) auto
  qed
  show "\<exists>r. 1 \<le> r \<and> r \<le> 60 \<and> reserveElasticEntry g e firm elastic limit pct = ((False, r, 0, 0), e0)"
    if A: "\<not> firm \<le> ?rm"
  proof (cases "firm > ?b")
    case True
    then have "reserveElasticEntry g e firm elastic limit pct = ((False, epochIntervalSecs, 0, 0), e0)"
      by (simp add: reserveElasticEntry_def quotaEntry0_def [symmetric] e0_def [symmetric] Let_def)
    then show ?thesis by (simp add: epochIntervalSecs_def)
  next
    case False
    then have w: "firm \<le> ?b" by simp
    have "firm + min elastic (?b - firm) > ?rm" using A w assms(3) by auto
    with A show ?thesis by (simp add: B [OF w] epochIntervalSecs_def)
  qed
qed

end
