(* ===== verification/Rate_Store.thy ===== *)
theory Rate_Store
  imports Token_Bucket
begin

text \<open>
  The store of src/pkg/ratelimit/ratelimit.go: the per-key request limiters, the map of token
  quotas, the cold-start warm-up, and every operation of the store. Each operation is a function
  from the store to its results and the new store. The request limiter itself is
  golang.org/x/time/rate, which is not part of the repository: it is the parameter \<open>rateLib\<close>,
  a record of the three calls the code makes. The two Go maps are association lists with distinct
  keys, because the code ranges over them.
\<close>

section \<open>Definitions\<close>

subsection \<open>State\<close>

record 'l rateLib =
  NewLimiter :: "int \<Rightarrow> int \<Rightarrow> 'l"
  Reserve :: "'l \<Rightarrow> int \<Rightarrow> bool \<times> int \<times> 'l"
  Cancel :: "'l \<Rightarrow> int \<Rightarrow> 'l"

record 'l limiterEntry =
  limiter :: 'l
  rps :: int
  burst :: int
  lastAccess :: int

datatype warm = QuotaWarm | QuotaWarmingUp

text \<open>
  \<open>warmDone\<close> says whether a callback is registered; \<open>warmOutcomes\<close> lists the arguments
  it has been called with so far.
\<close>

record 'l RateLimiterStore =
  entries :: "(string \<times> 'l limiterEntry) list"
  quotaMap :: "(string \<times> tokenWindowEntry) list"
  warmState :: warm
  warmDone :: bool
  warmOutcomes :: "bool list"

definition New :: "'l RateLimiterStore" where
  "New = \<lparr>entries = [], quotaMap = [], warmState = QuotaWarm, warmDone = False, warmOutcomes = []\<rparr>"

subsection \<open>Cold-start warm-up\<close>

definition StartQuotaWarmup :: "int \<Rightarrow> bool \<Rightarrow> 'l RateLimiterStore \<Rightarrow> 'l RateLimiterStore" where
  "StartQuotaWarmup timeout hasDone s =
     (if timeout \<le> 0 then s else s\<lparr>warmDone := hasDone, warmState := QuotaWarmingUp\<rparr>)"

definition QuotaWarming :: "'l RateLimiterStore \<Rightarrow> bool" where
  "QuotaWarming s \<longleftrightarrow> warmState s = QuotaWarmingUp"

definition endQuotaWarmup :: "bool \<Rightarrow> 'l RateLimiterStore \<Rightarrow> 'l RateLimiterStore" where
  "endQuotaWarmup failOpen s =
     (if warmState s \<noteq> QuotaWarmingUp then s
      else let s = s\<lparr>warmState := QuotaWarm\<rparr>
           in if warmDone s then s\<lparr>warmOutcomes := warmOutcomes s @ [failOpen]\<rparr> else s)"

subsection \<open>Bucket keys\<close>

definition UserRPSKey :: "string \<Rightarrow> string \<Rightarrow> string" where
  "UserRPSKey tenantID userID = ''u:'' @ tenantID @ ''|'' @ userID"

definition UserQuotaKey :: "string \<Rightarrow> string \<Rightarrow> string" where
  "UserQuotaKey tenantID userID = ''uq:'' @ tenantID @ ''|'' @ userID"

definition UserModelQuotaKey :: "string \<Rightarrow> string \<Rightarrow> string \<Rightarrow> string" where
  "UserModelQuotaKey tenantID userID model = ''um:'' @ tenantID @ ''|'' @ userID @ ''|'' @ model"

definition KeyQuotaKey :: "string \<Rightarrow> string" where
  "KeyQuotaKey keyID = ''kq:'' @ keyID"

definition VipSharedQuotaKey :: "string \<Rightarrow> string" where
  "VipSharedQuotaKey svcIdent = ''v:'' @ svcIdent"

subsection \<open>Request limiters\<close>

text \<open>
  \<open>check\<close>. \<open>now\<close> is the clock in nanoseconds, read once. The advised wait is the delay rounded
  up to whole seconds, at least one.
\<close>

definition check :: "'l rateLib \<Rightarrow> int \<Rightarrow> 'l RateLimiterStore \<Rightarrow> string \<Rightarrow> int \<Rightarrow> int \<Rightarrow>
    (bool \<times> int) \<times> 'l RateLimiterStore" where
  "check lib now s ident r b =
     (let fresh = \<lparr>limiter = NewLimiter lib r b, rps = r, burst = b, lastAccess = 0\<rparr>;
          e = (case map_of (entries s) ident of
                 None \<Rightarrow> fresh
               | Some e \<Rightarrow> if rps e \<noteq> r \<or> burst e \<noteq> b then fresh else e);
          e = e\<lparr>lastAccess := now\<rparr>;
          (ok, delay, l) = Reserve lib (limiter e) now;
          put = (\<lambda>l. s\<lparr>entries := AList.update ident (e\<lparr>limiter := l\<rparr>) (entries s)\<rparr>)
      in if \<not> ok then ((False, 1), put l)
         else if delay > 0
         then ((False, max ((delay + 999999999) div 1000000000) 1), put (Cancel lib l now))
         else ((True, 0), put l))"

definition updateLimiter :: "'l rateLib \<Rightarrow> int \<Rightarrow> 'l RateLimiterStore \<Rightarrow> string \<Rightarrow> int \<Rightarrow> int \<Rightarrow>
    'l RateLimiterStore" where
  "updateLimiter lib now s ident r b =
     s\<lparr>entries := AList.update ident
         \<lparr>limiter = NewLimiter lib r b, rps = r, burst = b, lastAccess = now\<rparr> (entries s)\<rparr>"

definition CheckKey :: "'l rateLib \<Rightarrow> int \<Rightarrow> 'l RateLimiterStore \<Rightarrow> string \<Rightarrow> int \<Rightarrow> int \<Rightarrow>
    (bool \<times> int) \<times> 'l RateLimiterStore" where
  "CheckKey lib now s keyID r b =
     (if r \<le> 0 then ((True, 0), s)
      else let b = (if b \<le> 0 then r else b) in check lib now s (''k:'' @ keyID) r b)"

definition CheckUser :: "'l rateLib \<Rightarrow> int \<Rightarrow> 'l RateLimiterStore \<Rightarrow> string \<Rightarrow> string \<Rightarrow> int \<Rightarrow> int \<Rightarrow>
    (bool \<times> int) \<times> 'l RateLimiterStore" where
  "CheckUser lib now s tenantID userID r b =
     (if r \<le> 0 \<or> userID = '''' then ((True, 0), s)
      else let b = (if b \<le> 0 then r else b) in check lib now s (UserRPSKey tenantID userID) r b)"

definition UpdateUser :: "'l rateLib \<Rightarrow> int \<Rightarrow> 'l RateLimiterStore \<Rightarrow> string \<Rightarrow> string \<Rightarrow> int \<Rightarrow> int \<Rightarrow>
    'l RateLimiterStore" where
  "UpdateUser lib now s tenantID userID r b =
     (if userID = '''' then s
      else let b = (if b \<le> 0 then r else b) in updateLimiter lib now s (UserRPSKey tenantID userID) r b)"

definition CheckVipShared :: "'l rateLib \<Rightarrow> int \<Rightarrow> 'l RateLimiterStore \<Rightarrow> string \<Rightarrow> int \<Rightarrow>
    (bool \<times> int) \<times> 'l RateLimiterStore" where
  "CheckVipShared lib now s svcIdent r =
     (if r \<le> 0 \<or> svcIdent = '''' then ((True, 0), s)
      else check lib now s (VipSharedQuotaKey svcIdent) r r)"

definition CheckTenant :: "'l rateLib \<Rightarrow> int \<Rightarrow> 'l RateLimiterStore \<Rightarrow> string \<Rightarrow> int \<Rightarrow>
    (bool \<times> int) \<times> 'l RateLimiterStore" where
  "CheckTenant lib now s tenantID r =
     (if r \<le> 0 then ((True, 0), s) else check lib now s (''t:'' @ tenantID) r r)"

definition UpdateKey :: "'l rateLib \<Rightarrow> int \<Rightarrow> 'l RateLimiterStore \<Rightarrow> string \<Rightarrow> int \<Rightarrow> int \<Rightarrow>
    'l RateLimiterStore" where
  "UpdateKey lib now s keyID r b =
     (let b = (if b \<le> 0 then r else b) in updateLimiter lib now s (''k:'' @ keyID) r b)"

definition UpdateTenant :: "'l rateLib \<Rightarrow> int \<Rightarrow> 'l RateLimiterStore \<Rightarrow> string \<Rightarrow> int \<Rightarrow>
    'l RateLimiterStore" where
  "UpdateTenant lib now s tenantID r = updateLimiter lib now s (''t:'' @ tenantID) r r"

subsection \<open>Token quotas\<close>

text \<open>\<open>Load\<close> followed by \<open>LoadOrStore\<close> of an empty entry, and the write-back.\<close>

definition loadEntry :: "'l RateLimiterStore \<Rightarrow> string \<Rightarrow> tokenWindowEntry" where
  "loadEntry s k = (case map_of (quotaMap s) k of Some e \<Rightarrow> e | None \<Rightarrow> emptyEntry)"

definition putEntry :: "'l RateLimiterStore \<Rightarrow> string \<Rightarrow> tokenWindowEntry \<Rightarrow> 'l RateLimiterStore" where
  "putEntry s k e = s\<lparr>quotaMap := AList.update k e (quotaMap s)\<rparr>"

definition AllowTokens :: "quotaGlobals \<Rightarrow> 'l RateLimiterStore \<Rightarrow> string \<Rightarrow> int \<Rightarrow> int \<Rightarrow> int \<Rightarrow>
    (bool \<times> int) \<times> 'l RateLimiterStore" where
  "AllowTokens g s tenantID count tokensPerMin pct =
     (if tokensPerMin \<le> 0 \<or> count \<le> 0 then ((True, 0), s)
      else let (r, e) = chargeEntry g (loadEntry s tenantID) count tokensPerMin pct
           in (r, putEntry s tenantID e))"

definition ReserveTokens :: "quotaGlobals \<Rightarrow> 'l RateLimiterStore \<Rightarrow> string \<Rightarrow> int \<Rightarrow> int \<Rightarrow> int \<Rightarrow>
    (bool \<times> int \<times> int) \<times> 'l RateLimiterStore" where
  "ReserveTokens g s tenantID want tokensPerMin pct =
     (if tokensPerMin \<le> 0 \<or> want \<le> 0 then ((True, 0, 0), s)
      else let (r, e) = reserveEntry g (loadEntry s tenantID) want tokensPerMin pct
           in (r, putEntry s tenantID e))"

definition ReserveTokensElastic :: "quotaGlobals \<Rightarrow> 'l RateLimiterStore \<Rightarrow> string \<Rightarrow> int \<Rightarrow> int \<Rightarrow> int \<Rightarrow> int \<Rightarrow>
    (bool \<times> int \<times> int \<times> int) \<times> 'l RateLimiterStore" where
  "ReserveTokensElastic g s tenantID firm elastic tokensPerMin pct =
     (let firm = (if firm < 0 then 0 else firm)
      in if elastic \<le> 0
         then let ((allowed, retry, resEpoch), s) = ReserveTokens g s tenantID firm tokensPerMin pct;
                  granted = (if allowed \<and> resEpoch \<noteq> 0 then firm else 0)
              in ((allowed, retry, resEpoch, granted), s)
         else if tokensPerMin \<le> 0 then ((True, 0, 0, 0), s)
         else let (r, e) = reserveElasticEntry g (loadEntry s tenantID) firm elastic tokensPerMin pct
              in (r, putEntry s tenantID e))"

definition SettleTokens :: "quotaGlobals \<Rightarrow> 'l RateLimiterStore \<Rightarrow> string \<Rightarrow> int \<Rightarrow> int \<Rightarrow> int \<Rightarrow> int \<Rightarrow> int \<Rightarrow>
    (bool \<times> int) \<times> 'l RateLimiterStore" where
  "SettleTokens g s tenantID actual reservedAmt resEpoch tokensPerMin pct =
     (let s = (if reservedAmt > 0 \<and> resEpoch > 0 then
                 (case map_of (quotaMap s) tenantID of
                    None \<Rightarrow> s
                  | Some e \<Rightarrow> if reservedEpoch e = resEpoch
                              then putEntry s tenantID (claimsSubClamp (reservedSubClamp e reservedAmt))
                              else s)
               else s)
      in if actual \<le> 0 then ((True, 0), s)
         else AllowTokens g s tenantID actual tokensPerMin pct)"

definition ReleaseReservation :: "'l RateLimiterStore \<Rightarrow> string \<Rightarrow> int \<Rightarrow> int \<Rightarrow> 'l RateLimiterStore" where
  "ReleaseReservation s key amt resEpoch =
     (if amt \<le> 0 \<or> resEpoch = 0 then s
      else case map_of (quotaMap s) key of
             None \<Rightarrow> s
           | Some e \<Rightarrow> if reservedEpoch e \<noteq> resEpoch then s
                       else putEntry s key (claimsSubClamp (reservedSubClamp e amt)))"

definition TrimReservation :: "'l RateLimiterStore \<Rightarrow> string \<Rightarrow> int \<Rightarrow> int \<Rightarrow> 'l RateLimiterStore" where
  "TrimReservation s key amt resEpoch =
     (if amt \<le> 0 \<or> resEpoch = 0 then s
      else case map_of (quotaMap s) key of
             None \<Rightarrow> s
           | Some e \<Rightarrow> if reservedEpoch e \<noteq> resEpoch then s
                       else putEntry s key (reservedSubClamp e amt))"

definition ReservedTokens :: "'l RateLimiterStore \<Rightarrow> string \<Rightarrow> int" where
  "ReservedTokens s key = (case map_of (quotaMap s) key of Some e \<Rightarrow> reserved e | None \<Rightarrow> 0)"

definition ReservedNow :: "quotaGlobals \<Rightarrow> 'l RateLimiterStore \<Rightarrow> string \<Rightarrow> int \<times> int \<times> bool" where
  "ReservedNow g s key =
     (case map_of (quotaMap s) key of
        None \<Rightarrow> (0, 0, False)
      | Some e \<Rightarrow> if reservedEpoch e \<noteq> currentQuotaEpoch g then (0, 0, True)
                  else (reserved e, claims e, True))"

definition QuotaEpoch :: "quotaGlobals \<Rightarrow> int" where
  "QuotaEpoch g = currentQuotaEpoch g"

definition IsTokenQuotaExceeded :: "quotaGlobals \<Rightarrow> 'l RateLimiterStore \<Rightarrow> string \<Rightarrow> bool" where
  "IsTokenQuotaExceeded g s tenantID =
     (case map_of (quotaMap s) tenantID of
        None \<Rightarrow> False
      | Some e \<Rightarrow>
          let limit = limitTokens e
          in if limit \<le> 0 then False
             else let burstMs = refillCeilMs (burstTokensFor g limit (burstPct e)) limit
                  in i64 (tatMs e - quotaNowMs g) > burstMs)"

record TokenQuotaUsage =
  TenantID :: string
  UsageConsumed :: int
  UsageLimit :: int

definition TokenQuotaSnapshot :: "quotaGlobals \<Rightarrow> 'l RateLimiterStore \<Rightarrow> TokenQuotaUsage list" where
  "TokenQuotaSnapshot g s =
     map (\<lambda>(k, e). \<lparr>TenantID = k, UsageConsumed = debtTokensOf (tatMs e) (quotaNowMs g) (limitTokens e),
                    UsageLimit = limitTokens e\<rparr>)
       (filter (\<lambda>(k, e). \<not> limitTokens e \<le> 0) (quotaMap s))"

subsection \<open>Cleanup\<close>

text \<open>\<open>doCleanup\<close>; \<open>now\<close> is the clock in nanoseconds.\<close>

definition doCleanup :: "quotaGlobals \<Rightarrow> int \<Rightarrow> 'l RateLimiterStore \<Rightarrow> 'l RateLimiterStore" where
  "doCleanup g now s =
     s\<lparr>entries := filter (\<lambda>(ident, e). \<not> lastAccess e < now - cleanupInactiveAfter) (entries s),
       quotaMap := filter (\<lambda>(k, e). \<not> i64 (currentQuotaEpoch g - windowEpoch e) \<ge> quotaEvictAfterWindows g)
                     (quotaMap s)\<rparr>"

subsection \<open>Well-formed stores\<close>

definition store_ok :: "'l RateLimiterStore \<Rightarrow> bool" where
  "store_ok s \<longleftrightarrow> distinct (map fst (entries s)) \<and> distinct (map fst (quotaMap s))"

section \<open>Lemmas\<close>

subsection \<open>Lookups\<close>

lemma putEntry_simps [simp]:
  "entries (putEntry s k e) = entries s" "warmState (putEntry s k e) = warmState s"
  "warmDone (putEntry s k e) = warmDone s" "warmOutcomes (putEntry s k e) = warmOutcomes s"
  by (simp_all add: putEntry_def)

lemma putEntry_map [simp]: "map_of (quotaMap (putEntry s k e)) = (map_of (quotaMap s))(k \<mapsto> e)"
  by (simp add: putEntry_def go_map)

lemma loadEntry_put [simp]:
  "loadEntry (putEntry s k e) k' = (if k' = k then e else loadEntry s k')"
  by (simp add: loadEntry_def)

lemma store_ok_put [simp]: "store_ok s \<Longrightarrow> store_ok (putEntry s k e)"
  by (simp add: store_ok_def putEntry_def distinct_update)

lemma ReservedTokens_load: "ReservedTokens s k = reserved (loadEntry s k)"
  by (simp add: ReservedTokens_def loadEntry_def emptyEntry_def split: option.split)

lemma IsTokenQuotaExceeded_load:
  "IsTokenQuotaExceeded g s k = quotaEntryInDebt g (loadEntry s k) (quotaNowMs g)"
  by (auto simp: IsTokenQuotaExceeded_def quotaEntryInDebt_def loadEntry_def emptyEntry_def Let_def
        split: option.split)

section \<open>Properties\<close>

text \<open>
  C24. Admission of a reservation. A claim is admitted exactly when it fits the room of the bucket:
  the burst, less the spend not yet refilled, less the claims outstanding in this minute. An
  admitted claim is recorded with its tokens and counted; a refused one leaves the bucket as a
  stamp of the minute does and advises a wait of 1 to 60 seconds. Nothing else in the store changes.
\<close>

theorem reserve_admission:
  fixes s :: "'l RateLimiterStore" and pct :: int
  assumes "room_range g (loadEntry s k) limit" and "0 < want"
  defines "e0 \<equiv> quotaEntry0 g (loadEntry s k) limit pct"
  shows "if want \<le> room g (loadEntry s k) limit pct
         then ReserveTokens g s k want limit pct =
                ((True, 0, currentQuotaEpoch g),
                 putEntry s k (e0\<lparr>reserved := reserved e0 + want, claims := claims e0 + 1\<rparr>))
         else \<exists>r. 1 \<le> r \<and> r \<le> 60 \<and> ReserveTokens g s k want limit pct = ((False, r, 0), putEntry s k e0)"
proof -
  have "0 < limit" using assms(1) by (simp add: room_range_def limit_ok_def)
  with reserveEntry_spec [OF assms(1,2), of pct] assms(2) show ?thesis
    by (auto simp: ReserveTokens_def e0_def)
qed


text \<open>
  The elastic part alone can be refused: a request that claims nothing firm is denied when the
  bucket's debt and claims exceed its burst. The doc comment of the operation says that the elastic
  part is never the reason for a denial.
\<close>

theorem elastic_alone_denied:
  fixes s :: "'l RateLimiterStore" and pct :: int
  assumes "room_range g (loadEntry s k) limit" and "0 < elastic" and "room g (loadEntry s k) limit pct < 0"
  shows "\<exists>r s'. 1 \<le> r \<and> ReserveTokensElastic g s k 0 elastic limit pct = ((False, r, 0, 0), s')"
proof -
  have "0 < limit" using assms(1) by (simp add: room_range_def limit_ok_def)
  with reserveElasticEntry_spec(2) [OF assms(1) order_refl assms(2), of pct] assms(2,3) show ?thesis
    by (auto simp: ReserveTokensElastic_def)
qed

text \<open>
  The advised wait is exact. When a charge leaves the bucket in debt, the advice is between 1
  and 60 seconds; one second earlier the latch is still closed, and after the advised wait (when it
  is not capped) it is open, if nothing else is charged.
\<close>

theorem charge_retry_exact:
  fixes s :: "'l RateLimiterStore" and pct :: int
  assumes "knobs_ok g" and "limit_ok limit" and "0 < c" and "0 \<le> quotaNowMs g"
    and "max (tatMs (loadEntry s k)) (quotaNowMs g) + (c * 60000 + limit) < 9223372036854774000"
    and "AllowTokens g s k c limit pct = ((False, r), s')"
  shows "1 \<le> r \<and> r \<le> 60 \<and>
         IsTokenQuotaExceeded (g\<lparr>quotaNowMs := quotaNowMs g + 1000 * (r - 1)\<rparr>) s' k \<and>
         (r < 60 \<longrightarrow> \<not> IsTokenQuotaExceeded (g\<lparr>quotaNowMs := quotaNowMs g + 1000 * r\<rparr>) s' k)"
proof -
  let ?e = "loadEntry s k"
  have lp: "0 < limit" using assms(2) by (simp add: limit_ok_def)
  obtain e' where ce: "chargeEntry g ?e c limit pct = ((False, r), e')" and s': "s' = putEntry s k e'"
    using assms(3,6) lp by (auto simp: AllowTokens_def split: prod.splits)
  note R = chargeEntry_retry [OF assms(1,2) less_imp_le [OF assms(3)] assms(4,5) ce]
  have fr: "limitTokens e' = limit" "burstPct e' = pct"
    using chargeEntry_frame(1,2) [of g ?e c limit pct] by (simp_all add: ce)
  have up: "tatMs e' \<le> max (tatMs ?e) (quotaNowMs g) + (c * 60000 + limit)"
  proof -
    have "c * 60000 + limit < 9223372036854775808" using assms(4,5) by linarith
    with refillCeilMs_bounds(4) [of limit c] lp assms(3) have "refillCeilMs c limit \<le> c * 60000 + limit" by simp
    then show ?thesis using chargeEntry_tat [of limit c g ?e pct] lp assms(3,4,5) by (simp add: ce)
  qed
  have bp: "burstTokensFor (g\<lparr>quotaNowMs := x\<rparr>) limit pct = burstTokensFor g limit pct" for x
    by (simp add: burstTokensFor_def)
  have D: "IsTokenQuotaExceeded (g\<lparr>quotaNowMs := quotaNowMs g + d\<rparr>) s' k \<longleftrightarrow>
      quotaNowMs g + d + refillCeilMs (burstTokensFor g limit pct) limit < tatMs e'"
    if "0 \<le> d" "d \<le> 60000" for d
  proof -
    have "quotaNowMs g \<le> tatMs e'" using R burstMs_bounds(3) [OF assms(1,2), of pct] by auto
    then have "in64 (tatMs e' - (quotaNowMs g + d))" using that up assms(4,5) by (simp add: in64_def)
    then show ?thesis using quotaEntryInDebt_iff [of e' "quotaNowMs g + d"] lp
      by (simp add: s' IsTokenQuotaExceeded_load fr bp)
  qed
  show ?thesis using R D [of "1000 * (r - 1)"] D [of "1000 * r"] by auto
qed

text \<open>
  Eviction forgives debt. A bucket that has not been touched for the eviction horizon is
  dropped whatever its debt, and the latch it held closed is open: the comment on the walk says
  that such an entry reads as zero on every path and that its latch is stale, which holds of a
  fixed window and not of the drain time.
\<close>

theorem eviction_forgives_debt:
  fixes s :: "'l RateLimiterStore"
  assumes "store_ok s" and "map_of (quotaMap s) k = Some e"
    and "quotaEvictAfterWindows g \<le> i64 (currentQuotaEpoch g - windowEpoch e)"
    and "IsTokenQuotaExceeded g s k"
  shows "\<not> IsTokenQuotaExceeded g (doCleanup g now s) k \<and> loadEntry (doCleanup g now s) k = emptyEntry"
proof -
  have "b = e" if "(k, b) \<in> set (quotaMap s)" for b
    using map_of_is_SomeI [OF _ that] assms(1,2) by (simp add: store_ok_def)
  then have "map_of (quotaMap (doCleanup g now s)) k = None"
    using assms(3) by (auto simp: doCleanup_def map_of_eq_None_iff)
  then show ?thesis by (simp add: IsTokenQuotaExceeded_def loadEntry_def)
qed

section \<open>Instances\<close>

definition exG :: quotaGlobals where
  "exG = \<lparr>quotaEvictAfterWindows = 10, quotaBurstPct = 100, currentQuotaEpoch = 1, quotaNowMs = 60000\<rparr>"

lemma exG_epoch: "currentQuotaEpoch exG = 1"
  by (simp add: exG_def)

text \<open>A tenant with a quota of 60 tokens a minute that was charged 80 at once.\<close>

definition exStore :: "unit RateLimiterStore" where
  "exStore = snd (AllowTokens exG New ''t'' 80 60 0)"

theorem reserve_admission_witness:
  "ReserveTokens exG (New :: unit RateLimiterStore) ''t'' 25 60 0 =
     ((True, 0, 1), putEntry New ''t'' \<lparr>windowEpoch = 1, tatMs = 0, reserved = 25, claims = 1, reservedEpoch = 1,
        limitTokens = 60, burstPct = 0\<rparr>)"
proof -
  have r: "room_range exG (loadEntry (New :: unit RateLimiterStore) ''t'') 60" by code_simp
  have le: "25 \<le> room exG (loadEntry (New :: unit RateLimiterStore) ''t'') 60 0" by code_simp
  have q: "quotaEntry0 exG (loadEntry (New :: unit RateLimiterStore) ''t'') 60 0 =
      \<lparr>windowEpoch = 1, tatMs = 0, reserved = 0, claims = 0, reservedEpoch = 1, limitTokens = 60, burstPct = 0\<rparr>"
    by code_simp
  show ?thesis using reserve_admission [OF r, of 25 0] le by (simp add: q exG_epoch)
qed


theorem elastic_alone_denied_witness:
  "\<exists>r s'. 1 \<le> r \<and> ReserveTokensElastic exG exStore ''t'' 0 100 60 0 = ((False, r, 0, 0), s')"
  by (rule elastic_alone_denied) code_simp+

theorem charge_retry_exact_witness:
  "IsTokenQuotaExceeded (exG\<lparr>quotaNowMs := 60000 + 1000 * 19\<rparr>) exStore ''t'' \<and>
     \<not> IsTokenQuotaExceeded (exG\<lparr>quotaNowMs := 60000 + 1000 * 20\<rparr>) exStore ''t''"
proof -
  have "AllowTokens exG New ''t'' 80 60 0 = ((False, 20), exStore)" by code_simp
  moreover have "knobs_ok exG" "limit_ok 60" "0 \<le> quotaNowMs exG"
      "max (tatMs (loadEntry (New :: unit RateLimiterStore) ''t'')) (quotaNowMs exG) + (80 * 60000 + 60) < 9223372036854774000"
      by code_simp+
  ultimately show ?thesis using charge_retry_exact [of exG 60 80 New "''t''" 0 20 exStore] by (simp add: exG_def)
qed

definition exLate :: quotaGlobals where
  "exLate = \<lparr>quotaEvictAfterWindows = 10, quotaBurstPct = 100, currentQuotaEpoch = 11, quotaNowMs = 660000\<rparr>"

text \<open>A charge of 1200 tokens against 60 a minute: 20 minutes to refill.\<close>

definition exDeep :: "unit RateLimiterStore" where
  "exDeep = snd (AllowTokens exG New ''t'' 1200 60 0)"

theorem eviction_forgives_debt_witness:
  "IsTokenQuotaExceeded exLate exDeep ''t'' \<and> \<not> IsTokenQuotaExceeded exLate (doCleanup exLate 0 exDeep) ''t''"
proof -
  have "store_ok exDeep" "IsTokenQuotaExceeded exLate exDeep ''t''" by code_simp+
  moreover have "map_of (quotaMap exDeep) ''t'' = Some (loadEntry exDeep ''t'')"
    "quotaEvictAfterWindows exLate \<le> i64 (currentQuotaEpoch exLate - windowEpoch (loadEntry exDeep ''t''))"
    by code_simp+
  ultimately show ?thesis using eviction_forgives_debt [of exDeep "''t''" "loadEntry exDeep ''t''" exLate 0] by simp
qed

end
