(* ===== verification/Rate_Sync.thy ===== *)
theory Rate_Sync
  imports Rate_Store
begin

text \<open>
  Peer synchronisation of the quota store (src/pkg/ratelimit/ratelimit_sync.go, and the per-peer
  bookkeeping \<open>updatePrevSnapshot\<close> of src/pkg/loxinet/sockproxy_sync.go): the scope-prefixed wire
  keys, the take-the-max merge, full snapshots and deltas. The theory shows that wire keys name
  map keys uniquely, that a received batch acts as a set (order and repetition do not matter),
  that a merge only ever takes headroom away and never touches node-local claims, that pushing a
  delta is as good as pushing everything, and that the warm-up ends once, on quota state only.
\<close>

section \<open>Definitions\<close>

record RateLimiterEntry =
  KeyID :: string
  RPS :: int
  Burst :: int
  IsTenant :: bool
  WindowEpoch :: int
  Consumed :: int
  Exceeded :: bool
  LastAccessNs :: int

definition ScopeSentinelKeyID :: string where
  "ScopeSentinelKeyID = ''ver:2''"

definition ReservedIdentityScopePrefixes :: "string list" where
  "ReservedIdentityScopePrefixes =
     [''k:'', ''u:'', ''t:'', ''tm:'', ''uq:'', ''um:'', ''kq:'', ''v:'', ''ver:'']"

definition HasReservedScopePrefix :: "string \<Rightarrow> bool" where
  "HasReservedScopePrefix ident = list_ex (\<lambda>p. HasPrefix ident p) ReservedIdentityScopePrefixes"

definition identityScopedKey :: "string \<Rightarrow> bool" where
  "identityScopedKey mapKey \<longleftrightarrow>
     HasPrefix mapKey ''uq:'' \<or> HasPrefix mapKey ''um:'' \<or> HasPrefix mapKey ''kq:'' \<or> HasPrefix mapKey ''v:''"

definition QuotaWireKey :: "string \<Rightarrow> string" where
  "QuotaWireKey mapKey =
     (if identityScopedKey mapKey then mapKey
      else if Contains mapKey ''|'' then ''tm:'' @ mapKey
      else ''t:'' @ mapKey)"

definition QuotaMapKey :: "string \<Rightarrow> string \<times> bool" where
  "QuotaMapKey wireKeyID =
     (if identityScopedKey wireKeyID then (wireKeyID, True)
      else case CutPrefix wireKeyID ''tm:'' of
             (rest, True) \<Rightarrow> (rest, True)
           | (_, False) \<Rightarrow>
               (case CutPrefix wireKeyID ''t:'' of
                  (rest, True) \<Rightarrow> (rest, True)
                | (_, False) \<Rightarrow> (wireKeyID, False)))"

text \<open>The two compare-and-swap loops of \<open>mergeQuotaEntry\<close>, each keeping the larger value.\<close>

definition mergeWindow :: "tokenWindowEntry \<Rightarrow> RateLimiterEntry \<Rightarrow> tokenWindowEntry" where
  "mergeWindow we e =
     (let we = (if WindowEpoch e \<le> windowEpoch we then we else we\<lparr>windowEpoch := WindowEpoch e\<rparr>)
      in if Consumed e \<le> tatMs we then we else we\<lparr>tatMs := Consumed e\<rparr>)"

definition mergeQuotaEntry :: "'l RateLimiterStore \<Rightarrow> RateLimiterEntry \<Rightarrow> bool \<times> 'l RateLimiterStore" where
  "mergeQuotaEntry s e =
     (case QuotaMapKey (KeyID e) of
        (_, False) \<Rightarrow> (False, s)
      | (mapKey, True) \<Rightarrow> (True, putEntry s mapKey (mergeWindow (loadEntry s mapKey) e)))"

definition quotaRow :: "quotaGlobals \<Rightarrow> string \<Rightarrow> tokenWindowEntry \<Rightarrow> RateLimiterEntry" where
  "quotaRow g mapKey we =
     \<lparr>KeyID = QuotaWireKey mapKey, RPS = 0, Burst = 0, IsTenant = True, WindowEpoch = windowEpoch we,
      Consumed = tatMs we, Exceeded = quotaEntryInDebt g we (quotaNowMs g), LastAccessNs = 0\<rparr>"

definition ExportState :: "quotaGlobals \<Rightarrow> 'l RateLimiterStore \<Rightarrow> RateLimiterEntry list" where
  "ExportState g s =
     map (\<lambda>(ident, e). \<lparr>KeyID = ident, RPS = rps e, Burst = burst e, IsTenant = False, WindowEpoch = 0,
                        Consumed = 0, Exceeded = False, LastAccessNs = lastAccess e\<rparr>) (entries s)
     @ map (\<lambda>(k, we). quotaRow g k we) (quotaMap s)"

text \<open>The loop of \<open>ImportState\<close> and \<open>ApplyGossipDelta\<close>: the store and the count of merged rows.\<close>

fun mergeBatch :: "'l RateLimiterStore \<Rightarrow> nat \<Rightarrow> RateLimiterEntry list \<Rightarrow> 'l RateLimiterStore \<times> nat" where
  "mergeBatch s merged [] = (s, merged)"
| "mergeBatch s merged (e # es) =
     (if \<not> IsTenant e then mergeBatch s merged es
      else case mergeQuotaEntry s e of
             (True, s) \<Rightarrow> mergeBatch s (Suc merged) es
           | (False, s) \<Rightarrow> mergeBatch s merged es)"

definition ImportState :: "'l RateLimiterStore \<Rightarrow> RateLimiterEntry list \<Rightarrow> 'l RateLimiterStore" where
  "ImportState s es =
     (let (s, merged) = mergeBatch s 0 es in if merged > 0 then endQuotaWarmup False s else s)"

definition ApplyGossipDelta :: "'l RateLimiterStore \<Rightarrow> RateLimiterEntry list \<Rightarrow> 'l RateLimiterStore" where
  "ApplyGossipDelta s es =
     (let (s, merged) = mergeBatch s 0 es in if merged > 0 then endQuotaWarmup False s else s)"

text \<open>Whether \<open>ExportDelta\<close> sends a row; a missing map key reads as zero, as in Go.\<close>

definition deltaWanted :: "(string \<rightharpoonup> int) \<Rightarrow> string \<Rightarrow> tokenWindowEntry \<Rightarrow> bool" where
  "deltaWanted prevSnapshot mapKey we =
     (case prevSnapshot (QuotaWireKey mapKey) of
        None \<Rightarrow> True
      | Some prevTat \<Rightarrow>
          \<not> (tatMs we \<le> prevTat \<and>
              windowEpoch we \<le> (case prevSnapshot (''e:'' @ mapKey) of None \<Rightarrow> 0 | Some v \<Rightarrow> v)))"

definition ExportDelta :: "quotaGlobals \<Rightarrow> 'l RateLimiterStore \<Rightarrow> (string \<rightharpoonup> int) \<Rightarrow> RateLimiterEntry list" where
  "ExportDelta g s prevSnapshot =
     map (\<lambda>(k, we). quotaRow g k we) (filter (\<lambda>(k, we). deltaWanted prevSnapshot k we) (quotaMap s))"

fun updatePrevSnapshot :: "(string \<rightharpoonup> int) \<Rightarrow> RateLimiterEntry list \<Rightarrow> (string \<rightharpoonup> int)" where
  "updatePrevSnapshot m [] = m"
| "updatePrevSnapshot m (e # es) =
     (if \<not> IsTenant e then updatePrevSnapshot m es
      else let m = m(KeyID e \<mapsto> Consumed e);
               mapKey = fst (QuotaMapKey (KeyID e))
           in updatePrevSnapshot (m(''e:'' @ mapKey \<mapsto> WindowEpoch e)) es)"

section \<open>Lemmas\<close>

subsection \<open>Wire keys\<close>

lemma QuotaMapKey_WireKey: "QuotaMapKey (QuotaWireKey k) = (k, True)"
  by (auto simp: QuotaMapKey_def QuotaWireKey_def identityScopedKey_def HasPrefix_def CutPrefix_def)

interpretation wire: codec QuotaWireKey
  "\<lambda>w. case QuotaMapKey w of (k, True) \<Rightarrow> Some k | (_, False) \<Rightarrow> None" "\<lambda>_. True"
  by unfold_locales (simp add: QuotaMapKey_WireKey)

lemma QuotaWireKey_inj [simp]: "QuotaWireKey k = QuotaWireKey k' \<longleftrightarrow> k = k'"
  by (auto intro: wire.enc_inj)

lemma QuotaWireKey_not_epoch [simp]:
  "QuotaWireKey k \<noteq> CHR ''e'' # CHR '':'' # k'" "CHR ''e'' # CHR '':'' # k' \<noteq> QuotaWireKey k"
  by (auto simp: QuotaWireKey_def identityScopedKey_def HasPrefix_def)

lemma ScopeSentinel_not_quota: "snd (QuotaMapKey ScopeSentinelKeyID) = False"
  by (simp add: QuotaMapKey_def ScopeSentinelKeyID_def identityScopedKey_def HasPrefix_def CutPrefix_def)

subsection \<open>The merge\<close>

lemma mergeWindow_eq:
  "mergeWindow we e = we\<lparr>windowEpoch := max (windowEpoch we) (WindowEpoch e),
                         tatMs := max (tatMs we) (Consumed e)\<rparr>"
  by (simp add: mergeWindow_def Let_def max_def)

text \<open>
  The abstract view of the quota map and the abstract merge on it, and the contract of a gossip
  receiver: what a row does to the view depends on the row alone, rows commute and repeat
  harmlessly. Everything a receiver promises of whole batches follows.
\<close>

locale gossip_receiver =
  fixes view :: "'s \<Rightarrow> 'v"
    and recv :: "'s \<Rightarrow> 'e \<Rightarrow> 's"
    and join :: "'e \<Rightarrow> 'v \<Rightarrow> 'v"
  assumes view_recv: "view (recv s e) = join e (view s)"
    and join_comm: "join a (join b v) = join b (join a v)"
    and join_idem: "join a (join a v) = join a v"
begin

sublocale rows: comp_fun_idem join
  by unfold_locales (simp_all add: fun_eq_iff join_comm join_idem)

lemma view_run: "view (run recv s es) = fold join es (view s)"
  by (induction es arbitrary: s) (simp_all add: view_recv)

lemma batch_as_set: "set es = set es' \<Longrightarrow> view (run recv s es) = view (run recv s es')"
  by (simp add: view_run rows.fold_set_fold [symmetric])

lemma replay: "set es' \<subseteq> set es \<Longrightarrow> view (run recv (run recv s es) es') = view (run recv s es)"
  by (simp add: run_append [symmetric]) (rule batch_as_set, auto)

end

definition recvRow :: "'l RateLimiterStore \<Rightarrow> RateLimiterEntry \<Rightarrow> 'l RateLimiterStore" where
  "recvRow s e = (if IsTenant e then snd (mergeQuotaEntry s e) else s)"

definition joinRow :: "RateLimiterEntry \<Rightarrow> (string \<rightharpoonup> tokenWindowEntry) \<Rightarrow> (string \<rightharpoonup> tokenWindowEntry)" where
  "joinRow e m =
     (if \<not> IsTenant e then m
      else case QuotaMapKey (KeyID e) of
             (_, False) \<Rightarrow> m
           | (k, True) \<Rightarrow> m(k \<mapsto> mergeWindow (case m k of None \<Rightarrow> emptyEntry | Some w \<Rightarrow> w) e))"

lemma joinRow_comm: "joinRow a (joinRow b m) = joinRow b (joinRow a m)"
proof -
  obtain ka ba where a: "QuotaMapKey (KeyID a) = (ka, ba)" by (cases "QuotaMapKey (KeyID a)")
  obtain kb bb where b: "QuotaMapKey (KeyID b) = (kb, bb)" by (cases "QuotaMapKey (KeyID b)")
  show ?thesis
  proof (cases "IsTenant a \<and> IsTenant b \<and> ba \<and> bb")
    case False
    then show ?thesis by (auto simp: joinRow_def a b split: bool.splits)
  next
    case True
    then show ?thesis
      by (cases "ka = kb")
         (auto simp: joinRow_def a b mergeWindow_eq fun_upd_twist max.left_commute max.commute)
  qed
qed

lemma joinRow_idem: "joinRow a (joinRow a m) = joinRow a m"
  by (auto simp: joinRow_def mergeWindow_eq split: prod.splits bool.splits)

interpretation quota_sync: gossip_receiver
  "\<lambda>s :: 'l RateLimiterStore. map_of (quotaMap s)" recvRow joinRow
proof unfold_locales
  show "map_of (quotaMap (recvRow s e)) = joinRow e (map_of (quotaMap s))" for s :: "'l RateLimiterStore" and e
    by (auto simp: recvRow_def joinRow_def mergeQuotaEntry_def loadEntry_def split: prod.splits bool.splits)
qed (rule joinRow_comm joinRow_idem)+

text \<open>The batch loop is the run of single rows, and counts the rows that named a quota scope.\<close>

definition quotaRows :: "RateLimiterEntry list \<Rightarrow> RateLimiterEntry list" where
  "quotaRows es = filter (\<lambda>e. IsTenant e \<and> snd (QuotaMapKey (KeyID e))) es"

lemma mergeBatch_eq: "mergeBatch s n es = (run recvRow s es, n + length (quotaRows es))"
proof (induction s n es rule: mergeBatch.induct)
  case (1 s n)
  then show ?case by (simp add: quotaRows_def)
next
  case (2 s n e es)
  obtain k b where k: "QuotaMapKey (KeyID e) = (k, b)" by (cases "QuotaMapKey (KeyID e)")
  show ?case
  proof (cases "IsTenant e")
    case False
    with 2 show ?thesis by (simp add: recvRow_def quotaRows_def)
  next
    case True
    with 2(2,3) show ?thesis
      by (cases b) (simp_all add: mergeQuotaEntry_def recvRow_def quotaRows_def k)
  qed
qed

lemma endQuotaWarmup_simps [simp]:
  "quotaMap (endQuotaWarmup b s) = quotaMap s" "entries (endQuotaWarmup b s) = entries s"
  "warmState (endQuotaWarmup b s) = QuotaWarm" "warmDone (endQuotaWarmup b s) = warmDone s"
  by (auto simp: endQuotaWarmup_def Let_def intro: warm.exhaust [of "warmState s"])

lemma Import_quotaMap [simp]:
  "quotaMap (ImportState s es) = quotaMap (run recvRow s es)"
  "quotaMap (ApplyGossipDelta s es) = quotaMap (run recvRow s es)"
  by (simp_all add: ImportState_def ApplyGossipDelta_def mergeBatch_eq)

text \<open>One received row, seen from one key.\<close>

lemma recvRow_load:
  "loadEntry (recvRow s e) k =
     (if IsTenant e \<and> QuotaMapKey (KeyID e) = (k, True) then mergeWindow (loadEntry s k) e else loadEntry s k)"
  by (auto simp: recvRow_def mergeQuotaEntry_def split: prod.splits bool.splits)

lemma recvRow_other [simp]:
  "entries (recvRow s e) = entries s" "warmState (recvRow s e) = warmState s"
  "warmDone (recvRow s e) = warmDone s" "warmOutcomes (recvRow s e) = warmOutcomes s"
  by (auto simp: recvRow_def mergeQuotaEntry_def split: prod.splits bool.splits)

lemma run_recvRow_other [simp]:
  "entries (run recvRow s es) = entries s" "warmState (run recvRow s es) = warmState s"
  "warmDone (run recvRow s es) = warmDone s" "warmOutcomes (run recvRow s es) = warmOutcomes s"
  by (induction es arbitrary: s) simp_all

lemma loadEntry_run_cong: "quotaMap s = quotaMap s' \<Longrightarrow> loadEntry s k = loadEntry s' k"
  by (simp add: loadEntry_def)

text \<open>Merging rows is inflationary on the two shared fields and frames the node-local ones.\<close>

definition local_part :: "tokenWindowEntry \<Rightarrow> int \<times> int \<times> int \<times> int \<times> int" where
  "local_part e = (reserved e, claims e, reservedEpoch e, limitTokens e, burstPct e)"

lemma run_recvRow_frame:
  "local_part (loadEntry (run recvRow s es) k) = local_part (loadEntry s k)
   \<and> tatMs (loadEntry s k) \<le> tatMs (loadEntry (run recvRow s es) k)
   \<and> windowEpoch (loadEntry s k) \<le> windowEpoch (loadEntry (run recvRow s es) k)"
proof (induction es arbitrary: s)
  case Nil
  then show ?case by simp
next
  case (Cons e es)
  have "local_part (loadEntry (recvRow s e) k) = local_part (loadEntry s k)
      \<and> tatMs (loadEntry s k) \<le> tatMs (loadEntry (recvRow s e) k)
      \<and> windowEpoch (loadEntry s k) \<le> windowEpoch (loadEntry (recvRow s e) k)"
    by (simp add: recvRow_load mergeWindow_eq local_part_def)
  with Cons.IH [of "recvRow s e"] show ?case by auto
qed

text \<open>A row that was received is covered by the receiver from then on.\<close>

lemma run_recvRow_covers:
  assumes "e \<in> set es" and "IsTenant e" and "QuotaMapKey (KeyID e) = (k, True)"
  shows "Consumed e \<le> tatMs (loadEntry (run recvRow s es) k)
       \<and> WindowEpoch e \<le> windowEpoch (loadEntry (run recvRow s es) k)"
  using assms
proof (induction es arbitrary: s)
  case Nil
  then show ?case by simp
next
  case (Cons e' es)
  show ?case
  proof (cases "e \<in> set es")
    case True
    with Cons show ?thesis by simp
  next
    case False
    with Cons.prems have e': "e' = e" by simp
    have "Consumed e \<le> tatMs (loadEntry (recvRow s e) k) \<and> WindowEpoch e \<le> windowEpoch (loadEntry (recvRow s e) k)"
      using Cons.prems by (simp add: recvRow_load mergeWindow_eq)
    with run_recvRow_frame [of "recvRow s e" es k] e' show ?thesis by auto
  qed
qed

subsection \<open>Deltas\<close>

text \<open>What a node remembers of its pushes to a peer, when the peer still holds it.\<close>

definition prev_ok :: "(string \<rightharpoonup> int) \<Rightarrow> 'l RateLimiterStore \<Rightarrow> bool" where
  "prev_ok prev r \<longleftrightarrow>
     (\<forall>k c. prev (QuotaWireKey k) = Some c \<longrightarrow> c \<le> tatMs (loadEntry r k)) \<and>
     (\<forall>k c. prev (''e:'' @ k) = Some c \<longrightarrow> c \<le> windowEpoch (loadEntry r k)) \<and>
     (\<forall>k. prev (QuotaWireKey k) \<noteq> None \<longrightarrow> prev (''e:'' @ k) \<noteq> None)"

definition covers :: "'l RateLimiterStore \<Rightarrow> 'm RateLimiterStore \<Rightarrow> bool" where
  "covers r s \<longleftrightarrow> (\<forall>(k, we) \<in> set (quotaMap s).
     tatMs we \<le> tatMs (loadEntry r k) \<and> windowEpoch we \<le> windowEpoch (loadEntry r k))"

lemma prev_ok_mono:
  assumes "prev_ok prev r"
    and "\<And>k. tatMs (loadEntry r k) \<le> tatMs (loadEntry r' k)"
    and "\<And>k. windowEpoch (loadEntry r k) \<le> windowEpoch (loadEntry r' k)"
  shows "prev_ok prev r'"
  using assms unfolding prev_ok_def by (meson order_trans)

lemma quotaRow_simps [simp]:
  "KeyID (quotaRow g k we) = QuotaWireKey k" "IsTenant (quotaRow g k we)"
  "Consumed (quotaRow g k we) = tatMs we" "WindowEpoch (quotaRow g k we) = windowEpoch we"
  by (simp_all add: quotaRow_def)

lemma updatePrevSnapshot_ok:
  assumes "prev_ok prev r"
    and "\<forall>(k, we) \<in> set kws. tatMs we \<le> tatMs (loadEntry r k) \<and> windowEpoch we \<le> windowEpoch (loadEntry r k)"
  shows "prev_ok (updatePrevSnapshot prev (map (\<lambda>(k, we). quotaRow g k we) kws)) r"
  using assms
proof (induction kws arbitrary: prev)
  case Nil
  then show ?case by simp
next
  case (Cons kw kws)
  obtain k we where kw: "kw = (k, we)" by (cases kw)
  have "prev_ok (prev(QuotaWireKey k \<mapsto> tatMs we, ''e:'' @ k \<mapsto> windowEpoch we)) r"
    using Cons.prems by (auto simp: prev_ok_def kw)
  with Cons.IH Cons.prems show ?case
    by (simp add: kw QuotaMapKey_WireKey)
qed

lemma not_wanted_covered:
  assumes "prev_ok prev r" and "\<not> deltaWanted prev k we"
  shows "tatMs we \<le> tatMs (loadEntry r k)" and "windowEpoch we \<le> windowEpoch (loadEntry r k)"
proof -
  obtain c where c: "prev (QuotaWireKey k) = Some c" "tatMs we \<le> c"
    using assms(2) by (auto simp: deltaWanted_def split: option.splits)
  from assms(1) c obtain v where v: "prev (''e:'' @ k) = Some v" by (auto simp: prev_ok_def)
  with assms(2) c have "windowEpoch we \<le> v" by (auto simp: deltaWanted_def)
  with c v assms(1) show "tatMs we \<le> tatMs (loadEntry r k)" "windowEpoch we \<le> windowEpoch (loadEntry r k)"
    unfolding prev_ok_def by (meson order_trans)+
qed

lemma delta_covers:
  fixes s :: "'m RateLimiterStore" and g :: quotaGlobals
  assumes "prev_ok prev r"
  defines "r' \<equiv> run recvRow r (ExportDelta g s prev)"
  shows "covers r' s"
proof -
  have "tatMs we \<le> tatMs (loadEntry r' k) \<and> windowEpoch we \<le> windowEpoch (loadEntry r' k)"
    if kw: "(k, we) \<in> set (quotaMap s)" for k we
  proof (cases "deltaWanted prev k we")
    case True
    then have "quotaRow g k we \<in> set (ExportDelta g s prev)"
      using kw by (force simp: ExportDelta_def)
    from run_recvRow_covers [OF this, of k r] show ?thesis
      unfolding r'_def by (simp add: QuotaMapKey_WireKey)
  next
    case False
    from not_wanted_covered [OF assms(1) this]
      run_recvRow_frame [of r "ExportDelta g s prev" k] show ?thesis
      unfolding r'_def by auto
  qed
  then show ?thesis by (auto simp: covers_def)
qed

lemma delta_prev_ok:
  assumes "prev_ok prev r"
  shows "prev_ok (updatePrevSnapshot prev (ExportDelta g s prev)) (run recvRow r (ExportDelta g s prev))"
proof -
  let ?r' = "run recvRow r (ExportDelta g s prev)"
  have "prev_ok prev ?r'"
    by (rule prev_ok_mono [OF assms]) (simp_all add: run_recvRow_frame)
  moreover have "\<forall>(k, we) \<in> set (filter (\<lambda>(k, we). deltaWanted prev k we) (quotaMap s)).
      tatMs we \<le> tatMs (loadEntry ?r' k) \<and> windowEpoch we \<le> windowEpoch (loadEntry ?r' k)"
    using delta_covers [OF assms, of g s] by (auto simp: covers_def)
  ultimately show ?thesis
    unfolding ExportDelta_def by (rule updatePrevSnapshot_ok)
qed

subsection \<open>Full and incremental pushes\<close>

text \<open>Rows of distinct keys act on one key as the row of that key does.\<close>

lemma run_rows_load:
  assumes "distinct (map fst kws)"
  shows "loadEntry (run recvRow r (map (\<lambda>(k, we). quotaRow g k we) kws)) k =
     (case map_of kws k of None \<Rightarrow> loadEntry r k | Some we \<Rightarrow> mergeWindow (loadEntry r k) (quotaRow g k we))"
  using assms
proof (induction kws arbitrary: r)
  case Nil
  then show ?case by simp
next
  case (Cons kw kws)
  obtain k' we where kw: "kw = (k', we)" by (cases kw)
  have "map_of kws k = None" if "k = k'" using Cons.prems that by (simp add: kw map_of_eq_None_iff)
  with Cons show ?case
    by (auto simp: kw recvRow_load QuotaMapKey_WireKey split: option.split)
qed

lemma run_skip: "list_all (\<lambda>e. \<not> IsTenant e) es \<Longrightarrow> run recvRow s (es @ es') = run recvRow s es'"
  by (induction es) (simp_all add: recvRow_def)

lemma mergeWindow_covered:
  "tatMs we \<le> tatMs e \<Longrightarrow> windowEpoch we \<le> windowEpoch e \<Longrightarrow> mergeWindow e (quotaRow g k we) = e"
  by (simp add: mergeWindow_def)

lemma map_of_filter_distinct:
  "distinct (map fst xs) \<Longrightarrow>
     map_of (filter (\<lambda>(k, v). P k v) xs) k = (case map_of xs k of None \<Rightarrow> None | Some v \<Rightarrow> if P k v then Some v else None)"
proof (induction xs)
  case (Cons x xs)
  then show ?case by (cases x) (auto simp: map_of_eq_None_iff split: option.split)
qed simp

lemma distinct_fst_filter: "distinct (map fst xs) \<Longrightarrow> distinct (map fst (filter P xs))"
  by (induction xs) auto

lemma delta_full_load:
  assumes "store_ok s" and "prev_ok prev r"
  shows "loadEntry (run recvRow r (ExportDelta g s prev)) k = loadEntry (run recvRow r (ExportState g s)) k"
proof -
  have d: "distinct (map fst (quotaMap s))" using assms(1) by (simp add: store_ok_def)
  have full: "run recvRow r (ExportState g s) = run recvRow r (map (\<lambda>(k, we). quotaRow g k we) (quotaMap s))"
    unfolding ExportState_def by (rule run_skip) (auto simp: list_all_iff)
  show ?thesis
    using not_wanted_covered [OF assms(2)]
    by (auto simp: full ExportDelta_def run_rows_load [OF d] run_rows_load [OF distinct_fst_filter [OF d]]
          map_of_filter_distinct [OF d] mergeWindow_covered split: option.split)
qed

subsection \<open>Warm-up\<close>

lemma Import_warm:
  "warmState (ApplyGossipDelta s es) = (if quotaRows es = [] then warmState s else QuotaWarm)"
  "warmState (ImportState s es) = (if quotaRows es = [] then warmState s else QuotaWarm)"
  by (simp_all add: ApplyGossipDelta_def ImportState_def mergeBatch_eq)

text \<open>What can end a warm-up: the deadline and a received batch.\<close>

datatype warmEvent = WarmDeadline | WarmBatch "RateLimiterEntry list"

fun warmStep :: "'l RateLimiterStore \<Rightarrow> warmEvent \<Rightarrow> 'l RateLimiterStore" where
  "warmStep s WarmDeadline = endQuotaWarmup True s"
| "warmStep s (WarmBatch es) = ImportState s es"

fun endsWarm :: "warmEvent \<Rightarrow> bool" where
  "endsWarm WarmDeadline = True"
| "endsWarm (WarmBatch es) = (quotaRows es \<noteq> [])"

lemma warmStep_keeps: "\<not> endsWarm ev \<Longrightarrow> warmState (warmStep s ev) = warmState s \<and> warmDone (warmStep s ev) = warmDone s \<and> warmOutcomes (warmStep s ev) = warmOutcomes s"
  by (cases ev) (simp_all add: ImportState_def mergeBatch_eq)

lemma warmStep_ends:
  "endsWarm ev \<Longrightarrow> warmState (warmStep s ev) = QuotaWarm \<and> warmDone (warmStep s ev) = warmDone s \<and>
     warmOutcomes (warmStep s ev) =
       warmOutcomes s @ (if warmState s = QuotaWarmingUp \<and> warmDone s then [ev = WarmDeadline] else [])"
  by (cases ev; cases "warmState s") (auto simp: ImportState_def mergeBatch_eq endQuotaWarmup_def Let_def)

lemma run_warm: "warmState s = QuotaWarm \<Longrightarrow> warmState (run warmStep s evs) = QuotaWarm \<and> warmOutcomes (run warmStep s evs) = warmOutcomes s"
proof (induction evs arbitrary: s)
  case (Cons ev evs)
  then show ?case using warmStep_keeps [of ev s] warmStep_ends [of ev s] by (cases "endsWarm ev") auto
qed simp

lemma run_warming:
  assumes "warmState s = QuotaWarmingUp" and "warmDone s"
  shows "warmOutcomes (run warmStep s evs) =
           warmOutcomes s @ (case find endsWarm evs of None \<Rightarrow> [] | Some ev \<Rightarrow> [ev = WarmDeadline]) \<and>
         (warmState (run warmStep s evs) = QuotaWarmingUp \<longleftrightarrow> find endsWarm evs = None)"
  using assms
proof (induction evs arbitrary: s)
  case (Cons ev evs)
  show ?case
  proof (cases "endsWarm ev")
    case True
    with warmStep_ends [OF True, of s] run_warm [of "warmStep s ev" evs] Cons.prems show ?thesis by simp
  next
    case False
    with warmStep_keeps [OF False, of s] Cons.IH [of "warmStep s ev"] Cons.prems show ?thesis by simp
  qed
qed simp

section \<open>Properties\<close>

text \<open>
  C9. A delta is as good as a full push. Whatever was pushed before, if the receiver still holds
  it, applying the delta leaves every bucket of the receiver exactly as applying the full export
  would, every bucket of the sender is covered, and the sender's updated memory is again one the
  receiver holds: incremental gossip loses nothing, round after round.
\<close>

theorem delta_equals_full_push:
  assumes "store_ok s" and "prev_ok prev r"
  shows "(\<forall>k. loadEntry (ApplyGossipDelta r (ExportDelta g s prev)) k = loadEntry (ImportState r (ExportState g s)) k) \<and>
         covers (ApplyGossipDelta r (ExportDelta g s prev)) s \<and>
         prev_ok (updatePrevSnapshot prev (ExportDelta g s prev)) (ApplyGossipDelta r (ExportDelta g s prev))"
proof -
  have L: "loadEntry (ApplyGossipDelta r es) k = loadEntry (run recvRow r es) k"
    "loadEntry (ImportState r es) k = loadEntry (run recvRow r es) k" for es k
    by (rule loadEntry_run_cong, simp)+
  show ?thesis
    using delta_full_load [OF assms] delta_covers [OF assms(2), of g s] delta_prev_ok [OF assms(2), of g s]
    by (simp add: L covers_def prev_ok_def)
qed

text \<open>
  C33. A batch acts as a set of rows: order and repetition do not matter, and applying rows that
  were already received changes no bucket.
\<close>

theorem gossip_batch_as_set:
  fixes s :: "'l RateLimiterStore"
  assumes "set es = set es'" and "set es'' \<subseteq> set es"
  shows "map_of (quotaMap (ApplyGossipDelta s es)) = map_of (quotaMap (ApplyGossipDelta s es')) \<and>
         map_of (quotaMap (ApplyGossipDelta (ApplyGossipDelta s es) es'')) = map_of (quotaMap (ApplyGossipDelta s es))"
proof -
  have eq: "map_of (quotaMap (ApplyGossipDelta u xs)) = fold joinRow xs (map_of (quotaMap u))"
    for u :: "'l RateLimiterStore" and xs
    by (simp add: quota_sync.view_run)
  show ?thesis
    using quota_sync.batch_as_set [OF assms(1), of s] quota_sync.replay [OF assms(2), of s]
    by (simp add: eq quota_sync.view_run)
qed

text \<open>
  Peer state never mints headroom: merging any rows leaves every bucket with at most the room
  it had, and does not touch the claims, the quota or the burst of this node.
\<close>

theorem gossip_never_mints:
  assumes "0 \<le> limit"
  shows "room g (loadEntry (ApplyGossipDelta s es) k) limit pct \<le> room g (loadEntry s k) limit pct \<and>
         local_part (loadEntry (ApplyGossipDelta s es) k) = local_part (loadEntry s k)"
proof -
  have L: "loadEntry (ApplyGossipDelta s es) k = loadEntry (run recvRow s es) k"
    by (rule loadEntry_run_cong) simp
  note F = run_recvRow_frame [of s es k]
  have "max 0 (tatMs (loadEntry s k) - quotaNowMs g) * limit \<le> max 0 (tatMs (loadEntry (run recvRow s es) k) - quotaNowMs g) * limit"
    using F assms by (intro mult_right_mono) auto
  then have "max 0 (tatMs (loadEntry s k) - quotaNowMs g) * limit div 60000 \<le>
      max 0 (tatMs (loadEntry (run recvRow s es) k) - quotaNowMs g) * limit div 60000"
    by (rule zdiv_mono1) simp
  with F show ?thesis by (simp add: L room_def local_part_def)
qed

text \<open>
  Wire keys round-trip: the receiver of an exported key finds the key it came from, whatever
  the key contains, so no two buckets share a wire key; the version sentinel names no bucket.
\<close>

theorem wire_key_roundtrip:
  "QuotaMapKey (QuotaWireKey k) = (k, True) \<and> (QuotaWireKey k = QuotaWireKey k' \<longleftrightarrow> k = k') \<and>
   \<not> snd (QuotaMapKey ScopeSentinelKeyID)"
  by (simp add: QuotaMapKey_WireKey ScopeSentinel_not_quota)

text \<open>
  The warm-up reports once. A store that starts warming with a callback calls it at most once,
  on the first event that ends the warm-up, and says whether that was the deadline; a batch without
  quota rows ends nothing.
\<close>

theorem warmup_reports_once:
  fixes s :: "'l RateLimiterStore"
  assumes "0 < timeout" and "s = StartQuotaWarmup timeout True New"
  shows "warmOutcomes (run warmStep s evs) = (case find endsWarm evs of None \<Rightarrow> [] | Some ev \<Rightarrow> [ev = WarmDeadline]) \<and>
         (QuotaWarming (run warmStep s evs) \<longleftrightarrow> find endsWarm evs = None)"
proof -
  have "warmState s = QuotaWarmingUp" "warmDone s" "warmOutcomes s = []"
    using assms by (simp_all add: StartQuotaWarmup_def New_def)
  with run_warming [of s evs] show ?thesis by (simp add: QuotaWarming_def)
qed

section \<open>Instances\<close>

definition exRow :: "string \<Rightarrow> int \<Rightarrow> RateLimiterEntry" where
  "exRow k tat = \<lparr>KeyID = k, RPS = 0, Burst = 0, IsTenant = True, WindowEpoch = 1, Consumed = tat, Exceeded = False,
     LastAccessNs = 0\<rparr>"

theorem delta_equals_full_push_witness:
  "covers (ApplyGossipDelta (New :: unit RateLimiterStore) (ExportDelta exG exStore Map.empty)) exStore"
proof -
  have "prev_ok Map.empty (New :: unit RateLimiterStore)" by (simp add: prev_ok_def)
  moreover have "store_ok exStore" by code_simp
  ultimately show ?thesis using delta_equals_full_push by blast
qed

theorem gossip_batch_as_set_witness:
  "map_of (quotaMap (ApplyGossipDelta exStore [exRow ''t:t'' 70000, exRow ''t:u'' 9])) =
   map_of (quotaMap (ApplyGossipDelta exStore [exRow ''t:u'' 9, exRow ''t:t'' 70000, exRow ''t:u'' 9]))"
  by (rule gossip_batch_as_set [THEN conjunct1, of _ _ "[]"]) auto

theorem gossip_never_mints_witness:
  "room exG (loadEntry (ApplyGossipDelta exStore [exRow ''t:t'' 900000]) ''t'') 60 0 \<le> room exG (loadEntry exStore ''t'') 60 0"
  by (rule gossip_never_mints [THEN conjunct1]) simp

theorem warmup_reports_once_witness:
  "warmOutcomes (run warmStep (StartQuotaWarmup 5 True (New :: unit RateLimiterStore))
     [WarmBatch [], WarmBatch [exRow ''t:t'' 9], WarmDeadline]) = [False]"
proof -
  have "find endsWarm [WarmBatch [], WarmBatch [exRow ''t:t'' 9], WarmDeadline] = Some (WarmBatch [exRow ''t:t'' 9])"
    by code_simp
  then show ?thesis
    using warmup_reports_once [of 5 "StartQuotaWarmup 5 True (New :: unit RateLimiterStore)"
        "[WarmBatch [], WarmBatch [exRow ''t:t'' 9], WarmDeadline]"]
    by (simp del: run.simps)
qed

end
