(* ===== verification/Quota_Runs.thy ===== *)
theory Quota_Runs
  imports Rate_Sync
begin

text \<open>
  Runs of the quota store: the operations of src/pkg/ratelimit in any order, each at its own
  reading of the clock, with merges of peer state between them. The theory shows that the store
  stays well formed, that stamps of a bucket never go back, and the bound on what a bucket can be
  charged over an interval.
\<close>

section \<open>Definitions\<close>

datatype quotaOp =
    OpAllow string int int int
  | OpReserve string int int int
  | OpElastic string int int int int
  | OpSettle string int int int int int
  | OpRelease string int int
  | OpTrim string int int
  | OpGossip "RateLimiterEntry list"

fun quotaStep :: "'l RateLimiterStore \<Rightarrow> quotaGlobals \<times> quotaOp \<Rightarrow> 'l RateLimiterStore" where
  "quotaStep s (g, OpAllow k count limit pct) = snd (AllowTokens g s k count limit pct)"
| "quotaStep s (g, OpReserve k want limit pct) = snd (ReserveTokens g s k want limit pct)"
| "quotaStep s (g, OpElastic k firm elastic limit pct) = snd (ReserveTokensElastic g s k firm elastic limit pct)"
| "quotaStep s (g, OpSettle k actual amt ep limit pct) = snd (SettleTokens g s k actual amt ep limit pct)"
| "quotaStep s (g, OpRelease k amt ep) = ReleaseReservation s k amt ep"
| "quotaStep s (g, OpTrim k amt ep) = TrimReservation s k amt ep"
| "quotaStep s (g, OpGossip es) = ApplyGossipDelta s es"

text \<open>The tokens a step charges to a bucket, if any, with the quota it is charged under.\<close>

fun chargeOf :: "string \<Rightarrow> quotaOp \<Rightarrow> (int \<times> int \<times> int) option" where
  "chargeOf k (OpAllow k' count limit pct) =
     (if k' = k \<and> 0 < limit \<and> 0 < count then Some (count, limit, pct) else None)"
| "chargeOf k (OpSettle k' actual amt ep limit pct) =
     (if k' = k \<and> 0 < limit \<and> 0 < actual then Some (actual, limit, pct) else None)"
| "chargeOf k _ = None"

definition chargedTokens :: "string \<Rightarrow> (quotaGlobals \<times> quotaOp) list \<Rightarrow> int" where
  "chargedTokens k ops = (\<Sum>(g, op) \<leftarrow> ops. case chargeOf k op of None \<Rightarrow> 0 | Some (c, _, _) \<Rightarrow> c)"

text \<open>
  What bounds a run on the bucket \<open>k\<close>: clocks within an interval, one quota throughout, and no
  drain time received from a peer beyond \<open>M\<close>. \<open>runRoom\<close> bounds what the charges add.
\<close>

definition opBound :: "string \<Rightarrow> int \<Rightarrow> int \<Rightarrow> int \<Rightarrow> int \<Rightarrow> int \<Rightarrow> quotaGlobals \<times> quotaOp \<Rightarrow> bool" where
  "opBound k limit pct t0 tn M = (\<lambda>(g, op).
     t0 \<le> quotaNowMs g \<and> quotaNowMs g \<le> tn \<and>
     (case chargeOf k op of None \<Rightarrow> True | Some (c, l, p) \<Rightarrow> l = limit \<and> p = pct) \<and>
     (case op of OpGossip es \<Rightarrow> list_all (\<lambda>e. Consumed e \<le> M) es | _ \<Rightarrow> True))"

definition runRoom :: "string \<Rightarrow> int \<Rightarrow> (quotaGlobals \<times> quotaOp) list \<Rightarrow> int" where
  "runRoom k limit ops =
     (\<Sum>(g, op) \<leftarrow> ops. case chargeOf k op of None \<Rightarrow> 0 | Some (c, _, _) \<Rightarrow> c * 60000 + limit)"

section \<open>Lemmas\<close>

lemma chargeOf_pos: "chargeOf k op = Some (c, l, p) \<Longrightarrow> 0 < c \<and> 0 < l"
  by (cases op) (auto split: if_splits)

lemma runRoom_nonneg: "0 \<le> limit \<Longrightarrow> 0 \<le> runRoom k limit ops"
proof (induction ops)
  case (Cons x ops)
  then show ?case
    by (cases x) (auto simp: runRoom_def split: option.split dest!: chargeOf_pos)
qed (simp add: runRoom_def)

text \<open>A reservation, a release and a trim never move the drain time.\<close>

lemma reserveEntry_tat: "tatMs (snd (reserveEntry g e want limit pct)) = tatMs e"
  by (simp add: reserveEntry_def Let_def)

lemma reserveElasticEntry_tat: "tatMs (snd (reserveElasticEntry g e firm elastic limit pct)) = tatMs e"
  by (simp add: reserveElasticEntry_def Let_def)

lemma ReserveTokens_tat: "tatMs (loadEntry (snd (ReserveTokens g s k' want limit pct)) k) = tatMs (loadEntry s k)"
  using reserveEntry_tat [of g "loadEntry s k'" want limit pct]
  by (simp add: ReserveTokens_def case_prod_beta Let_def)

lemma quotaStep_tat_other:
  assumes "chargeOf k op = None" and "\<And>es. op \<noteq> OpGossip es"
  shows "tatMs (loadEntry (quotaStep s (g, op)) k) = tatMs (loadEntry s k)"
proof (cases op)
  case (OpElastic k' firm elastic limit pct)
  then show ?thesis
    using ReserveTokens_tat [of g s k' _ limit pct k] reserveElasticEntry_tat [of g "loadEntry s k'" _ elastic limit pct]
    by (simp add: ReserveTokensElastic_def case_prod_beta Let_def)
next
  case (OpAllow k' count limit pct)
  with assms(1) show ?thesis by (auto simp: AllowTokens_def case_prod_beta Let_def split: if_splits)
next
  case (OpSettle k' actual amt ep limit pct)
  with assms(1) show ?thesis
    by (auto simp: SettleTokens_def AllowTokens_def case_prod_beta Let_def loadEntry_def split: if_splits option.splits)
next
  case (OpRelease k' amt ep)
  then show ?thesis by (auto simp: ReleaseReservation_def loadEntry_def split: option.splits)
next
  case (OpTrim k' amt ep)
  then show ?thesis by (auto simp: TrimReservation_def loadEntry_def split: option.splits)
qed (use assms(2) ReserveTokens_tat in simp_all)

text \<open>A charge moves it as \<open>chargeEntry\<close> says, from the drain time the bucket had.\<close>

lemma chargeEntry_tat_eq:
  "tatMs e = tatMs e' \<Longrightarrow>
     tatMs (snd (chargeEntry g e c limit pct)) = tatMs (snd (chargeEntry g e' c limit pct))"
  by (simp add: chargeEntry_frame)

lemma quotaStep_tat_charge:
  assumes "chargeOf k op = Some (c, limit, pct)"
  shows "tatMs (loadEntry (quotaStep s (g, op)) k) = tatMs (snd (chargeEntry g (loadEntry s k) c limit pct))"
proof (cases op)
  case (OpAllow k' count limit' pct')
  with assms show ?thesis by (auto simp: AllowTokens_def case_prod_beta Let_def split: if_splits)
next
  case (OpSettle k' actual amt ep limit' pct')
  have "tatMs (snd (chargeEntry g (claimsSubClamp (reservedSubClamp e amt)) c limit pct)) =
      tatMs (snd (chargeEntry g e c limit pct))" for e
    by (rule chargeEntry_tat_eq) simp
  with assms OpSettle show ?thesis
    by (auto simp: SettleTokens_def AllowTokens_def case_prod_beta Let_def loadEntry_def split: if_splits option.splits)
qed (use assms in simp_all)

text \<open>Rows received from a peer raise it, to at most what they carry.\<close>

lemma run_recvRow_upper:
  assumes "list_all (\<lambda>e. Consumed e \<le> M) es"
  shows "tatMs (loadEntry (run recvRow s es) k) \<le> max (tatMs (loadEntry s k)) M"
  using assms
proof (induction es arbitrary: s)
  case (Cons e es)
  have "tatMs (loadEntry (recvRow s e) k) \<le> max (tatMs (loadEntry s k)) M"
    using Cons.prems by (auto simp: recvRow_load mergeWindow_eq)
  moreover have "tatMs (loadEntry (run recvRow (recvRow s e) es) k) \<le> max (tatMs (loadEntry (recvRow s e) k)) M"
    using Cons by simp
  ultimately show ?case by simp
qed simp

lemma loadEntry_gossip: "loadEntry (ApplyGossipDelta s es) k = loadEntry (run recvRow s es) k"
  by (rule loadEntry_run_cong) simp

text \<open>One step: what it charges shows in the drain time, and the drain time stays in range.\<close>

lemma quotaStep_bounds:
  assumes "0 < limit" and "0 \<le> t0" and "opBound k limit pct t0 tn M (g, op)" and "tn \<le> M"
    and "max (tatMs (loadEntry s k)) M + runRoom k limit [(g, op)] < 9223372036854775808"
  defines "s' \<equiv> quotaStep s (g, op)"
  shows "limit * max (tatMs (loadEntry s k)) t0 + 60000 * chargedTokens k [(g, op)]
           \<le> limit * max (tatMs (loadEntry s' k)) t0 \<and>
         max (tatMs (loadEntry s' k)) M \<le> max (tatMs (loadEntry s k)) M + runRoom k limit [(g, op)]"
proof (cases "chargeOf k op")
  case (Some cl)
  then obtain c p l where c: "chargeOf k op = Some (c, l, p)" by (cases cl) auto
  have b: "t0 \<le> quotaNowMs g" "quotaNowMs g \<le> M" "l = limit" "p = pct"
    using assms(3,4) c by (auto simp: opBound_def)
  have cp: "0 \<le> c" using chargeOf_pos [OF c] by simp
  have r: "max (tatMs (loadEntry s k)) M + (c * 60000 + limit) < 9223372036854775808"
    using assms(5) c by (simp add: runRoom_def)
  from chargeEntry_step [OF assms(1,2) b(1,2) cp r, of pct] c b(3,4)
  show ?thesis by (simp add: s'_def quotaStep_tat_charge chargedTokens_def runRoom_def)
next
  case None
  show ?thesis
  proof (cases "\<exists>es. op = OpGossip es")
    case True
    then obtain es where es: "op = OpGossip es" by blast
    have "tatMs (loadEntry s k) \<le> tatMs (loadEntry s' k)" "tatMs (loadEntry s' k) \<le> max (tatMs (loadEntry s k)) M"
      using run_recvRow_frame [of s es k] run_recvRow_upper [of M es s k] assms(3)
      by (auto simp: s'_def es opBound_def loadEntry_gossip)
    then show ?thesis using None assms(1) by (auto simp: chargedTokens_def runRoom_def)
  next
    case False
    then have "tatMs (loadEntry s' k) = tatMs (loadEntry s k)"
      unfolding s'_def by (intro quotaStep_tat_other [OF None]) blast
    then show ?thesis using None by (simp add: chargedTokens_def runRoom_def)
  qed
qed

lemma quotaRun_bounds:
  assumes "0 < limit" and "0 \<le> t0" and "list_all (opBound k limit pct t0 tn M) ops" and "tn \<le> M"
    and "max (tatMs (loadEntry s k)) M + runRoom k limit ops < 9223372036854775808"
  shows "limit * max (tatMs (loadEntry s k)) t0 + 60000 * chargedTokens k ops
           \<le> limit * max (tatMs (loadEntry (run quotaStep s ops) k)) t0 \<and>
         max (tatMs (loadEntry (run quotaStep s ops) k)) M \<le> max (tatMs (loadEntry s k)) M + runRoom k limit ops"
  using assms(3,5)
proof (induction ops arbitrary: s)
  case Nil
  then show ?case by (simp add: chargedTokens_def runRoom_def)
next
  case (Cons x ops)
  obtain g op where x: "x = (g, op)" by (cases x)
  have sum: "runRoom k limit (x # ops) = runRoom k limit [(g, op)] + runRoom k limit ops"
      "chargedTokens k (x # ops) = chargedTokens k [(g, op)] + chargedTokens k ops"
    by (simp_all add: runRoom_def chargedTokens_def x)
  have nn: "0 \<le> runRoom k limit ops" using assms(1) by (intro runRoom_nonneg) simp
  have st: "limit * max (tatMs (loadEntry s k)) t0 + 60000 * chargedTokens k [(g, op)]
           \<le> limit * max (tatMs (loadEntry (quotaStep s (g, op)) k)) t0 \<and>
         max (tatMs (loadEntry (quotaStep s (g, op)) k)) M
           \<le> max (tatMs (loadEntry s k)) M + runRoom k limit [(g, op)]"
    using Cons.prems x sum nn by (intro quotaStep_bounds [OF assms(1,2) _ assms(4)]) auto
  define u0 u1 u2 where u: "u0 = max (tatMs (loadEntry s k)) M" "u1 = max (tatMs (loadEntry (quotaStep s (g, op)) k)) M"
    "u2 = max (tatMs (loadEntry (run quotaStep s (x # ops)) k)) M"
  define w0 w1 w2 where w: "w0 = limit * max (tatMs (loadEntry s k)) t0"
    "w1 = limit * max (tatMs (loadEntry (quotaStep s (g, op)) k)) t0"
    "w2 = limit * max (tatMs (loadEntry (run quotaStep s (x # ops)) k)) t0"
  note st = st [folded u w]
  have "u1 + runRoom k limit ops < 9223372036854775808"
    using st Cons.prems(2) [folded u] by (simp add: sum)
  then have "w1 + 60000 * chargedTokens k ops \<le> w2 \<and> u2 \<le> u1 + runRoom k limit ops"
    using Cons.IH [of "quotaStep s (g, op)"] Cons.prems(1) by (simp add: x u w)
  with st have "w0 + 60000 * chargedTokens k (x # ops) \<le> w2 \<and> u2 \<le> u0 + runRoom k limit (x # ops)"
    by (simp add: sum)
  then show ?case by (simp only: u w)
qed

text \<open>A bucket that is not in debt has a drain time within its burst of now.\<close>

lemma not_exceeded_tat:
  assumes "\<not> IsTokenQuotaExceeded g s k" and "0 < limitTokens (loadEntry s k)"
    and "in64 (tatMs (loadEntry s k) - quotaNowMs g)"
  shows "tatMs (loadEntry s k) \<le> quotaNowMs g +
           refillCeilMs (burstTokensFor g (limitTokens (loadEntry s k)) (burstPct (loadEntry s k))) (limitTokens (loadEntry s k))"
  using assms quotaEntryInDebt_iff [of "loadEntry s k" "quotaNowMs g" g]
  by (simp add: IsTokenQuotaExceeded_load)
subsection \<open>What every step keeps\<close>

lemma store_ok_recv: "store_ok s \<Longrightarrow> store_ok (run recvRow s es)"
  by (induction es arbitrary: s) (auto simp: recvRow_def mergeQuotaEntry_def split: prod.split bool.split)

lemma store_ok_warm: "store_ok (endQuotaWarmup b s) = store_ok s"
  by (simp add: store_ok_def)

lemma quotaStep_ok: "store_ok s \<Longrightarrow> store_ok (quotaStep s gop)"
proof -
  assume ok: "store_ok s"
  obtain g op where gop: "gop = (g, op)" by (cases gop)
  have A: "store_ok (snd (AllowTokens g s k c l p))" if "store_ok s" for g k c l p and s :: "'a RateLimiterStore"
    using that by (simp add: AllowTokens_def case_prod_beta Let_def)
  have R: "store_ok (snd (ReserveTokens g s k c l p))" for k c l p
    using ok by (simp add: ReserveTokens_def case_prod_beta Let_def)
  show ?thesis
  proof (cases op)
    case (OpSettle k actual amt ep l p)
    then show ?thesis
      using A ok by (auto simp: gop SettleTokens_def Let_def split: option.split)
  next
    case (OpElastic k firm elastic l p)
    then show ?thesis
      using R ok by (simp add: gop ReserveTokensElastic_def case_prod_beta Let_def)
  next
    case (OpGossip es)
    then show ?thesis
      using store_ok_recv [OF ok] by (simp add: gop ApplyGossipDelta_def mergeBatch_eq store_ok_warm)
  qed (use A R ok in \<open>auto simp: gop ReleaseReservation_def TrimReservation_def split: option.split\<close>)
qed

lemma windowEpoch_subs:
  "windowEpoch (snd (reserveEntry g e want limit pct)) = max (windowEpoch e) (currentQuotaEpoch g)"
  "windowEpoch (snd (reserveElasticEntry g e firm elastic limit pct)) = max (windowEpoch e) (currentQuotaEpoch g)"
  by (simp_all add: reserveEntry_def reserveElasticEntry_def Let_def)

lemma quotaStep_epoch: "windowEpoch (loadEntry s k) \<le> windowEpoch (loadEntry (quotaStep s gop) k)"
proof -
  obtain g op where gop: "gop = (g, op)" by (cases gop)
  have A: "windowEpoch (loadEntry s k) \<le> windowEpoch (loadEntry (snd (AllowTokens g s k' c l p)) k)"
    for g k' c l p and s :: "'a RateLimiterStore"
    by (simp add: AllowTokens_def case_prod_beta Let_def chargeEntry_frame)
  have R: "windowEpoch (loadEntry s k) \<le> windowEpoch (loadEntry (snd (ReserveTokens g s k' c l p)) k)" for k' c l p
    by (simp add: ReserveTokens_def case_prod_beta Let_def windowEpoch_subs)
  show ?thesis
  proof (cases op)
    case (OpSettle k' actual amt ep l p)
    define s1 where "s1 = (if amt > 0 \<and> ep > 0 then
                 (case map_of (quotaMap s) k' of
                    None \<Rightarrow> s
                  | Some e \<Rightarrow> if reservedEpoch e = ep
                              then putEntry s k' (claimsSubClamp (reservedSubClamp e amt)) else s)
               else s)"
    have "windowEpoch (loadEntry s1 k) = windowEpoch (loadEntry s k)"
      by (auto simp: s1_def loadEntry_def split: option.split)
    then show ?thesis
      using A [of s1 g k' actual l p] by (simp add: gop OpSettle SettleTokens_def s1_def [symmetric])
  next
    case (OpElastic k' firm elastic l p)
    then show ?thesis
      using R by (simp add: gop ReserveTokensElastic_def case_prod_beta Let_def windowEpoch_subs)
  next
    case (OpGossip es)
    then show ?thesis using run_recvRow_frame [of s es k] by (simp add: gop loadEntry_gossip)
  qed (use A R in \<open>auto simp: gop ReleaseReservation_def TrimReservation_def loadEntry_def split: option.splits\<close>)
qed

interpretation quota_run: monotone_machine quotaStep store_ok "\<lambda>s. windowEpoch (loadEntry s k)"
  for k
  by unfold_locales (rule quotaStep_ok quotaStep_epoch, assumption?)+

section \<open>Properties\<close>

text \<open>
  C1. Over any run of charges, reservations, settlements, releases, trims and merges of peer
  state, at clocks in an interval of \<open>tn - t0\<close> milliseconds, a bucket that is not in debt at the
  end was charged at most the refill of the interval plus one burst (plus the rounding of less
  than one millisecond's refill): the long-run rate is the configured quota, whatever the
  interleaving and whatever peers report.
\<close>

theorem quota_spend_bound:
  assumes "knobs_ok g" and "limit_ok limit" and "0 \<le> t0" and "quotaNowMs g = tn" and "tn \<le> M"
    and "list_all (opBound k limit pct t0 tn M) ops" and "t0 \<le> tn"
    and "max (tatMs (loadEntry s k)) M + runRoom k limit ops < 9223372036854775808"
    and "limitTokens (loadEntry (run quotaStep s ops) k) = limit"
    and "burstPct (loadEntry (run quotaStep s ops) k) = pct"
    and "\<not> IsTokenQuotaExceeded g (run quotaStep s ops) k"
  shows "60000 * chargedTokens k ops
           \<le> limit * (tn - t0) + 60000 * burstTokensFor g limit pct + limit - 1"
proof -
  let ?tat = "tatMs (loadEntry (run quotaStep s ops) k)" and ?b = "refillCeilMs (burstTokensFor g limit pct) limit"
  have lp: "0 < limit" using assms(2) by (simp add: limit_ok_def)
  note B = quotaRun_bounds [OF lp assms(3,6,5,8)]
  note bm = burstMs_bounds [OF assms(1,2), of pct]
  have "?tat \<le> tn + ?b"
  proof (cases "?tat \<le> tn")
    case False
    then have "in64 (?tat - quotaNowMs g)" using B assms(3,4,7,8) by (auto simp: in64_def)
    then show ?thesis using not_exceeded_tat [OF assms(11)] assms(4,9,10) lp by simp
  qed (use bm in linarith)
  then have "max ?tat t0 \<le> tn + ?b" using assms(7) bm by linarith
  then have up: "limit * max ?tat t0 \<le> limit * (tn + ?b)" using lp by (intro mult_left_mono) auto
  have lo: "limit * t0 \<le> limit * max (tatMs (loadEntry s k)) t0" using lp by (intro mult_left_mono) auto
  have "60000 * chargedTokens k ops \<le> limit * (tn + ?b) - limit * t0"
    using B up lo by linarith
  also have "\<dots> = limit * (tn - t0) + limit * ?b" by (simp add: algebra_simps)
  finally show ?thesis using bm by linarith
qed

definition exOps :: "(quotaGlobals \<times> quotaOp) list" where
  "exOps = [(exG, OpAllow ''t'' 40 60 0), (exG, OpReserve ''t'' 10 60 0), (exG, OpSettle ''t'' 5 10 1 60 0)]"

theorem quota_spend_bound_witness:
  "60000 * chargedTokens ''t'' exOps \<le> 60 * (60000 - 60000) + 60000 * burstTokensFor exG 60 0 + 60 - 1"
proof (rule quota_spend_bound [where M = 60000 and s = "New :: unit RateLimiterStore" and ops = exOps])
  show "knobs_ok exG" by code_simp
  show "list_all (opBound ''t'' 60 0 60000 60000 60000) exOps" by code_simp
  show "\<not> IsTokenQuotaExceeded exG (run quotaStep New exOps) ''t''" by code_simp
qed code_simp+

end
