(* ===== verification/Go_Net.thy ===== *)
theory Go_Net
  imports Gw_Prelude
begin

text \<open>
  The parts of Go's net, strconv and fmt packages that the policy and protocol code calls: decimal
  printing of unsigned integers, and the validity of an address (\<open>netip.ParseAddr\<close>) and of a CIDR
  block (\<open>net.ParseCIDR\<close>), for IPv4 and IPv6. Only whether a string parses is modelled; the code
  keeps the string and drops the parsed value.
\<close>

section \<open>Definitions\<close>

subsection \<open>Decimal printing\<close>

text \<open>\<open>%d\<close> of a value of an unsigned type.\<close>

function itoa :: "int \<Rightarrow> string" where
  "itoa n = (if n < 10 then [char_of (48 + nat n)] else itoa (n div 10) @ [char_of (48 + nat (n mod 10))])"

  by auto
termination by (relation "measure nat") auto

declare itoa.simps [simp del]

text \<open>Conversions to the unsigned types keep the low bits.\<close>

definition u8 :: "int \<Rightarrow> int" where "u8 x = x mod 256"
definition u16 :: "int \<Rightarrow> int" where "u16 x = x mod 65536"
definition u32 :: "int \<Rightarrow> int" where "u32 x = x mod 4294967296"

subsection \<open>IPv4\<close>

text \<open>
  \<open>parseIPv4Fields\<close>: four decimal fields of at most 255 separated by dots, none empty and none
  with a leading zero. The state is the value and the number of digits of the current field and
  the number of fields already closed.
\<close>

fun ipv4Fields :: "int \<Rightarrow> nat \<Rightarrow> nat \<Rightarrow> string \<Rightarrow> bool" where
  "ipv4Fields val digLen pos [] = (digLen > 0 \<and> pos = 3)"
| "ipv4Fields val digLen pos (c # cs) =
     (case digit_of c of
        Some d \<Rightarrow>
          if digLen = 1 \<and> val = 0 then False
          else (let v = val * 10 + d in if v > 255 then False else ipv4Fields v (Suc digLen) pos cs)
      | None \<Rightarrow>
          if c = CHR ''.'' then
            (if digLen = 0 \<or> pos = 3 then False else ipv4Fields 0 0 (Suc pos) cs)
          else False)"

definition parseIPv4 :: "string \<Rightarrow> bool" where
  "parseIPv4 s = ipv4Fields 0 0 0 s"

subsection \<open>IPv6\<close>

definition isHex :: "char \<Rightarrow> bool" where
  "isHex c \<longleftrightarrow> (let n = (of_char c :: nat) in (48 \<le> n \<and> n \<le> 57) \<or> (97 \<le> n \<and> n \<le> 102) \<or> (65 \<le> n \<and> n \<le> 70))"

text \<open>
  The loop of \<open>parseIPv6\<close>: \<open>i\<close> bytes are filled, \<open>ell\<close> says whether an ellipsis was seen. Each
  round reads a group of one to four hex digits, then the end, a colon with more, an ellipsis, or
  a trailing IPv4 address. The fuel is the length of the string: every round consumes a digit.
\<close>

fun ipv6Loop :: "nat \<Rightarrow> nat \<Rightarrow> bool \<Rightarrow> string \<Rightarrow> bool" where
  "ipv6Loop 0 i ell s = False"
| "ipv6Loop (Suc fuel) i ell s =
     (if i \<ge> 16 then s = [] \<and> \<not> ell
      else
        let grp = takeWhile isHex s; rest = dropWhile isHex s
        in if grp = [] \<or> length grp > 4 then False
           else case rest of
                  [] \<Rightarrow> (if i + 2 < 16 then ell else \<not> ell)
                | c # cs \<Rightarrow>
                    if c = CHR ''.'' then
                      (if (\<not> ell \<and> i \<noteq> 12) \<or> i + 4 > 16 then False
                       else parseIPv4 s \<and> (if i + 4 < 16 then ell else \<not> ell))
                    else if c \<noteq> CHR '':'' \<or> cs = [] then False
                    else if hd cs = CHR '':'' then
                      (if ell then False
                       else if tl cs = [] then i + 2 < 16
                       else ipv6Loop fuel (i + 2) True (tl cs))
                    else ipv6Loop fuel (i + 2) ell cs)"

text \<open>A zone is refused by \<open>net.ParseCIDR\<close>, so an address with a percent sign does not parse here.\<close>

definition parseIPv6 :: "string \<Rightarrow> bool" where
  "parseIPv6 s =
     (if CHR ''%'' \<in> set s then False
      else if prefix ''::'' s then
        (let s = drop 2 s in if s = [] then True else ipv6Loop (Suc (length s)) 0 True s)
      else ipv6Loop (Suc (length s)) 0 False s)"

text \<open>\<open>netip.ParseAddr\<close>: the first dot, colon or percent sign decides.\<close>

definition ParseAddr :: "string \<Rightarrow> bool \<times> bool" where
  "ParseAddr s =
     (case filter (\<lambda>c. c = CHR ''.'' \<or> c = CHR '':'' \<or> c = CHR ''%'') s of
        [] \<Rightarrow> (False, False)
      | c # _ \<Rightarrow> if c = CHR ''.'' then (parseIPv4 s, True)
                 else if c = CHR '':'' then (parseIPv6 s, False)
                 else (False, False))"

definition ParseCIDR :: "string \<Rightarrow> bool" where
  "ParseCIDR s =
     (let addr = takeWhile (\<lambda>c. c \<noteq> CHR ''/'') s; rest = dropWhile (\<lambda>c. c \<noteq> CHR ''/'') s
      in case rest of
           [] \<Rightarrow> False
         | _ # pfx \<Rightarrow>
             (case ParseAddr addr of
                (ok, is4) \<Rightarrow>
                  ok \<and> pfx \<noteq> [] \<and>
                  (case digits_val 0 pfx of
                     None \<Rightarrow> False
                   | Some n \<Rightarrow> n \<le> (if is4 then 32 else 128))))"

section \<open>Lemmas\<close>

lemma digit_of_char: "d < 10 \<Longrightarrow> digit_of (char_of (48 + d)) = Some (int d)"
  by (simp add: digit_of_def Let_def)

lemma digits_val_append:
  "digits_val acc (xs @ ys) = (case digits_val acc xs of None \<Rightarrow> None | Some v \<Rightarrow> digits_val v ys)"
  by (induction xs arbitrary: acc) (auto split: option.split)

lemma digits_val_itoa: "0 \<le> n \<Longrightarrow> digits_val 0 (itoa n) = Some n"
proof (induction n rule: itoa.induct)
  case (1 n)
  show ?case
  proof (cases "n < 10")
    case True
    then show ?thesis using 1 by (subst itoa.simps) (simp add: digit_of_char)
  next
    case False
    with 1 show ?thesis
      by (subst itoa.simps) (simp add: digits_val_append digit_of_char)
  qed
qed

interpretation decimal: codec itoa "digits_val 0" "\<lambda>n. 0 \<le> n"
  by unfold_locales (rule digits_val_itoa)

lemma itoa_digits: "0 \<le> n \<Longrightarrow> c \<in> set (itoa n) \<Longrightarrow> 48 \<le> (of_char c :: nat) \<and> (of_char c :: nat) \<le> 57"
proof (induction n rule: itoa.induct)
  case (1 n)
  have d: "48 \<le> (of_char (char_of (48 + d)) :: nat) \<and> (of_char (char_of (48 + d)) :: nat) \<le> 57"
    if "d < 10" for d :: nat
    using that by simp
  show ?case
  proof (cases "n < 10")
    case True
    then have "c = char_of (48 + nat n)" using 1(3) by (subst (asm) itoa.simps) simp
    with d [of "nat n"] 1(2) True show ?thesis by simp
  next
    case False
    then have "c \<in> set (itoa (n div 10)) \<or> c = char_of (48 + nat (n mod 10))"
      using 1(3) by (subst (asm) itoa.simps) auto
    with d [of "nat (n mod 10)"] 1(1,2) False show ?thesis by auto
  qed
qed

lemma itoa_no_delim [simp]: "0 \<le> n \<Longrightarrow> CHR ''|'' \<notin> set (itoa n)" "0 \<le> n \<Longrightarrow> CHR ''-'' \<notin> set (itoa n)"
  using itoa_digits by force+

lemma unsigned_nonneg [simp]: "0 \<le> u8 x" "0 \<le> u16 x" "0 \<le> u32 x"
  by (simp_all add: u8_def u16_def u32_def)

text \<open>What parses holds no delimiter of a composite key.\<close>

lemma digits_val_chars: "digits_val acc s = Some v \<Longrightarrow> CHR ''|'' \<notin> set s"
proof (induction s arbitrary: acc)
  case (Cons c s)
  then show ?case by (auto simp: digit_of_def Let_def split: option.splits if_splits)
qed simp

lemma ipv4Fields_chars: "ipv4Fields val n pos s \<Longrightarrow> CHR ''|'' \<notin> set s"
proof (induction s arbitrary: val n pos)
  case (Cons c s)
  then show ?case by (auto simp: digit_of_def Let_def split: option.splits if_splits)
qed simp

lemma takeWhile_hex: "CHR ''|'' \<notin> set (takeWhile isHex s)"
  by (auto dest!: set_takeWhileD simp: isHex_def)

lemma ipv6Loop_chars: "ipv6Loop fuel i ell s \<Longrightarrow> CHR ''|'' \<notin> set s"
proof (induction fuel arbitrary: i ell s)
  case (Suc fuel)
  have s: "set s = set (takeWhile isHex s) \<union> set (dropWhile isHex s)"
    by (metis set_append takeWhile_dropWhile_id)
  have "CHR ''|'' \<notin> set (dropWhile isHex s)"
  proof (cases "dropWhile isHex s")
    case (Cons c cs)
    show ?thesis
    proof (cases "c = CHR ''.''")
      case True
      then have "s = [] \<or> parseIPv4 s" using Suc.prems Cons by (auto simp: Let_def split: if_splits)
      then have "CHR ''|'' \<notin> set s" using ipv4Fields_chars by (auto simp: parseIPv4_def)
      with s show ?thesis by auto
    next
      case False
      then show ?thesis
        using Suc.prems Cons by (cases cs) (auto simp: Let_def split: if_splits dest: Suc.IH)
    qed
  next
    case Nil
    then show ?thesis by (simp only: Nil) simp
  qed
  with s takeWhile_hex show ?case by simp
qed simp

lemma ParseAddr_chars: "ParseAddr s = (True, b) \<Longrightarrow> CHR ''|'' \<notin> set s"
proof -
  assume "ParseAddr s = (True, b)"
  then consider "parseIPv4 s" | "parseIPv6 s" by (auto simp: ParseAddr_def split: list.splits if_splits)
  then show ?thesis
  proof cases
    case 1
    then show ?thesis unfolding parseIPv4_def by (rule ipv4Fields_chars)
  next
    case 2
    show ?thesis
    proof (cases "prefix ''::'' s")
      case True
      then obtain r where r: "s = ''::'' @ r" by (auto simp: prefix_def)
      with 2 have "r = [] \<or> ipv6Loop (Suc (length r)) 0 True r"
        by (auto simp: parseIPv6_def simp del: ipv6Loop.simps split: if_splits)
      then have "CHR ''|'' \<notin> set r"
        using ipv6Loop_chars [of "Suc (length r)" 0 True r] by (auto simp del: ipv6Loop.simps)
      with r show ?thesis by simp
    next
      case False
      with 2 ipv6Loop_chars show ?thesis by (auto simp: parseIPv6_def simp del: ipv6Loop.simps split: if_splits)
    qed
  qed
qed

lemma ParseCIDR_chars: "ParseCIDR s \<Longrightarrow> CHR ''|'' \<notin> set s"
proof -
  assume "ParseCIDR s"
  then obtain pfx b v where p: "dropWhile (\<lambda>c. c \<noteq> CHR ''/'') s = CHR ''/'' # pfx"
      "ParseAddr (takeWhile (\<lambda>c. c \<noteq> CHR ''/'') s) = (True, b)" "digits_val 0 pfx = Some v"
    by (auto simp: ParseCIDR_def Let_def dropWhile_eq_Cons_conv split: list.splits prod.splits option.splits)
  have "set s = set (takeWhile (\<lambda>c. c \<noteq> CHR ''/'') s) \<union> set (CHR ''/'' # pfx)"
    by (metis p(1) set_append takeWhile_dropWhile_id)
  with ParseAddr_chars [OF p(2)] digits_val_chars [OF p(3)] show ?thesis by simp
qed

end
