(* ===== verification/Opa_Sync.thy ===== *)
theory Opa_Sync
  imports Go_Net
begin

text \<open>
  The policy watcher of src/pkg/opa: a circuit breaker in front of the policy server, the
  normaliser that turns policy rules into firewall rules, the differ, the applier and the cache,
  and \<open>syncOnce\<close>, which runs one cycle over them. The policy server's answer, the firewall's REST
  interface and the cancellation of the context are parameters of a cycle. Go iterates over its
  maps in any order; here a map that is iterated is an association list, in any order.
\<close>

section \<open>Definitions\<close>

subsection \<open>The circuit breaker (circuit\_breaker.go)\<close>

datatype CircuitBreakerState = CircuitClosed | CircuitOpen | CircuitHalfOpen

record CircuitBreaker =
  cbState :: CircuitBreakerState
  failureCount :: int
  successCount :: int
  lastFailureTime :: int
  recoveryTimeout :: int
  failureThreshold :: int
  successThreshold :: int

text \<open>Times are nanoseconds; the zero \<open>time.Time\<close> of a new breaker is never read before a failure.\<close>

definition NewCircuitBreaker :: CircuitBreaker where
  "NewCircuitBreaker = \<lparr>cbState = CircuitClosed, failureCount = 0, successCount = 0, lastFailureTime = 0,
     recoveryTimeout = 60000000000, failureThreshold = 5, successThreshold = 2\<rparr>"

definition AllowRequest :: "int \<Rightarrow> CircuitBreaker \<Rightarrow> bool \<times> CircuitBreaker" where
  "AllowRequest now cb =
     (case cbState cb of
        CircuitClosed \<Rightarrow> (True, cb)
      | CircuitOpen \<Rightarrow>
          if now - lastFailureTime cb \<ge> recoveryTimeout cb
          then (True, cb\<lparr>cbState := CircuitHalfOpen, successCount := 0, failureCount := 0\<rparr>)
          else (False, cb)
      | CircuitHalfOpen \<Rightarrow> (True, cb))"

definition RecordSuccess :: "CircuitBreaker \<Rightarrow> CircuitBreaker" where
  "RecordSuccess cb =
     (case cbState cb of
        CircuitHalfOpen \<Rightarrow>
          (let cb = cb\<lparr>successCount := successCount cb + 1\<rparr>
           in if successCount cb \<ge> successThreshold cb
              then cb\<lparr>cbState := CircuitClosed, failureCount := 0, successCount := 0\<rparr> else cb)
      | CircuitClosed \<Rightarrow> cb\<lparr>failureCount := 0\<rparr>
      | CircuitOpen \<Rightarrow> cb)"

definition RecordFailure :: "int \<Rightarrow> CircuitBreaker \<Rightarrow> CircuitBreaker" where
  "RecordFailure now cb =
     (let cb = cb\<lparr>lastFailureTime := now\<rparr>
      in case cbState cb of
           CircuitClosed \<Rightarrow>
             (let cb = cb\<lparr>failureCount := failureCount cb + 1\<rparr>
              in if failureCount cb \<ge> failureThreshold cb then cb\<lparr>cbState := CircuitOpen\<rparr> else cb)
         | CircuitHalfOpen \<Rightarrow> cb\<lparr>cbState := CircuitOpen, successCount := 0\<rparr>
         | CircuitOpen \<Rightarrow> cb)"

subsection \<open>Rules (types.go, common.go, normalizer.go)\<close>

record OPARule =
  SourceIP :: string
  DestinationIP :: string
  Protocol :: int
  MinSourcePort :: int
  MaxSourcePort :: int
  MinDestinationPort :: int
  MaxDestinationPort :: int
  Action :: string
  Preference :: int

record FwRuleArg =
  SrcIP :: string
  DstIP :: string
  SrcPortMin :: int
  SrcPortMax :: int
  DstPortMin :: int
  DstPortMax :: int
  Proto :: int
  InPort :: string
  Pref :: int
  HwOffload :: bool

record FwOptArg =
  Drop :: bool
  Trap :: bool
  Record :: bool
  Rdr :: bool
  RdrPort :: string
  Allow :: bool
  Mark :: int
  DoSnat :: bool
  ToIP :: string
  ToPort :: int
  OnDefault :: bool
  Counter :: string

definition zeroOpt :: FwOptArg where
  "zeroOpt = \<lparr>Drop = False, Trap = False, Record = False, Rdr = False, RdrPort = '''', Allow = False,
     Mark = 0, DoSnat = False, ToIP = '''', ToPort = 0, OnDefault = False, Counter = ''''\<rparr>"

type_synonym DiffKey = string

definition validProtocols :: "int list" where
  "validProtocols = [0, 6, 17, 132]"

definition MakeDiffKey :: "FwRuleArg \<Rightarrow> DiffKey" where
  "MakeDiffKey rule =
     SrcIP rule @ ''|'' @ DstIP rule @ ''|'' @ itoa (Proto rule) @ ''|'' @
     itoa (SrcPortMin rule) @ ''-'' @ itoa (SrcPortMax rule) @ ''|'' @
     itoa (DstPortMin rule) @ ''-'' @ itoa (DstPortMax rule) @ ''|'' @ itoa (Pref rule)"

definition normalizeCIDR :: "string \<Rightarrow> string option" where
  "normalizeCIDR s = (if s = '''' then Some ''0.0.0.0/0'' else if ParseCIDR s then Some s else None)"

text \<open>The full port range 0-65535 is written 0-0.\<close>

definition portRange :: "int \<Rightarrow> int \<Rightarrow> int \<times> int" where
  "portRange lo hi = (let a = u16 lo; b = u16 hi in if a = 0 \<and> b = 65535 then (0, 0) else (a, b))"

definition convertRule :: "OPARule \<Rightarrow> (FwRuleArg \<times> FwOptArg) option" where
  "convertRule r =
     (case (if Action r = ''allow'' then Some (zeroOpt\<lparr>Allow := True\<rparr>)
            else if Action r = ''deny'' then Some (zeroOpt\<lparr>Drop := True\<rparr>) else None) of
        None \<Rightarrow> None
      | Some fwOpt \<Rightarrow>
          if Protocol r \<notin> set validProtocols then None
          else case normalizeCIDR (SourceIP r) of
                 None \<Rightarrow> None
               | Some srcIP \<Rightarrow>
                   (case normalizeCIDR (DestinationIP r) of
                      None \<Rightarrow> None
                    | Some dstIP \<Rightarrow>
                        if MinSourcePort r > MaxSourcePort r then None
                        else if MinDestinationPort r > MaxDestinationPort r then None
                        else
                          let (sMin, sMax) = portRange (MinSourcePort r) (MaxSourcePort r);
                              (dMin, dMax) = portRange (MinDestinationPort r) (MaxDestinationPort r)
                          in Some (\<lparr>SrcIP = srcIP, DstIP = dstIP, SrcPortMin = sMin, SrcPortMax = sMax,
                                   DstPortMin = dMin, DstPortMax = dMax, Proto = u8 (Protocol r), InPort = '''',
                                   Pref = u32 (Preference r), HwOffload = False\<rparr>, fwOpt)))"

type_synonym ruleMap = "(DiffKey \<times> FwRuleArg) list"
type_synonym optMap = "(DiffKey \<times> FwOptArg) list"

fun Normalize :: "OPARule list \<Rightarrow> ruleMap \<Rightarrow> optMap \<Rightarrow> ruleMap \<times> optMap" where
  "Normalize [] rules opts = (rules, opts)"
| "Normalize (r # rs) rules opts =
     (case convertRule r of
        None \<Rightarrow> Normalize rs rules opts
      | Some (fwRule, fwOpt) \<Rightarrow>
          Normalize rs (AList.update (MakeDiffKey fwRule) fwRule rules)
            (AList.update (MakeDiffKey fwRule) fwOpt opts))"

subsection \<open>The differ (differ.go)\<close>

record DiffResult =
  ToAdd :: ruleMap
  ToDelete :: ruleMap
  OptsToAdd :: optMap
  OptsToDelete :: optMap

definition optsFor :: "ruleMap \<Rightarrow> optMap \<Rightarrow> optMap" where
  "optsFor rules opts = List.map_filter (\<lambda>(k, _). map_option (Pair k) (map_of opts k)) rules"

definition Diff :: "ruleMap \<Rightarrow> ruleMap \<Rightarrow> optMap \<Rightarrow> optMap \<Rightarrow> DiffResult" where
  "Diff currentRules desiredRules currentOpts desiredOpts =
     (let toAdd = filter (\<lambda>(k, _). map_of currentRules k = None) desiredRules;
          toDelete = filter (\<lambda>(k, _). map_of desiredRules k = None) currentRules
      in \<lparr>ToAdd = toAdd, ToDelete = toDelete, OptsToAdd = optsFor toAdd desiredOpts,
          OptsToDelete = optsFor toDelete currentOpts\<rparr>)"

subsection \<open>The applier (applier.go)\<close>

record ApplyResult =
  Added :: nat
  Deleted :: nat
  Errors :: nat
  AddedKeys :: "DiffKey list"
  DeletedKeys :: "DiffKey list"

definition emptyResult :: ApplyResult where
  "emptyResult = \<lparr>Added = 0, Deleted = 0, Errors = 0, AddedKeys = [], DeletedKeys = []\<rparr>"

text \<open>
  The REST calls are functions of the firewall's state; \<open>ctxErr n\<close> says whether the context is
  cancelled when the \<open>n\<close>th call is about to be made. The first component of a result says whether
  the loop ran to its end.
\<close>

fun applyDeletes :: "('f \<Rightarrow> FwRuleArg \<Rightarrow> bool \<times> 'f) \<Rightarrow> (nat \<Rightarrow> bool) \<Rightarrow> nat \<Rightarrow> ruleMap \<Rightarrow> ApplyResult \<Rightarrow> 'f \<Rightarrow>
    bool \<times> nat \<times> ApplyResult \<times> 'f" where
  "applyDeletes deleteRule ctxErr n [] res fw = (True, n, res, fw)"
| "applyDeletes deleteRule ctxErr n ((key, rule) # rest) res fw =
     (if ctxErr n then (False, n, res, fw)
      else case deleteRule fw rule of
             (False, fw) \<Rightarrow> applyDeletes deleteRule ctxErr (Suc n) rest (res\<lparr>Errors := Errors res + 1\<rparr>) fw
           | (True, fw) \<Rightarrow> applyDeletes deleteRule ctxErr (Suc n) rest
               (res\<lparr>Deleted := Deleted res + 1, DeletedKeys := DeletedKeys res @ [key]\<rparr>) fw)"

text \<open>A missing entry of \<open>OptsToAdd\<close> reads as the zero options, as in Go.\<close>

fun applyAdds :: "('f \<Rightarrow> FwRuleArg \<Rightarrow> FwOptArg \<Rightarrow> bool \<times> 'f) \<Rightarrow> optMap \<Rightarrow> (nat \<Rightarrow> bool) \<Rightarrow> nat \<Rightarrow> ruleMap \<Rightarrow>
    ApplyResult \<Rightarrow> 'f \<Rightarrow> ApplyResult \<times> 'f" where
  "applyAdds addRule opts ctxErr n [] res fw = (res, fw)"
| "applyAdds addRule opts ctxErr n ((key, rule) # rest) res fw =
     (if ctxErr n then (res, fw)
      else case addRule fw rule (case map_of opts key of Some opt \<Rightarrow> opt | None \<Rightarrow> zeroOpt) of
             (False, fw) \<Rightarrow> applyAdds addRule opts ctxErr (Suc n) rest (res\<lparr>Errors := Errors res + 1\<rparr>) fw
           | (True, fw) \<Rightarrow> applyAdds addRule opts ctxErr (Suc n) rest
               (res\<lparr>Added := Added res + 1, AddedKeys := AddedKeys res @ [key]\<rparr>) fw)"

definition Apply :: "('f \<Rightarrow> FwRuleArg \<Rightarrow> bool \<times> 'f) \<Rightarrow> ('f \<Rightarrow> FwRuleArg \<Rightarrow> FwOptArg \<Rightarrow> bool \<times> 'f) \<Rightarrow>
    (nat \<Rightarrow> bool) \<Rightarrow> DiffResult \<Rightarrow> 'f \<Rightarrow> ApplyResult \<times> 'f" where
  "Apply deleteRule addRule ctxErr diff fw =
     (case applyDeletes deleteRule ctxErr 0 (ToDelete diff) emptyResult fw of
        (False, n, res, fw) \<Rightarrow> (res, fw)
      | (True, n, res, fw) \<Rightarrow> applyAdds addRule (OptsToAdd diff) ctxErr n (ToAdd diff) res fw)"

subsection \<open>The cache (cache.go)\<close>

record RuleCache =
  cacheRules :: ruleMap
  cacheOpts :: optMap

definition NewRuleCache :: RuleCache where
  "NewRuleCache = \<lparr>cacheRules = [], cacheOpts = []\<rparr>"

definition CacheSet :: "RuleCache \<Rightarrow> DiffKey \<Rightarrow> FwRuleArg \<Rightarrow> FwOptArg \<Rightarrow> RuleCache" where
  "CacheSet c key rule opt =
     \<lparr>cacheRules = AList.update key rule (cacheRules c), cacheOpts = AList.update key opt (cacheOpts c)\<rparr>"

definition CacheDelete :: "RuleCache \<Rightarrow> DiffKey \<Rightarrow> RuleCache" where
  "CacheDelete c key = \<lparr>cacheRules = AList.delete key (cacheRules c), cacheOpts = AList.delete key (cacheOpts c)\<rparr>"

text \<open>What reading the state file gives; a member the file lacks is a nil map.\<close>

datatype stateFile = FileMissing | FileUnreadable | FileCorrupt | FileData "ruleMap option" "optMap option"

definition CacheLoad :: "stateFile \<Rightarrow> RuleCache \<Rightarrow> bool \<times> RuleCache" where
  "CacheLoad f c =
     (case f of
        FileMissing \<Rightarrow> (True, c)
      | FileUnreadable \<Rightarrow> (False, c)
      | FileCorrupt \<Rightarrow> (True, c)
      | FileData r opt \<Rightarrow>
          (True, \<lparr>cacheRules = (case r of Some m \<Rightarrow> m | None \<Rightarrow> []),
                  cacheOpts = (case opt of Some m \<Rightarrow> m | None \<Rightarrow> [])\<rparr>))"

definition CacheSave :: "RuleCache \<Rightarrow> stateFile" where
  "CacheSave c = FileData (Some (cacheRules c)) (Some (cacheOpts c))"

subsection \<open>One cycle (fetcher.go, watcher.go)\<close>

text \<open>The policy server's answer: no usable answer for any reason, or the rules it holds.\<close>

datatype fetchAnswer = FetchFails | FetchRules "OPARule list"

definition Fetch :: "int \<Rightarrow> fetchAnswer \<Rightarrow> CircuitBreaker \<Rightarrow> OPARule list option \<times> CircuitBreaker" where
  "Fetch now answer cb =
     (case AllowRequest now cb of
        (False, cb) \<Rightarrow> (None, cb)
      | (True, cb) \<Rightarrow>
          (case answer of
             FetchFails \<Rightarrow> (None, RecordFailure now cb)
           | FetchRules rules \<Rightarrow> (Some rules, RecordSuccess cb)))"

record Watcher =
  watcherCb :: CircuitBreaker
  watcherCache :: RuleCache
  LastError :: string
  LastSyncAt :: int

text \<open>Updating the cache for the operations that succeeded.\<close>

definition cacheApplied :: "DiffResult \<Rightarrow> ApplyResult \<Rightarrow> RuleCache \<Rightarrow> RuleCache" where
  "cacheApplied diff res c =
     fold (\<lambda>key c. case map_of (ToAdd diff) key of
                     None \<Rightarrow> c
                   | Some rule \<Rightarrow>
                       CacheSet c key rule (case map_of (OptsToAdd diff) key of Some opt \<Rightarrow> opt | None \<Rightarrow> zeroOpt))
       (AddedKeys res) (fold (\<lambda>key c. CacheDelete c key) (DeletedKeys res) c)"

definition syncOnce :: "('f \<Rightarrow> FwRuleArg \<Rightarrow> bool \<times> 'f) \<Rightarrow> ('f \<Rightarrow> FwRuleArg \<Rightarrow> FwOptArg \<Rightarrow> bool \<times> 'f) \<Rightarrow>
    (nat \<Rightarrow> bool) \<Rightarrow> int \<Rightarrow> fetchAnswer \<Rightarrow> Watcher \<Rightarrow> 'f \<Rightarrow> Watcher \<times> 'f" where
  "syncOnce deleteRule addRule ctxErr now answer w fw =
     (case Fetch now answer (watcherCb w) of
        (None, cb) \<Rightarrow> (w\<lparr>watcherCb := cb, LastError := ''fetch failed''\<rparr>, fw)
      | (Some resp, cb) \<Rightarrow>
          let (desiredRules, desiredOpts) = Normalize resp [] [];
              c = watcherCache w;
              diff = Diff (cacheRules c) desiredRules (cacheOpts c) desiredOpts;
              (res, fw) = Apply deleteRule addRule ctxErr diff fw
          in (w\<lparr>watcherCb := cb, watcherCache := cacheApplied diff res c,
                LastError := (if Errors res > 0 then ''partial apply failure'' else ''''),
                LastSyncAt := now\<rparr>, fw))"

subsection \<open>What the cache should mirror\<close>

text \<open>
  \<open>cache_ok\<close>: the two maps of a cache name the same keys, each rule is filed under its own key.
  \<open>cacheView\<close> is the cache as one map; a firewall whose contents equal it is mirrored.
\<close>

definition cache_ok :: "RuleCache \<Rightarrow> bool" where
  "cache_ok c \<longleftrightarrow> distinct (map fst (cacheRules c)) \<and> fst ` set (cacheOpts c) = fst ` set (cacheRules c) \<and>
     (\<forall>(k, r) \<in> set (cacheRules c). k = MakeDiffKey r)"

definition cacheView :: "RuleCache \<Rightarrow> DiffKey \<rightharpoonup> FwRuleArg \<times> FwOptArg" where
  "cacheView c k =
     (case map_of (cacheRules c) k of
        None \<Rightarrow> None
      | Some r \<Rightarrow> Some (r, case map_of (cacheOpts c) k of Some opt \<Rightarrow> opt | None \<Rightarrow> zeroOpt))"

text \<open>What the firewall's interface is documented to do, on the rules it holds by key.\<close>

definition rest_ok :: "('f \<Rightarrow> DiffKey \<rightharpoonup> FwRuleArg \<times> FwOptArg) \<Rightarrow> ('f \<Rightarrow> FwRuleArg \<Rightarrow> bool \<times> 'f) \<Rightarrow>
    ('f \<Rightarrow> FwRuleArg \<Rightarrow> FwOptArg \<Rightarrow> bool \<times> 'f) \<Rightarrow> bool" where
  "rest_ok fwView deleteRule addRule \<longleftrightarrow>
     (\<forall>fw r ok fw'. deleteRule fw r = (ok, fw') \<longrightarrow>
        fwView fw' = (if ok then (fwView fw)(MakeDiffKey r := None) else fwView fw)) \<and>
     (\<forall>fw r opt ok fw'. addRule fw r opt = (ok, fw') \<longrightarrow>
        fwView fw' = (if ok then (fwView fw)(MakeDiffKey r \<mapsto> (r, opt)) else fwView fw))"

section \<open>Lemmas\<close>

subsection \<open>The breaker\<close>

datatype cbEvent = CbAllow int | CbSuccess | CbFailure int

fun cbStep :: "CircuitBreaker \<Rightarrow> cbEvent \<Rightarrow> CircuitBreaker" where
  "cbStep cb (CbAllow now) = snd (AllowRequest now cb)"
| "cbStep cb CbSuccess = RecordSuccess cb"
| "cbStep cb (CbFailure now) = RecordFailure now cb"

definition cb_ok :: "CircuitBreaker \<Rightarrow> bool" where
  "cb_ok cb \<longleftrightarrow> recoveryTimeout cb = 60000000000 \<and> failureThreshold cb = 5 \<and> successThreshold cb = 2 \<and>
     0 \<le> failureCount cb \<and> failureCount cb \<le> 5 \<and> 0 \<le> successCount cb \<and> successCount cb < 2 \<and>
     (cbState cb = CircuitClosed \<longrightarrow> failureCount cb < 5 \<and> successCount cb = 0)"

lemmas cb_defs = AllowRequest_def RecordSuccess_def RecordFailure_def

lemma cbStep_ok: "cb_ok cb \<Longrightarrow> cb_ok (cbStep cb e)"
  by (cases e; cases "cbState cb") (auto simp: cb_ok_def cb_defs Let_def)

interpretation breaker: machine cbStep cb_ok
  by unfold_locales (rule cbStep_ok)

lemma NewCircuitBreaker_ok: "cb_ok NewCircuitBreaker"
  by (simp add: cb_ok_def NewCircuitBreaker_def)

lemma cb_failures:
  assumes "cb_ok cb" and "cbState cb = CircuitClosed"
  shows "cbState (run cbStep cb (map CbFailure ts)) =
           (if failureCount cb + int (length ts) < 5 then CircuitClosed else CircuitOpen)"
  using assms
proof (induction ts arbitrary: cb)
  case Nil
  then show ?case by (simp add: cb_ok_def)
next
  case (Cons t ts)
  have open_stays: "cbState (run cbStep cb' (map CbFailure ts)) = CircuitOpen" if "cbState cb' = CircuitOpen" for cb' ts
    using that by (induction ts arbitrary: cb') (auto simp: RecordFailure_def Let_def)
  show ?case
  proof (cases "failureCount cb + 1 < 5")
    case True
    then have s: "cbState (RecordFailure t cb) = CircuitClosed" "failureCount (RecordFailure t cb) = failureCount cb + 1"
      using Cons.prems by (auto simp: RecordFailure_def Let_def cb_ok_def)
    have "cb_ok (RecordFailure t cb)" using cbStep_ok [OF Cons.prems(1), of "CbFailure t"] by simp
    from Cons.IH [OF this s(1)] s show ?thesis by (auto simp: algebra_simps)
  next
    case False
    then have "cbState (RecordFailure t cb) = CircuitOpen"
      using Cons.prems by (auto simp: RecordFailure_def Let_def cb_ok_def)
    with open_stays False show ?thesis by auto
  qed
qed

subsection \<open>Keys of rules\<close>

definition rule_norm :: "FwRuleArg \<Rightarrow> bool" where
  "rule_norm r \<longleftrightarrow> CHR ''|'' \<notin> set (SrcIP r) \<and> CHR ''|'' \<notin> set (DstIP r) \<and> InPort r = '''' \<and> \<not> HwOffload r \<and>
     0 \<le> Proto r \<and> 0 \<le> SrcPortMin r \<and> 0 \<le> SrcPortMax r \<and> 0 \<le> DstPortMin r \<and> 0 \<le> DstPortMax r \<and> 0 \<le> Pref r"

lemma dash_split:
  assumes "0 \<le> a" "0 \<le> b" "0 \<le> a'" "0 \<le> b'" and "itoa a @ ''-'' @ itoa b = itoa a' @ ''-'' @ itoa b'"
  shows "a = a' \<and> b = b'"
  using delim_split [of "CHR ''-''" "itoa a" "itoa a'" "itoa b" "itoa b'"] assms
    decimal.enc_inj [of a a'] decimal.enc_inj [of b b'] by simp

lemma MakeDiffKey_join:
  "MakeDiffKey r = joinWith (CHR ''|'') [SrcIP r, DstIP r, itoa (Proto r),
     itoa (SrcPortMin r) @ ''-'' @ itoa (SrcPortMax r), itoa (DstPortMin r) @ ''-'' @ itoa (DstPortMax r), itoa (Pref r)]"
  by (simp add: MakeDiffKey_def)

lemma MakeDiffKey_inj:
  assumes "rule_norm r" and "rule_norm r'" and "MakeDiffKey r = MakeDiffKey r'"
  shows "r = r'"
proof -
  have "[SrcIP r, DstIP r, itoa (Proto r),
     itoa (SrcPortMin r) @ ''-'' @ itoa (SrcPortMax r), itoa (DstPortMin r) @ ''-'' @ itoa (DstPortMax r), itoa (Pref r)] =
    [SrcIP r', DstIP r', itoa (Proto r'),
     itoa (SrcPortMin r') @ ''-'' @ itoa (SrcPortMax r'), itoa (DstPortMin r') @ ''-'' @ itoa (DstPortMax r'), itoa (Pref r')]"
    using assms unfolding MakeDiffKey_join by (intro joinWith_inj [of _ _ "CHR ''|''"]) (auto simp: rule_norm_def)
  with dash_split [of "SrcPortMin r" "SrcPortMax r" "SrcPortMin r'" "SrcPortMax r'"]
    dash_split [of "DstPortMin r" "DstPortMax r" "DstPortMin r'" "DstPortMax r'"]
    decimal.enc_inj [of "Proto r" "Proto r'"] decimal.enc_inj [of "Pref r" "Pref r'"] assms(1,2)
  show ?thesis by (auto simp: rule_norm_def intro: FwRuleArg.equality)
qed

lemma normalizeCIDR_chars: "normalizeCIDR s = Some t \<Longrightarrow> CHR ''|'' \<notin> set t"
  by (auto simp: normalizeCIDR_def split: if_splits dest: ParseCIDR_chars)

lemma convertRule_norm: "convertRule r = Some (fr, opt) \<Longrightarrow> rule_norm fr"
  by (auto simp: convertRule_def rule_norm_def portRange_def Let_def case_prod_beta dest!: normalizeCIDR_chars
        split: option.splits if_splits)

text \<open>The normalised maps: each rule under its own key, the same keys in both.\<close>

lemma Normalize_ok:
  assumes "cache_ok \<lparr>cacheRules = rules, cacheOpts = opts\<rparr>" and "\<forall>(k, r) \<in> set rules. rule_norm r"
    and "Normalize rs rules opts = (rules', opts')"
  shows "cache_ok \<lparr>cacheRules = rules', cacheOpts = opts'\<rparr> \<and> (\<forall>(k, r) \<in> set rules'. rule_norm r)"
  using assms
proof (induction rs rules opts rule: Normalize.induct)
  case (2 r rs rules opts)
  show ?case
  proof (cases "convertRule r")
    case None
    with 2 show ?thesis by simp
  next
    case (Some p)
    obtain fr fo where p: "p = (fr, fo)" by (cases p)
    let ?k = "MakeDiffKey fr"
    have upd: "(k, x) \<in> set (AList.update ?k fr rules) \<Longrightarrow> (k, x) = (?k, fr) \<or> (k, x) \<in> set rules" for k x
      by (induction rules) (auto split: if_splits)
    have "cache_ok \<lparr>cacheRules = AList.update ?k fr rules, cacheOpts = AList.update ?k fo opts\<rparr>"
      using 2(3) upd unfolding cache_ok_def by (auto simp: distinct_update dom_update) fastforce
    moreover have "\<forall>(k, r) \<in> set (AList.update ?k fr rules). rule_norm r"
      using 2(4) upd convertRule_norm Some p by fastforce
    ultimately show ?thesis using 2(2) [OF Some p [symmetric]] 2(5) Some p by simp
  qed
qed simp

subsection \<open>Applying a difference\<close>

lemma applyDeletes_spec:
  assumes "rest_ok V del add" and "\<forall>(k, r) \<in> set ds. k = MakeDiffKey r"
    and "applyDeletes del ctx n ds res fw = (fin, n', res', fw')"
  shows "\<exists>ks. DeletedKeys res' = DeletedKeys res @ ks \<and> set ks \<subseteq> fst ` set ds \<and> AddedKeys res' = AddedKeys res \<and>
     V fw' = (\<lambda>k. if k \<in> set ks then None else V fw k) \<and> Errors res \<le> Errors res' \<and>
     (fin \<and> Errors res' = Errors res \<longrightarrow> set ks = fst ` set ds)"
  using assms(2,3)
proof (induction ds arbitrary: n res fw)
  case Nil
  then show ?case by (auto simp: fun_eq_iff)
next
  case (Cons d ds)
  obtain key rule where d: "d = (key, rule)" by (cases d)
  show ?case
  proof (cases "ctx n")
    case True
    with Cons.prems d show ?thesis by (auto simp: fun_eq_iff)
  next
    case False
    obtain ok fw1 where D: "del fw rule = (ok, fw1)" by (cases "del fw rule")
    have V1: "V fw1 = (if ok then (V fw)(key := None) else V fw)"
      using assms(1) D Cons.prems(1) d by (simp add: rest_ok_def)
    let ?r1 = "if ok then res\<lparr>Deleted := Deleted res + 1, DeletedKeys := DeletedKeys res @ [key]\<rparr>
      else res\<lparr>Errors := Errors res + 1\<rparr>"
    have "applyDeletes del ctx (Suc n) ds ?r1 fw1 = (fin, n', res', fw')"
      using Cons.prems(2) False D d by (cases ok) simp_all
    from Cons.IH [OF _ this] Cons.prems(1) obtain ks where
      ks: "DeletedKeys res' = DeletedKeys ?r1 @ ks" "set ks \<subseteq> fst ` set ds" "AddedKeys res' = AddedKeys ?r1"
        "V fw' = (\<lambda>k. if k \<in> set ks then None else V fw1 k)" "Errors ?r1 \<le> Errors res'"
        "fin \<and> Errors res' = Errors ?r1 \<longrightarrow> set ks = fst ` set ds"
      by auto
    show ?thesis
    proof (cases ok)
      case True
      with ks V1 d show ?thesis by (intro exI [of _ "key # ks"]) (auto simp: fun_eq_iff)
    next
      case False
      with ks V1 d show ?thesis by (intro exI [of _ ks]) (auto simp: fun_eq_iff)
    qed
  qed
qed

definition optOf :: "optMap \<Rightarrow> DiffKey \<Rightarrow> FwOptArg" where
  "optOf opts k = (case map_of opts k of Some opt \<Rightarrow> opt | None \<Rightarrow> zeroOpt)"

lemma applyAdds_spec:
  assumes "rest_ok V del add" and "\<forall>(k, r) \<in> set ds. k = MakeDiffKey r" and "distinct (map fst ds)"
    and "applyAdds add opts ctx n ds res fw = (res', fw')"
  shows "\<exists>ks. AddedKeys res' = AddedKeys res @ ks \<and> set ks \<subseteq> fst ` set ds \<and> DeletedKeys res' = DeletedKeys res \<and>
     V fw' = (\<lambda>k. if k \<in> set ks then map_option (\<lambda>r. (r, optOf opts k)) (map_of ds k) else V fw k) \<and>
     Errors res \<le> Errors res' \<and>
     (Errors res' = Errors res \<and> (\<forall>i. \<not> ctx i) \<longrightarrow> set ks = fst ` set ds)"
  using assms(2-4)
proof (induction ds arbitrary: n res fw)
  case Nil
  then show ?case by (auto simp: fun_eq_iff)
next
  case (Cons d ds)
  obtain key rule where d: "d = (key, rule)" by (cases d)
  show ?case
  proof (cases "ctx n")
    case True
    with Cons.prems d show ?thesis by (intro exI [of _ "[]"]) (auto simp: fun_eq_iff)
  next
    case False
    obtain ok fw1 where A: "add fw rule (optOf opts key) = (ok, fw1)" by (cases "add fw rule (optOf opts key)")
    have V1: "V fw1 = (if ok then (V fw)(key \<mapsto> (rule, optOf opts key)) else V fw)"
      using assms(1) A Cons.prems(1) d by (simp add: rest_ok_def)
    let ?r1 = "if ok then res\<lparr>Added := Added res + 1, AddedKeys := AddedKeys res @ [key]\<rparr>
      else res\<lparr>Errors := Errors res + 1\<rparr>"
    have "applyAdds add opts ctx (Suc n) ds ?r1 fw1 = (res', fw')"
      using Cons.prems(3) False A [unfolded optOf_def] d by (cases ok) simp_all
    from Cons.IH [OF _ _ this] Cons.prems(1,2) obtain ks where
      ks: "AddedKeys res' = AddedKeys ?r1 @ ks" "set ks \<subseteq> fst ` set ds" "DeletedKeys res' = DeletedKeys ?r1"
        "V fw' = (\<lambda>k. if k \<in> set ks then map_option (\<lambda>r. (r, optOf opts k)) (map_of ds k) else V fw1 k)"
        "Errors ?r1 \<le> Errors res'" "Errors res' = Errors ?r1 \<and> (\<forall>i. \<not> ctx i) \<longrightarrow> set ks = fst ` set ds"
      by auto
    have nk: "key \<notin> fst ` set ds" using Cons.prems(2) d by simp
    show ?thesis
    proof (cases ok)
      case True
      with ks V1 d nk show ?thesis by (intro exI [of _ "key # ks"]) (auto simp: fun_eq_iff)
    next
      case False
      with ks V1 d nk show ?thesis by (intro exI [of _ ks]) (auto simp: fun_eq_iff)
    qed
  qed
qed

subsection \<open>The cache after a cycle\<close>

lemma cacheView_eq: "cacheView c k = map_option (\<lambda>r. (r, optOf (cacheOpts c) k)) (map_of (cacheRules c) k)"
  by (simp add: cacheView_def optOf_def split: option.split)

lemma cacheView_set: "cacheView (CacheSet c k r opt) = (cacheView c)(k \<mapsto> (r, opt))"
  by (simp add: cacheView_eq CacheSet_def optOf_def fun_eq_iff go_map)

lemma cacheView_deletes:
  "cacheView (fold (\<lambda>key c. CacheDelete c key) ks c) = (\<lambda>k. if k \<in> set ks then None else cacheView c k)"
proof (induction ks arbitrary: c)
  case (Cons key ks)
  have "cacheView (CacheDelete c key) = (cacheView c)(key := None)"
    by (simp add: cacheView_eq CacheDelete_def optOf_def fun_eq_iff go_map)
  with Cons show ?case by (auto simp: fun_eq_iff)
qed (simp add: fun_eq_iff)

lemma cacheView_adds:
  assumes "set ks \<subseteq> fst ` set ds"
  shows "cacheView (fold (\<lambda>key c. case map_of ds key of None \<Rightarrow> c | Some rule \<Rightarrow> CacheSet c key rule (optOf opts key)) ks c)
    = (\<lambda>k. if k \<in> set ks then map_option (\<lambda>r. (r, optOf opts k)) (map_of ds k) else cacheView c k)"
  using assms
proof (induction ks arbitrary: c)
  case (Cons key ks)
  then obtain r where r: "map_of ds key = Some r" by (cases "map_of ds key") (auto simp: map_of_eq_None_iff)
  with Cons show ?case by (auto simp: fun_eq_iff cacheView_set)
qed (simp add: fun_eq_iff)

lemma cacheApplied_view:
  assumes "set (AddedKeys res) \<subseteq> fst ` set (ToAdd diff)"
  shows "cacheView (cacheApplied diff res c) =
     (\<lambda>k. if k \<in> set (AddedKeys res) then map_option (\<lambda>r. (r, optOf (OptsToAdd diff) k)) (map_of (ToAdd diff) k)
          else if k \<in> set (DeletedKeys res) then None else cacheView c k)"
  unfolding cacheApplied_def optOf_def [symmetric] cacheView_adds [OF assms] cacheView_deletes
  by (simp add: fun_eq_iff)

subsection \<open>A cycle\<close>

lemma optsFor_lookup: "map_of (optsFor rules opts) k = (if k \<in> fst ` set rules then map_of opts k else None)"
proof (induction rules)
  case Nil
  then show ?case by (simp add: optsFor_def List.map_filter_def)
next
  case (Cons p rules)
  then show ?case
    by (cases p; cases "map_of opts (fst p)") (auto simp: optsFor_def List.map_filter_def)
qed

lemma Diff_simps [simp]:
  "ToAdd (Diff cr dr co do') = filter (\<lambda>(k, _). map_of cr k = None) dr"
  "ToDelete (Diff cr dr co do') = filter (\<lambda>(k, _). map_of dr k = None) cr"
  "OptsToAdd (Diff cr dr co do') = optsFor (filter (\<lambda>(k, _). map_of cr k = None) dr) do'"
  by (simp_all add: Diff_def Let_def)

lemma Diff_optOf:
  "k \<in> fst ` set (ToAdd (Diff cr dr co do')) \<Longrightarrow> optOf (OptsToAdd (Diff cr dr co do')) k = optOf do' k"
  by (simp add: optOf_def optsFor_lookup)

lemma map_of_filter_none:
  "map_of (filter (\<lambda>(k, _). P k) m) k = (if P k then map_of m k else None)"
  by (induction m) auto

lemma Apply_spec:
  assumes "rest_ok V del add" and "\<forall>(k, r) \<in> set (ToDelete diff). k = MakeDiffKey r"
    and "\<forall>(k, r) \<in> set (ToAdd diff). k = MakeDiffKey r" and "distinct (map fst (ToAdd diff))"
    and "Apply del add ctx diff fw = (res, fw')"
  shows "set (AddedKeys res) \<subseteq> fst ` set (ToAdd diff) \<and> set (DeletedKeys res) \<subseteq> fst ` set (ToDelete diff) \<and>
     V fw' = (\<lambda>k. if k \<in> set (AddedKeys res) then map_option (\<lambda>r. (r, optOf (OptsToAdd diff) k)) (map_of (ToAdd diff) k)
          else if k \<in> set (DeletedKeys res) then None else V fw k) \<and>
     (Errors res = 0 \<and> (\<forall>i. \<not> ctx i) \<longrightarrow>
        set (AddedKeys res) = fst ` set (ToAdd diff) \<and> set (DeletedKeys res) = fst ` set (ToDelete diff))"
proof -
  obtain fin n res1 fw1 where D: "applyDeletes del ctx 0 (ToDelete diff) emptyResult fw = (fin, n, res1, fw1)"
    by (metis prod_cases4)
  from applyDeletes_spec [OF assms(1,2) D] obtain ks where
    ks: "DeletedKeys res1 = ks" "set ks \<subseteq> fst ` set (ToDelete diff)" "AddedKeys res1 = []"
      "V fw1 = (\<lambda>k. if k \<in> set ks then None else V fw k)"
      "fin \<and> Errors res1 = 0 \<longrightarrow> set ks = fst ` set (ToDelete diff)"
    by (auto simp: emptyResult_def)
  have fin: "fin" if "\<forall>i. \<not> ctx i"
  proof -
    have "fst (applyDeletes del ctx n ds r f)" for n ds r f
      using that by (induction ds arbitrary: n r f) (auto split: prod.split bool.split)
    then show ?thesis using D by (metis fst_conv)
  qed
  show ?thesis
  proof (cases fin)
    case False
    with assms(5) D ks fin show ?thesis by (auto simp: Apply_def fun_eq_iff)
  next
    case True
    with assms(5) D have A: "applyAdds add (OptsToAdd diff) ctx n (ToAdd diff) res1 fw1 = (res, fw')"
      by (simp add: Apply_def)
    from applyAdds_spec [OF assms(1,3,4) A] ks True show ?thesis by (auto simp: fun_eq_iff)
  qed
qed

text \<open>The two maps keep the same keys, and every rule its own.\<close>

lemma cache_ok_set:
  assumes "cache_ok c"
  shows "cache_ok (CacheSet c (MakeDiffKey r) r opt)"
proof -
  have "(k, x) \<in> set (AList.update (MakeDiffKey r) r rules) \<Longrightarrow> (k, x) = (MakeDiffKey r, r) \<or> (k, x) \<in> set rules" for k x rules
    by (induction rules) (auto split: if_splits)
  with assms show ?thesis
    unfolding cache_ok_def CacheSet_def by (auto simp: distinct_update dom_update) fastforce
qed

lemma delete_keys_set: "fst ` set (AList.delete key m) = fst ` set m - {key}"
  by (auto simp: AList.delete_eq)

lemma cache_ok_delete: "cache_ok c \<Longrightarrow> cache_ok (CacheDelete c key)"
  by (auto simp: cache_ok_def CacheDelete_def distinct_delete delete_keys_set) (auto simp: AList.delete_eq)

lemma cacheApplied_ok:
  assumes "cache_ok c" and "\<forall>(k, r) \<in> set (ToAdd diff). k = MakeDiffKey r"
  shows "cache_ok (cacheApplied diff res c)"
proof -
  have 1: "cache_ok (fold (\<lambda>key c. CacheDelete c key) ks c)" if "cache_ok c" for ks c
    using that by (induction ks arbitrary: c) (auto intro: cache_ok_delete)
  have 2: "cache_ok (fold (\<lambda>key c. case map_of (ToAdd diff) key of None \<Rightarrow> c
      | Some rule \<Rightarrow> CacheSet c key rule (case map_of (OptsToAdd diff) key of Some opt \<Rightarrow> opt | None \<Rightarrow> zeroOpt)) ks c)"
    if "cache_ok c" for ks c
    using that
  proof (induction ks arbitrary: c)
    case (Cons key ks)
    show ?case
    proof (cases "map_of (ToAdd diff) key")
      case None
      with Cons show ?thesis by simp
    next
      case (Some r)
      then have "key = MakeDiffKey r" using assms(2) by (auto dest: map_of_SomeD)
      with Some Cons cache_ok_set show ?thesis by simp
    qed
  qed simp
  show ?thesis unfolding cacheApplied_def by (intro 1 2 assms(1))
qed

lemma Normalize_start_ok:
  assumes "Normalize rs [] [] = (rules, opts)"
  shows "cache_ok \<lparr>cacheRules = rules, cacheOpts = opts\<rparr> \<and> (\<forall>(k, r) \<in> set rules. rule_norm r)"
  using Normalize_ok [of "[]" "[]" rs rules opts] assms by (simp add: cache_ok_def)

text \<open>One cycle that got an answer: the exact effect on the cache and on the firewall.\<close>

lemma sync_effect:
  assumes "rest_ok V del add" and "cache_ok c" and "V fw = cacheView c"
    and "Normalize rs [] [] = (dr, dopts)"
    and "Apply del add ctx (Diff (cacheRules c) dr (cacheOpts c) dopts) fw = (res, fw')"
  defines "c' \<equiv> cacheApplied (Diff (cacheRules c) dr (cacheOpts c) dopts) res c"
  shows "V fw' = cacheView c' \<and> cache_ok c' \<and>
    (Errors res = 0 \<and> (\<forall>i. \<not> ctx i) \<longrightarrow>
       cacheView c' = (\<lambda>k. case map_of dr k of None \<Rightarrow> None
          | Some r \<Rightarrow> if cacheView c k \<noteq> None then cacheView c k else Some (r, optOf dopts k)))"
proof -
  let ?d = "Diff (cacheRules c) dr (cacheOpts c) dopts"
  note N = Normalize_start_ok [OF assms(4)]
  have kd: "\<forall>(k, r) \<in> set (ToDelete ?d). k = MakeDiffKey r" "\<forall>(k, r) \<in> set (ToAdd ?d). k = MakeDiffKey r"
    using assms(2) N by (auto simp: cache_ok_def)
  have dist: "distinct (map fst (ToAdd ?d))"
    using N by (auto simp: cache_ok_def intro: distinct_map_filter)
  note A = Apply_spec [OF assms(1) kd dist assms(5)]
  have view: "cacheView c' = (\<lambda>k. if k \<in> set (AddedKeys res) then map_option (\<lambda>r. (r, optOf (OptsToAdd ?d) k)) (map_of (ToAdd ?d) k)
          else if k \<in> set (DeletedKeys res) then None else cacheView c k)"
    unfolding c'_def using A by (intro cacheApplied_view) blast
  have "V fw' = (\<lambda>k. if k \<in> set (AddedKeys res) then map_option (\<lambda>r. (r, optOf (OptsToAdd ?d) k)) (map_of (ToAdd ?d) k)
          else if k \<in> set (DeletedKeys res) then None else V fw k)" using A by blast
  then have eq: "V fw' = cacheView c'" unfolding view assms(3) .
  have ok: "cache_ok c'" unfolding c'_def using assms(2) kd(2) by (rule cacheApplied_ok)
  show ?thesis
  proof (intro conjI impI eq ok)
    assume "Errors res = 0 \<and> (\<forall>i. \<not> ctx i)"
    then have full: "set (AddedKeys res) = fst ` set (ToAdd ?d)" "set (DeletedKeys res) = fst ` set (ToDelete ?d)"
      using A by blast+
    have key: "k \<in> fst ` set m \<longleftrightarrow> map_of m k \<noteq> None" for k and m :: ruleMap
      by (simp add: map_of_eq_None_iff)
    show "cacheView c' = (\<lambda>k. case map_of dr k of None \<Rightarrow> None
          | Some r \<Rightarrow> if cacheView c k \<noteq> None then cacheView c k else Some (r, optOf dopts k))"
    proof
      fix k
      have mem: "k \<in> fst ` set (ToAdd ?d) \<longleftrightarrow> map_of (cacheRules c) k = None \<and> map_of dr k \<noteq> None"
        "k \<in> fst ` set (ToDelete ?d) \<longleftrightarrow> map_of dr k = None \<and> map_of (cacheRules c) k \<noteq> None"
        unfolding Diff_simps key map_of_filter_none by auto
      have cv: "cacheView c k = None \<longleftrightarrow> map_of (cacheRules c) k = None"
        by (simp add: cacheView_eq)
      show "cacheView c' k = (case map_of dr k of None \<Rightarrow> None
          | Some r \<Rightarrow> if cacheView c k \<noteq> None then cacheView c k else Some (r, optOf dopts k))"
        using mem cv Diff_optOf [of k "cacheRules c" dr "cacheOpts c" dopts]
        unfolding view full
        by (cases "map_of dr k"; cases "map_of (cacheRules c) k") (simp_all add: map_of_filter_none)
    qed
  qed
qed

section \<open>Properties\<close>



text \<open>
  C36. What a cycle compares is the key of a rule, and the key leaves out the action. If the policy
  names exactly the rules already cached, a cycle changes nothing, in the cache or in the
  firewall, even when the policy has turned an allow into a deny.
\<close>

theorem opa_action_flip_not_applied:
  assumes "fst (AllowRequest now (watcherCb w))" and "Normalize rs [] [] = (dr, dopts)"
    and "fst ` set dr = fst ` set (cacheRules (watcherCache w))"
    and "syncOnce del add ctx now (FetchRules rs) w fw = (w', fw')"
  shows "fw' = fw \<and> watcherCache w' = watcherCache w"
proof -
  let ?c = "watcherCache w"
  have mem: "map_of m k \<noteq> None" if "(k, v) \<in> set m'" "fst ` set m = fst ` set m'" for k v and m m' :: ruleMap
    using that by (metis fst_conv image_eqI map_of_eq_None_iff)
  have e: "filter (\<lambda>(k, _). map_of (cacheRules ?c) k = None) dr = []"
    "filter (\<lambda>(k, _). map_of dr k = None) (cacheRules ?c) = []"
    using mem [OF _ assms(3)] mem [OF _ assms(3) [symmetric]] by (auto simp: filter_empty_conv)
  obtain cb where F: "Fetch now (FetchRules rs) (watcherCb w) = (Some rs, cb)"
    using assms(1) by (cases "AllowRequest now (watcherCb w)") (simp add: Fetch_def)
  show ?thesis
    using assms(2,4) F e
    by (auto simp: syncOnce_def Apply_def emptyResult_def cacheApplied_def Let_def)
qed

text \<open>
  The key of a rule identifies it: two policy rules that convert to different firewall rules
  have different keys, so neither hides the other in the maps or in the cache.
\<close>

theorem opa_diff_key_injective:
  assumes "convertRule r = Some (fr, opt)" and "convertRule r' = Some (fr', opt')" and "MakeDiffKey fr = MakeDiffKey fr'"
  shows "fr = fr'"
  using MakeDiffKey_inj [OF convertRule_norm [OF assms(1)] convertRule_norm [OF assms(2)] assms(3)] .

text \<open>
  Port bounds are cut to 16 bits and not checked: the range 65536 to 131071, which names no
  port, passes the check of its order and becomes 0 to 65535, which is then written as no port
  filter at all. Whatever else the rule says, it matches every port.
\<close>

theorem opa_port_wraps_to_any:
  assumes "convertRule r = Some (fr, opt)" and "MinSourcePort r = 65536" and "MaxSourcePort r = 131071"
  shows "SrcPortMin fr = 0 \<and> SrcPortMax fr = 0"
  using assms
  by (auto simp: convertRule_def portRange_def u16_def Let_def case_prod_beta split: option.splits if_splits)

text \<open>
  The breaker, in every state it can reach: it turns a request away exactly when it is open
  and less than 60 seconds have passed since the last failure; and from the closed state it opens
  on the fifth failure in a row and not before.
\<close>

theorem opa_breaker_gate:
  "(\<not> fst (AllowRequest now (run cbStep NewCircuitBreaker es)) \<longleftrightarrow>
      cbState (run cbStep NewCircuitBreaker es) = CircuitOpen \<and>
      now - lastFailureTime (run cbStep NewCircuitBreaker es) < 60000000000) \<and>
   (cbState (run cbStep NewCircuitBreaker es) = CircuitClosed \<longrightarrow>
      (cbState (run cbStep NewCircuitBreaker (es @ CbSuccess # map CbFailure ts)) = CircuitOpen \<longleftrightarrow> 5 \<le> length ts))"
proof -
  define cb where "cb = run cbStep NewCircuitBreaker es"
  have ok: "cb_ok cb" unfolding cb_def by (rule breaker.run_inv [OF NewCircuitBreaker_ok])
  have "cbState (run cbStep (RecordSuccess cb) (map CbFailure ts)) = CircuitOpen \<longleftrightarrow> 5 \<le> length ts"
    if cl: "cbState cb = CircuitClosed"
  proof -
    have s: "cbState (RecordSuccess cb) = CircuitClosed" "failureCount (RecordSuccess cb) = 0"
      using cl by (simp_all add: RecordSuccess_def)
    have "cb_ok (RecordSuccess cb)" using cbStep_ok [OF ok, of CbSuccess] by simp
    from cb_failures [OF this s(1), of ts] s show ?thesis by auto
  qed
  then show ?thesis
    using ok by (auto simp: cb_def [symmetric] run_append AllowRequest_def cb_ok_def split: CircuitBreakerState.splits)
qed

section \<open>Instances\<close>

text \<open>A firewall that is the map of its rules, a policy of one rule, and a fresh watcher.\<close>

definition exDel :: "(DiffKey \<rightharpoonup> FwRuleArg \<times> FwOptArg) \<Rightarrow> FwRuleArg \<Rightarrow> bool \<times> (DiffKey \<rightharpoonup> FwRuleArg \<times> FwOptArg)" where
  "exDel fw r = (True, fw(MakeDiffKey r := None))"

definition exAdd :: "(DiffKey \<rightharpoonup> FwRuleArg \<times> FwOptArg) \<Rightarrow> FwRuleArg \<Rightarrow> FwOptArg \<Rightarrow>
    bool \<times> (DiffKey \<rightharpoonup> FwRuleArg \<times> FwOptArg)" where
  "exAdd fw r opt = (True, fw(MakeDiffKey r \<mapsto> (r, opt)))"

definition exRule :: "string \<Rightarrow> OPARule" where
  "exRule act = \<lparr>SourceIP = ''10.0.0.0/8'', DestinationIP = '''', Protocol = 6, MinSourcePort = 65536,
     MaxSourcePort = 131071, MinDestinationPort = 80, MaxDestinationPort = 80, Action = act, Preference = 10\<rparr>"

definition exWatcher :: Watcher where
  "exWatcher = \<lparr>watcherCb = NewCircuitBreaker, watcherCache = NewRuleCache, LastError = '''', LastSyncAt = 0\<rparr>"

definition exSync :: "fetchAnswer \<Rightarrow> Watcher \<times> (DiffKey \<rightharpoonup> FwRuleArg \<times> FwOptArg)" where
  "exSync answer = syncOnce exDel exAdd (\<lambda>_. False) 0 answer exWatcher Map.empty"

lemma ex_rest_ok: "rest_ok (\<lambda>fw. fw) exDel exAdd"
  by (auto simp: rest_ok_def exDel_def exAdd_def)

lemma ex_start: "cache_ok (watcherCache exWatcher)" "Map.empty = cacheView (watcherCache exWatcher)"
  by (simp_all add: cache_ok_def cacheView_def exWatcher_def NewRuleCache_def fun_eq_iff)

definition exAllow :: "Watcher \<times> (DiffKey \<rightharpoonup> FwRuleArg \<times> FwOptArg)" where
  "exAllow = exSync (FetchRules [exRule ''allow''])"

lemma exAllow_sync:
  "syncOnce exDel exAdd (\<lambda>_. False) 0 (FetchRules [exRule ''allow'']) exWatcher Map.empty = (fst exAllow, snd exAllow)"
  by (simp add: exAllow_def exSync_def)



definition exDeny :: "Watcher \<times> (DiffKey \<rightharpoonup> FwRuleArg \<times> FwOptArg)" where
  "exDeny = syncOnce exDel exAdd (\<lambda>_. False) 1 (FetchRules [exRule ''deny'']) (fst exAllow) (snd exAllow)"

theorem opa_action_flip_not_applied_witness:
  "snd exDeny = snd exAllow \<and> watcherCache (fst exDeny) = watcherCache (fst exAllow)"
proof (rule opa_action_flip_not_applied)
  show "fst (AllowRequest 1 (watcherCb (fst exAllow)))" by code_simp
  show "Normalize [exRule ''deny''] [] [] = (fst (Normalize [exRule ''deny''] [] []), snd (Normalize [exRule ''deny''] [] []))"
    by simp
  have "map fst (fst (Normalize [exRule ''deny''] [] [])) = map fst (cacheRules (watcherCache (fst exAllow)))"
    by code_simp
  then show "fst ` set (fst (Normalize [exRule ''deny''] [] [])) = fst ` set (cacheRules (watcherCache (fst exAllow)))"
    by (metis image_set)
  show "syncOnce exDel exAdd (\<lambda>_. False) 1 (FetchRules [exRule ''deny'']) (fst exAllow) (snd exAllow) = (fst exDeny, snd exDeny)"
    by (simp add: exDeny_def)
qed

theorem opa_diff_key_injective_witness:
  "fst (the (convertRule (exRule ''allow''))) = fst (the (convertRule (exRule ''deny'')))"
proof (rule opa_diff_key_injective [of "exRule ''allow''" _ "snd (the (convertRule (exRule ''allow'')))"
      "exRule ''deny''" _ "snd (the (convertRule (exRule ''deny'')))"])
  show "convertRule (exRule ''allow'') =
      Some (fst (the (convertRule (exRule ''allow''))), snd (the (convertRule (exRule ''allow''))))" by code_simp
  show "convertRule (exRule ''deny'') =
      Some (fst (the (convertRule (exRule ''deny''))), snd (the (convertRule (exRule ''deny''))))" by code_simp
  show "MakeDiffKey (fst (the (convertRule (exRule ''allow'')))) =
      MakeDiffKey (fst (the (convertRule (exRule ''deny''))))" by code_simp
qed

theorem opa_port_wraps_to_any_witness:
  "SrcPortMin (fst (the (convertRule (exRule ''allow'')))) = 0 \<and> SrcPortMax (fst (the (convertRule (exRule ''allow'')))) = 0"
proof (rule opa_port_wraps_to_any [of "exRule ''allow''" _ "snd (the (convertRule (exRule ''allow'')))"])
  show "convertRule (exRule ''allow'') =
      Some (fst (the (convertRule (exRule ''allow''))), snd (the (convertRule (exRule ''allow''))))" by code_simp
qed (simp_all add: exRule_def)

theorem opa_breaker_gate_witness:
  "cbState (run cbStep NewCircuitBreaker ([] @ CbSuccess # map CbFailure [1, 2, 3, 4, 5])) = CircuitOpen"
  using opa_breaker_gate [of 0 "[]" "[1, 2, 3, 4, 5]"] by (simp add: NewCircuitBreaker_def)

end
