(* ===== verification/Bfd.thy ===== *)
theory Bfd
  imports Go_Net
begin

text \<open>
  The BFD session of src/pkg/proto/bfd.go, which decides which gateway of a pair is the master:
  the 24-byte control packet, the session state machine run on a received packet, the timeout,
  and the notification that elects. Packets are byte strings, fields are their unsigned values.
  The clock is in microseconds. The notifier and the sockets are outside the model: a step
  returns what was notified and what was sent.
\<close>

section \<open>Definitions\<close>

subsection \<open>Control packets\<close>

datatype SessionState = BFDAdminDown | BFDDown | BFDInit | BFDUp

definition state_code :: "SessionState \<Rightarrow> int" where
  "state_code s = (case s of BFDAdminDown \<Rightarrow> 0 | BFDDown \<Rightarrow> 1 | BFDInit \<Rightarrow> 2 | BFDUp \<Rightarrow> 3)"

text \<open>\<open>SessionState(x \& 0x3)\<close>.\<close>

definition code_state :: "int \<Rightarrow> SessionState" where
  "code_state x = (let c = x mod 4 in if c = 0 then BFDAdminDown else if c = 1 then BFDDown
     else if c = 2 then BFDInit else BFDUp)"

record WireRaw =
  Version :: int
  Length :: int
  State :: SessionState
  Multi :: int
  Disc :: int
  RDisc :: int
  DesMinTxInt :: int
  ReqMinRxInt :: int
  ReqMinEchoInt :: int

text \<open>\<open>binary.BigEndian\<close>.\<close>

definition PutUint32 :: "int \<Rightarrow> int list" where
  "PutUint32 v = [v div 16777216 mod 256, v div 65536 mod 256, v div 256 mod 256, v mod 256]"

definition Uint32 :: "int list \<Rightarrow> nat \<Rightarrow> int" where
  "Uint32 buf i = buf ! i * 16777216 + buf ! (i + 1) * 65536 + buf ! (i + 2) * 256 + buf ! (i + 3)"

text \<open>\<open>sz\<close> is the length the socket reported; a short packet decodes to nil.\<close>

definition decodeCtrlPacket :: "int list \<Rightarrow> int \<Rightarrow> WireRaw option" where
  "decodeCtrlPacket buf sz =
     (if sz < 24 then None
      else Some \<lparr>Version = buf ! 0 div 32 mod 8, Length = buf ! 3, State = code_state (buf ! 1 div 64),
                 Multi = buf ! 2, Disc = Uint32 buf 4, RDisc = Uint32 buf 8, DesMinTxInt = Uint32 buf 12,
                 ReqMinRxInt = Uint32 buf 16, ReqMinEchoInt = Uint32 buf 20\<rparr>)"

subsection \<open>The session\<close>

datatype CiState = CINone | CIMaster | CIBackup | CIUnDef

record bfdSession =
  RemoteName :: string
  Instance :: string
  sessState :: SessionState
  sessCi :: CiState
  MyMulti :: int
  RemMulti :: int
  MyDisc :: int
  RemDisc :: int
  sessDesMinTx :: int
  RemDesMinTxInt :: int
  sessReqMinRx :: int
  TimeOut :: int
  sessReqMinEcho :: int
  LastRxTS :: int

definition encodeCtrlPacket :: "bfdSession \<Rightarrow> int list" where
  "encodeCtrlPacket b =
     [32, state_code (sessState b) * 64 mod 256, MyMulti b, 24] @
     PutUint32 (MyDisc b) @ PutUint32 (RemDisc b) @ PutUint32 (sessDesMinTx b) @
     PutUint32 (sessReqMinRx b) @ PutUint32 (sessReqMinEcho b)"

text \<open>
  \<open>sendStateNotification\<close>: the session with its new election state, and the notification sent.
\<close>

definition sendStateNotification :: "bfdSession \<Rightarrow> SessionState \<Rightarrow> SessionState \<Rightarrow>
    bfdSession \<times> CiState option" where
  "sendStateNotification b newState oldState =
     (if newState = oldState \<or> RemDisc b = 0 then (b, None)
      else if newState = BFDUp then
        (let ci = (if MyDisc b > RemDisc b then CIMaster else CIBackup) in (b\<lparr>sessCi := ci\<rparr>, Some ci))
      else if newState = BFDDown \<and> oldState = BFDUp then (b\<lparr>sessCi := CIMaster\<rparr>, Some CIMaster)
      else if RemDisc b = MyDisc b then (b\<lparr>sessCi := CIUnDef\<rparr>, Some CIUnDef)
      else (b, None))"

definition RunSessionSM :: "int \<Rightarrow> WireRaw \<Rightarrow> bfdSession \<Rightarrow> bfdSession \<times> CiState option" where
  "RunSessionSM now raw b =
     (let oldState = sessState b;
          b = b\<lparr>RemMulti := Multi raw, RemDisc := Disc raw, RemDesMinTxInt := DesMinTxInt raw,
                TimeOut := u32 (Multi raw * (if DesMinTxInt raw > sessReqMinRx b then DesMinTxInt raw else sessReqMinRx b)),
                LastRxTS := now\<rparr>;
          (b, oldState) =
            (case State raw of
               BFDDown \<Rightarrow> ((if sessState b = BFDDown then b\<lparr>sessState := BFDInit\<rparr> else b), oldState)
             | BFDInit \<Rightarrow> ((if sessState b \<noteq> BFDUp then b\<lparr>sessState := BFDUp\<rparr> else b), oldState)
             | BFDAdminDown \<Rightarrow> (b\<lparr>sessState := BFDInit\<rparr>, oldState)
             | BFDUp \<Rightarrow> (b\<lparr>sessState := BFDUp\<rparr>,
                         if sessCi b = CIMaster \<and> MyDisc b \<le> RemDisc b then BFDDown else oldState))
      in sendStateNotification b (sessState b) oldState)"

definition checkSessTimeout :: "int \<Rightarrow> bfdSession \<Rightarrow> bfdSession \<times> CiState option" where
  "checkSessTimeout now b =
     (let oldState = sessState b;
          b = (if sessState b = BFDUp \<and> now - LastRxTS b > TimeOut b
               then b\<lparr>sessState := BFDDown, MyDisc := u32 (RemDisc b + 1)\<rparr> else b)
      in sendStateNotification b (sessState b) oldState)"

subsection \<open>Configuration and the listener\<close>

datatype bfdError = BfdDiffers | BfdExists | BfdMalformed | BfdNoSession | BfdAddress | BfdSource | BfdNoDisc | BfdDial

record ConfigArgs =
  argGated :: bool
  argRemoteIP :: string
  argSourceIP :: string
  argPort :: int
  argInterval :: int
  argMulti :: int
  argInstance :: string

text \<open>
  What a session needs from its host: the values of addresses (\<open>net.ParseIP\<close>), the unspecified
  address, the address of the interface that reaches a peer (\<open>getMyDisc\<close>, which lists the host's
  interfaces), the 32-bit number of an address (\<open>tk.IPtonl\<close>) and whether a socket can be dialled.
\<close>

record 'ip bfdHost =
  parseIP :: "string \<Rightarrow> 'ip option"
  isUnspecified :: "'ip \<Rightarrow> bool"
  getMyDisc :: "'ip \<Rightarrow> 'ip option"
  IPtonl :: "'ip \<Rightarrow> int"
  dial :: "string \<Rightarrow> bool"

text \<open>
  An entry of \<open>BFDSessMap\<close>: the session, its own address, and whether its start gate is still
  closed (\<open>gated\<close>); a session without a gate starts at once.
\<close>

record 'ip bfdEntry =
  entSess :: bfdSession
  entIP :: 'ip
  gated :: bool

definition bfdActive :: "'ip bfdEntry \<Rightarrow> bool" where
  "bfdActive e = (\<not> gated e)"

definition remoteName :: "string \<Rightarrow> int \<Rightarrow> string" where
  "remoteName ip port = ip @ '':'' @ itoa port"

definition bfdInitialize :: "'ip bfdHost \<Rightarrow> ConfigArgs \<Rightarrow> bfdError + 'ip bfdEntry" where
  "bfdInitialize h args =
     (case parseIP h (argRemoteIP args) of
        None \<Rightarrow> Inl BfdAddress
      | Some ip \<Rightarrow>
          (case parseIP h (argSourceIP args) of
             None \<Rightarrow> Inl BfdSource
           | Some src \<Rightarrow>
               (case (if isUnspecified h src then getMyDisc h ip else Some src) of
                  None \<Rightarrow> Inl BfdNoDisc
                | Some myIP \<Rightarrow>
                    if \<not> dial h (remoteName (argRemoteIP args) (argPort args)) then Inl BfdDial
                    else Inr \<lparr>entSess = \<lparr>RemoteName = remoteName (argRemoteIP args) (argPort args),
                                Instance = argInstance args, sessState = BFDDown, sessCi = CINone,
                                MyMulti = argMulti args, RemMulti = 0, MyDisc = IPtonl h myIP, RemDisc = 0,
                                sessDesMinTx = argInterval args, RemDesMinTxInt = 0, sessReqMinRx = argInterval args,
                                TimeOut = 0, sessReqMinEcho = argInterval args, LastRxTS = 0\<rparr>,
                              entIP = myIP, gated = argGated args\<rparr>)))"

definition sameEndpoint :: "'ip bfdHost \<Rightarrow> 'ip bfdEntry \<Rightarrow> ConfigArgs \<Rightarrow> bool" where
  "sameEndpoint h e args =
     (case parseIP h (argSourceIP args) of
        None \<Rightarrow> False
      | Some src \<Rightarrow> (isUnspecified h src \<or> entIP e = src) \<and>
          RemoteName (entSess e) = remoteName (argRemoteIP args) (argPort args) \<and>
          Instance (entSess e) = argInstance args)"

definition BFDAddRemote :: "'ip bfdHost \<Rightarrow> ConfigArgs \<Rightarrow> (string \<rightharpoonup> 'ip bfdEntry) \<Rightarrow>
    bfdError option \<times> (string \<rightharpoonup> 'ip bfdEntry)" where
  "BFDAddRemote h args m =
     (case m (argRemoteIP args) of
        Some e \<Rightarrow>
          if \<not> sameEndpoint h e args then (Some BfdDiffers, m)
          else
            let s = entSess e;
                newInt = (argInterval args \<noteq> 0 \<and> sessDesMinTx s \<noteq> argInterval args);
                newMul = (argMulti args \<noteq> 0 \<and> MyMulti s \<noteq> argMulti args)
            in if \<not> newInt \<and> \<not> newMul then (None, m)
               else if Instance s = argInstance args then
                 let s = (if newInt then s\<lparr>sessDesMinTx := argInterval args, sessReqMinRx := argInterval args,
                                           sessReqMinEcho := argInterval args\<rparr> else s);
                     s = (if newMul then s\<lparr>MyMulti := argMulti args\<rparr> else s);
                     s = s\<lparr>sessState := BFDDown\<rparr>
                 in (None, m(argRemoteIP args \<mapsto> e\<lparr>entSess := s\<rparr>))
               else (Some BfdExists, m)
      | None \<Rightarrow>
          if argInterval args < 100000 \<or> argMulti args = 0 then (Some BfdMalformed, m)
          else (case bfdInitialize h args of
                  Inl err \<Rightarrow> (Some err, m)
                | Inr e \<Rightarrow> (None, m(argRemoteIP args \<mapsto> e))))"

text \<open>\<open>destruct\<close> returns the last packet, which announces the administrative shutdown to a live peer.\<close>

definition bfdDestruct :: "'ip bfdEntry \<Rightarrow> int list option" where
  "bfdDestruct e =
     (let s = (entSess e)\<lparr>sessState := BFDAdminDown\<rparr>
      in if bfdActive e then Some (encodeCtrlPacket s) else None)"

definition BFDDeleteRemote :: "string \<Rightarrow> (string \<rightharpoonup> 'ip bfdEntry) \<Rightarrow>
    bfdError option \<times> int list option \<times> (string \<rightharpoonup> 'ip bfdEntry)" where
  "BFDDeleteRemote ip m =
     (case m ip of None \<Rightarrow> (Some BfdNoSession, None, m) | Some e \<Rightarrow> (None, bfdDestruct e, m(ip := None)))"

text \<open>
  \<open>processBFD\<close> on a datagram of \<open>n\<close> bytes from the address \<open>rem\<close> (as text). A panic of the
  listener is \<open>None\<close>: the state machine reads the fields of the decoded packet without a check
  for nil. Otherwise the table and the notification of the session that ran.
\<close>

definition processBFD :: "int \<Rightarrow> int list \<Rightarrow> int \<Rightarrow> string \<Rightarrow> (string \<rightharpoonup> 'ip bfdEntry) \<Rightarrow>
    ((string \<rightharpoonup> 'ip bfdEntry) \<times> CiState option) option" where
  "processBFD now buf n rem m =
     (let raw = decodeCtrlPacket buf n
      in case m rem of
           None \<Rightarrow> Some (m, None)
         | Some e \<Rightarrow>
             if \<not> bfdActive e then Some (m, None)
             else (case raw of
                     None \<Rightarrow> None
                   | Some raw \<Rightarrow>
                       (case RunSessionSM now raw (entSess e) of
                          (s, ntf) \<Rightarrow> Some (m(rem \<mapsto> e\<lparr>entSess := s\<rparr>), ntf))))"

text \<open>
  One round of \<open>bfdSessionTicker\<close>, which an active session runs: the receive tick checks the
  timeout, the transmit tick sends a packet.
\<close>

datatype bfdTick = RxTick | TxTick

definition bfdSessionTick :: "int \<Rightarrow> bfdTick \<Rightarrow> bfdSession \<Rightarrow> bfdSession \<times> CiState option \<times> int list option" where
  "bfdSessionTick now tk s =
     (case tk of
        RxTick \<Rightarrow> (case checkSessTimeout now s of (s, ntf) \<Rightarrow> (s, ntf, None))
      | TxTick \<Rightarrow> (s, None, Some (encodeCtrlPacket s)))"

definition sess_ok :: "bfdSession \<Rightarrow> bool" where
  "sess_ok b \<longleftrightarrow> 0 \<le> MyMulti b \<and> MyMulti b < 256 \<and> 0 \<le> MyDisc b \<and> MyDisc b < 4294967296 \<and>
     0 \<le> RemDisc b \<and> RemDisc b < 4294967296 \<and> 0 \<le> sessDesMinTx b \<and> sessDesMinTx b < 4294967296 \<and>
     0 \<le> sessReqMinRx b \<and> sessReqMinRx b < 4294967296 \<and> 0 \<le> sessReqMinEcho b \<and> sessReqMinEcho b < 4294967296"

text \<open>The packet a session sends, as the receiver reads it.\<close>

definition wireOf :: "bfdSession \<Rightarrow> WireRaw" where
  "wireOf b = \<lparr>Version = 1, Length = 24, State = sessState b, Multi = MyMulti b, Disc = MyDisc b,
     RDisc = RemDisc b, DesMinTxInt = sessDesMinTx b, ReqMinRxInt = sessReqMinRx b, ReqMinEchoInt = sessReqMinEcho b\<rparr>"

text \<open>One packet from \<open>a\<close> received by \<open>b\<close>, through the bytes on the wire.\<close>

definition recvFrom :: "int \<Rightarrow> string \<Rightarrow> bfdSession \<Rightarrow> 'ip bfdEntry \<Rightarrow> 'ip bfdEntry option" where
  "recvFrom now rem a e = Option.bind (processBFD now (encodeCtrlPacket a) 24 rem [rem \<mapsto> e]) (\<lambda>(m, _). m rem)"

section \<open>Lemmas\<close>

lemma Uint32_Put:
  fixes v :: int
  assumes "0 \<le> v" and "v < 4294967296"
  shows "(v div 16777216 mod 256) * 16777216 + (v div 65536 mod 256) * 65536 + (v div 256 mod 256) * 256 + v mod 256 = v"
proof -
  define q1 q2 q3 r0 r1 r2 where q: "q1 = v div 256" "q2 = v div 65536" "q3 = v div 16777216"
    and r: "r0 = v mod 256" "r1 = q1 mod 256" "r2 = q2 mod 256"
  have d: "q2 = q1 div 256" "q3 = q2 div 256"
    using zdiv_zmult2_eq [of 256 v 256] zdiv_zmult2_eq [of 256 v 65536] by (simp_all add: q)
  have e: "v = q1 * 256 + r0" "q1 = q2 * 256 + r1" "q2 = q3 * 256 + r2"
    by (simp_all only: d r q(1) div_mult_mod_eq)
  have "0 \<le> q3" using assms by (simp add: q(3) pos_imp_zdiv_nonneg_iff)
  moreover have "q3 < 256" using zdiv_mono1 [of v 4294967295 16777216] assms by (simp add: q(3))
  ultimately have "0 \<le> q3" "q3 < 256" by simp_all
  then have "q3 mod 256 = q3" by simp
  then have "q3 mod 256 * 16777216 + r2 * 65536 + r1 * 256 + r0 = v" using e by simp
  then show ?thesis by (simp only: q r)
qed

lemma code_state_code [simp]: "code_state (state_code s * 64 mod 256 div 64) = s"
  by (cases s) (simp_all add: state_code_def code_state_def)

lemma PutUint32_length [simp]: "length (PutUint32 v) = 4"
  by (simp add: PutUint32_def)

lemma encode_length [simp]: "length (encodeCtrlPacket b) = 24"
  by (simp add: encodeCtrlPacket_def)

lemma Uint32_at:
  assumes "0 \<le> v" and "v < 4294967296" and "length xs = i"
  shows "Uint32 (xs @ PutUint32 v @ ys) i = v"
proof -
  have n: "(xs @ [a, b, c, d] @ ys) ! i = a" "(xs @ [a, b, c, d] @ ys) ! (i + 1) = b"
    "(xs @ [a, b, c, d] @ ys) ! (i + 2) = c" "(xs @ [a, b, c, d] @ ys) ! (i + 3) = d" for a b c d
    using assms(3) by (simp_all add: nth_append)
  show ?thesis unfolding Uint32_def PutUint32_def n by (rule Uint32_Put [OF assms(1,2)])
qed

lemma decode_encode:
  assumes "sess_ok b"
  shows "decodeCtrlPacket (encodeCtrlPacket b) 24 = Some (wireOf b)"
proof -
  note at = Uint32_at and r = assms [unfolded sess_ok_def]
  let ?h = "[32, state_code (sessState b) * 64 mod 256, MyMulti b, 24]"
  have "Uint32 (encodeCtrlPacket b) 4 = MyDisc b"
    using at [of "MyDisc b" ?h 4] r by (simp add: encodeCtrlPacket_def)
  moreover have "Uint32 (encodeCtrlPacket b) 8 = RemDisc b"
    using at [of "RemDisc b" "?h @ PutUint32 (MyDisc b)" 8] r by (simp add: encodeCtrlPacket_def)
  moreover have "Uint32 (encodeCtrlPacket b) 12 = sessDesMinTx b"
    using at [of "sessDesMinTx b" "?h @ PutUint32 (MyDisc b) @ PutUint32 (RemDisc b)" 12] r
    by (simp add: encodeCtrlPacket_def)
  moreover have "Uint32 (encodeCtrlPacket b) 16 = sessReqMinRx b"
    using at [of "sessReqMinRx b" "?h @ PutUint32 (MyDisc b) @ PutUint32 (RemDisc b) @ PutUint32 (sessDesMinTx b)" 16] r
    by (simp add: encodeCtrlPacket_def)
  moreover have "Uint32 (encodeCtrlPacket b) 20 = sessReqMinEcho b"
    using at [of "sessReqMinEcho b" "?h @ PutUint32 (MyDisc b) @ PutUint32 (RemDisc b) @ PutUint32 (sessDesMinTx b)
        @ PutUint32 (sessReqMinRx b)" 20 "[]"] r
    by (simp add: encodeCtrlPacket_def)
  ultimately show ?thesis
    by (simp add: decodeCtrlPacket_def wireOf_def) (simp add: encodeCtrlPacket_def)
qed

lemma processBFD_packet:
  assumes "sess_ok a" and "m rem = Some e" and "\<not> gated e"
  shows "processBFD now (encodeCtrlPacket a) 24 rem m =
     Some (m(rem \<mapsto> e\<lparr>entSess := fst (RunSessionSM now (wireOf a) (entSess e))\<rparr>), snd (RunSessionSM now (wireOf a) (entSess e)))"
  using assms by (simp add: processBFD_def decode_encode bfdActive_def split: prod.split)

lemma recvFrom_eq:
  "sess_ok a \<Longrightarrow> \<not> gated e \<Longrightarrow> recvFrom now rem a e = Some (e\<lparr>entSess := fst (RunSessionSM now (wireOf a) (entSess e))\<rparr>)"
  by (simp add: recvFrom_def processBFD_packet)

lemmas sm_defs = RunSessionSM_def sendStateNotification_def Let_def

section \<open>Properties\<close>


text \<open>
  A master that hears an up packet from a peer whose discriminator is not smaller steps down:
  it notifies the backup state and keeps its session up.
\<close>

theorem bfd_master_steps_down:
  assumes "sess_ok a" and "sessState a = BFDUp" and "MyDisc a \<noteq> 0" and "m rem = Some e" and "\<not> gated e"
    and "sessState (entSess e) = BFDUp" and "sessCi (entSess e) = CIMaster" and "MyDisc (entSess e) \<le> MyDisc a"
  shows "\<exists>e'. processBFD now (encodeCtrlPacket a) 24 rem m = Some (m(rem \<mapsto> e'), Some CIBackup) \<and>
           sessState (entSess e') = BFDUp \<and> sessCi (entSess e') = CIBackup"
  using assms processBFD_packet [of a m rem e now] by (auto simp: sm_defs wireOf_def)


text \<open>
  A datagram shorter than a control packet from a known, active peer stops the listener:
  decoding returns nil and the state machine reads through it. Nothing else does.
\<close>

theorem bfd_short_packet_panics:
  "processBFD now buf n rem m = None \<longleftrightarrow> n < 24 \<and> (\<exists>e. m rem = Some e \<and> bfdActive e)"
  by (auto simp: processBFD_def decodeCtrlPacket_def Let_def split: option.splits prod.splits)

text \<open>
  The product of the detection time is taken in 32 bits: a peer that announces the multiplier
  255 and an interval of 16843010 microseconds (some 17 seconds) is given a detection time of 254
  microseconds instead of more than an hour.
\<close>

theorem bfd_timeout_wraps:
  assumes "State raw = BFDUp" and "Multi raw = 255" and "DesMinTxInt raw = 16843010" and "sessReqMinRx b \<le> 16843010"
  shows "TimeOut (fst (RunSessionSM now raw b)) = 254"
  using assms by (auto simp: sm_defs u32_def split: SessionState.splits)

text \<open>
  The floor of 100000 microseconds on the transmit interval holds for a session that is
  created and not for one that is changed: an update of a known peer takes any interval.
\<close>

theorem bfd_interval_floor_only_on_create:
  assumes "0 < argInterval args" and "argInterval args < 100000"
  shows "(m (argRemoteIP args) = None \<longrightarrow> BFDAddRemote h args m = (Some BfdMalformed, m)) \<and>
         (\<forall>e. m (argRemoteIP args) = Some e \<and> sameEndpoint h e args \<longrightarrow>
            (\<exists>m' e'. BFDAddRemote h args m = (None, m') \<and> m' (argRemoteIP args) = Some e' \<and>
                sessDesMinTx (entSess e') = argInterval args))"
  using assms by (auto simp: BFDAddRemote_def sameEndpoint_def Let_def split: option.splits)

section \<open>Instances\<close>

definition exSess :: "int \<Rightarrow> SessionState \<Rightarrow> CiState \<Rightarrow> bfdSession" where
  "exSess disc st ci = \<lparr>RemoteName = ''10.0.0.2:3784'', Instance = ''default'', sessState = st, sessCi = ci, MyMulti = 3,
     RemMulti = 0, MyDisc = disc, RemDisc = 0, sessDesMinTx = 200000, RemDesMinTxInt = 0, sessReqMinRx = 200000,
     TimeOut = 0, sessReqMinEcho = 200000, LastRxTS = 0\<rparr>"

definition exEntry :: "int \<Rightarrow> SessionState \<Rightarrow> CiState \<Rightarrow> string bfdEntry" where
  "exEntry disc st ci = \<lparr>entSess = exSess disc st ci, entIP = ''10.0.0.1'', gated = False\<rparr>"

lemmas ex_defs = exSess_def exEntry_def

lemma exSess_ok: "sess_ok (exSess 7 st ci)" "sess_ok (exSess 5 st ci)"
  "sess_ok (entSess (exEntry 7 st ci))" "sess_ok (entSess (exEntry 5 st ci))"
  by (simp_all add: sess_ok_def ex_defs)


theorem bfd_master_steps_down_witness:
  "\<exists>e'. processBFD 9 (encodeCtrlPacket (exSess 7 BFDUp CIBackup)) 24 ''p'' [''p'' \<mapsto> exEntry 5 BFDUp CIMaster] =
       Some ([''p'' \<mapsto> exEntry 5 BFDUp CIMaster, ''p'' \<mapsto> e'], Some CIBackup) \<and>
     sessState (entSess e') = BFDUp \<and> sessCi (entSess e') = CIBackup"
  by (rule bfd_master_steps_down [OF exSess_ok(1), where e = "exEntry 5 BFDUp CIMaster"]) (simp_all add: ex_defs)


theorem bfd_timeout_wraps_witness:
  "TimeOut (fst (RunSessionSM 0 ((wireOf (exSess 7 BFDUp CINone))\<lparr>Multi := 255, DesMinTxInt := 16843010\<rparr>) (exSess 5 BFDUp CINone))) = 254"
  by (rule bfd_timeout_wraps) (simp_all add: wireOf_def exSess_def)

definition exArgs :: ConfigArgs where
  "exArgs = \<lparr>argGated = False, argRemoteIP = ''10.0.0.2'', argSourceIP = ''10.0.0.1'', argPort = 3784, argInterval = 1, argMulti = 0,
     argInstance = ''default''\<rparr>"

definition exHost :: "string bfdHost" where
  "exHost = \<lparr>parseIP = Some, isUnspecified = (\<lambda>_. False), getMyDisc = Some, IPtonl = (\<lambda>_. 7), dial = (\<lambda>_. True)\<rparr>"

theorem bfd_interval_floor_only_on_create_witness:
  "\<exists>m' e'. BFDAddRemote exHost exArgs [''10.0.0.2'' \<mapsto> exEntry 7 BFDUp CINone] = (None, m') \<and>
     m' ''10.0.0.2'' = Some e' \<and> sessDesMinTx (entSess e') = 1"
proof -
  have "sameEndpoint exHost (exEntry 7 BFDUp CINone) exArgs" by code_simp
  with bfd_interval_floor_only_on_create [of exArgs "[''10.0.0.2'' \<mapsto> exEntry 7 BFDUp CINone]" exHost]
  show ?thesis by (simp add: exArgs_def)
qed

end
