(* ===== verification/Resv_Ledger.thy ===== *)
theory Resv_Ledger
  imports Rate_Store "HOL-Library.Product_Lexorder" "HOL-Library.List_Lexorder" "HOL-Library.Char_ord"
begin

text \<open>
  The reservation read-back of src/pkg/loxinet/ai_reservation_ledger.go: which quota buckets a
  service's requests hold claims on. Each service remembers at most \<open>aiResvBucketsMax\<close> buckets;
  the read-back asks the store what each holds, forgets the evicted ones and lists the largest
  claims first. The theory shows that the memory stays within its bound and that an untruncated
  read-back is complete and exact.
\<close>

section \<open>Definitions\<close>

text \<open>One token-quota bucket a request is accountable to (ai_gateway_dp.go).\<close>

record quotaBucket =
  bucketKey :: string
  bucketTpm :: int
  bucketBurstPct :: int
  bucketKind :: string

definition aiResvBucketsMax :: int where "aiResvBucketsMax = 4096"
definition FcResvHeldMax :: nat where "FcResvHeldMax = 64"

record aiResvService =
  buckets :: "(string \<times> string) list"
  bucketsN :: int
  missed :: bool

definition emptyResvService :: aiResvService where
  "emptyResvService = \<lparr>buckets = [], bucketsN = 0, missed = False\<rparr>"

type_synonym aiResvLedger = "string \<rightharpoonup> aiResvService"

definition noteReservedBucket :: "aiResvLedger \<Rightarrow> string \<Rightarrow> quotaBucket \<Rightarrow> aiResvLedger" where
  "noteReservedBucket ledger svcIdent b =
     (if svcIdent = '''' \<or> bucketKey b = '''' then ledger
      else let s = (case ledger svcIdent of Some s \<Rightarrow> s | None \<Rightarrow> emptyResvService)
           in if map_of (buckets s) (bucketKey b) \<noteq> None then ledger(svcIdent \<mapsto> s)
              else if bucketsN s \<ge> aiResvBucketsMax then ledger(svcIdent \<mapsto> s\<lparr>missed := True\<rparr>)
              else ledger(svcIdent \<mapsto> s\<lparr>buckets := AList.update (bucketKey b) (bucketKind b) (buckets s),
                                           bucketsN := bucketsN s + 1\<rparr>))"

record FcResvHeldArg =
  HeldKind :: string
  HeldBucket :: string
  HeldTokens :: int

record FcEffectiveArg =
  ReservationEpoch :: int
  ReservationHeldClaims :: int
  ReservationHeldTruncated :: bool
  ReservationHeld :: "FcResvHeldArg list"

text \<open>
  The walk over a service's buckets: forget a bucket whose store entry is gone, add the claims
  (an unsigned 64-bit sum), and collect the buckets that hold tokens.
\<close>

fun walkBuckets :: "quotaGlobals \<Rightarrow> 'l RateLimiterStore \<Rightarrow> (string \<times> string) list \<Rightarrow> aiResvService \<Rightarrow>
    int \<Rightarrow> FcResvHeldArg list \<Rightarrow> aiResvService \<times> int \<times> FcResvHeldArg list" where
  "walkBuckets g store [] s nclaims held = (s, nclaims, held)"
| "walkBuckets g store ((key, kind) # rest) s nclaims held =
     (case ReservedNow g store key of
        (tokens, cl, existsE) \<Rightarrow>
          if \<not> existsE then
            walkBuckets g store rest
              (if map_of (buckets s) key \<noteq> None
               then s\<lparr>buckets := AList.delete key (buckets s), bucketsN := bucketsN s - 1\<rparr> else s)
              nclaims held
          else walkBuckets g store rest s
                 (if cl > 0 then (nclaims + cl) mod 18446744073709551616 else nclaims)
                 (if tokens > 0
                  then held @ [\<lparr>HeldKind = kind, HeldBucket = key, HeldTokens = tokens\<rparr>] else held))"

definition heldOrder :: "FcResvHeldArg \<Rightarrow> int \<times> string" where
  "heldOrder h = (- HeldTokens h, HeldBucket h)"

definition fillReservationsHeld :: "quotaGlobals \<Rightarrow> 'l RateLimiterStore option \<Rightarrow> aiResvLedger \<Rightarrow> string \<Rightarrow>
    FcEffectiveArg \<times> aiResvLedger" where
  "fillReservationsHeld g store ledger svcIdent =
     (let eff = \<lparr>ReservationEpoch = QuotaEpoch g, ReservationHeldClaims = 0,
                 ReservationHeldTruncated = False, ReservationHeld = []\<rparr>
      in case store of
           None \<Rightarrow> (eff, ledger)
         | Some store \<Rightarrow>
             if svcIdent = '''' then (eff, ledger)
             else case ledger svcIdent of
                    None \<Rightarrow> (eff, ledger)
                  | Some s \<Rightarrow>
                      let (s, nclaims, held) = walkBuckets g store (buckets s) s 0 [];
                          wasMissed = missed s;
                          s = (if wasMissed \<and> bucketsN s < aiResvBucketsMax then s\<lparr>missed := False\<rparr> else s);
                          held = sort_key heldOrder held
                      in (eff\<lparr>ReservationHeldClaims := nclaims,
                             ReservationHeldTruncated := (wasMissed \<or> length held > FcResvHeldMax),
                             ReservationHeld := take FcResvHeldMax held\<rparr>,
                          ledger(svcIdent \<mapsto> s)))"

text \<open>What a read-back should list: the remembered buckets whose store entry holds tokens now.\<close>

definition heldRows :: "quotaGlobals \<Rightarrow> 'l RateLimiterStore \<Rightarrow> (string \<times> string) list \<Rightarrow> FcResvHeldArg list" where
  "heldRows g store bs =
     map (\<lambda>(key, kind). \<lparr>HeldKind = kind, HeldBucket = key, HeldTokens = fst (ReservedNow g store key)\<rparr>)
       (filter (\<lambda>(key, kind). snd (snd (ReservedNow g store key)) \<and> fst (ReservedNow g store key) > 0) bs)"

text \<open>The invariant of a service's memory.\<close>

definition resv_ok :: "aiResvService \<Rightarrow> bool" where
  "resv_ok s \<longleftrightarrow> distinct (map fst (buckets s)) \<and> bucketsN s = int (length (buckets s))
     \<and> length (buckets s) \<le> 4096"

definition ledger_ok :: "aiResvLedger \<Rightarrow> bool" where
  "ledger_ok l \<longleftrightarrow> (\<forall>svc s. l svc = Some s \<longrightarrow> resv_ok s)"

section \<open>Lemmas\<close>

lemma update_length:
  "map_of m k = None \<Longrightarrow> length (AList.update k v m) = Suc (length m)"
  by (induction m) (auto split: if_splits)

lemma delete_length:
  "distinct (map fst m) \<Longrightarrow> map_of m k \<noteq> None \<Longrightarrow> Suc (length (AList.delete k m)) = length m"
proof (induction m)
  case Nil
  then show ?case by simp
next
  case (Cons kv m)
  obtain k' v' where kv: "kv = (k', v')" by (cases kv)
  show ?case
  proof (cases "k' = k")
    case True
    with Cons.prems kv have "k \<notin> fst ` set m" by simp
    then have "AList.delete k m = m" by (simp add: AList.delete_idem)
    with True kv show ?thesis by (simp add: AList.delete_eq)
  next
    case False
    with Cons kv show ?thesis by (simp add: AList.delete_eq)
  qed
qed

lemma noteReservedBucket_ok: "ledger_ok l \<Longrightarrow> ledger_ok (noteReservedBucket l svc b)"
proof -
  assume ok: "ledger_ok l"
  define s where "s = (case l svc of Some s \<Rightarrow> s | None \<Rightarrow> emptyResvService)"
  have s: "resv_ok s"
    using ok by (auto simp: s_def ledger_ok_def resv_ok_def emptyResvService_def split: option.split)
  have "resv_ok (s\<lparr>buckets := AList.update (bucketKey b) (bucketKind b) (buckets s), bucketsN := bucketsN s + 1\<rparr>)"
    if "map_of (buckets s) (bucketKey b) = None" "\<not> bucketsN s \<ge> aiResvBucketsMax"
    using s that by (auto simp: resv_ok_def aiResvBucketsMax_def update_length distinct_update)
  with ok s show ?thesis
    unfolding noteReservedBucket_def s_def [symmetric] Let_def
    by (simp add: ledger_ok_def) (simp add: resv_ok_def)
qed

lemma walkBuckets_held: "snd (snd (walkBuckets g store bs s n h)) = h @ heldRows g store bs"
proof (induction bs arbitrary: s n h)
  case (Cons b bs)
  obtain key kind where b: "b = (key, kind)" by (cases b)
  obtain t c x where r: "ReservedNow g store key = (t, c, x)" by (cases "ReservedNow g store key")
  show ?case by (simp add: b r Cons.IH heldRows_def)
qed (simp add: heldRows_def)

lemma walkBuckets_missed: "missed (fst (walkBuckets g store bs s n h)) = missed s"
proof (induction bs arbitrary: s n h)
  case (Cons b bs)
  obtain key kind where b: "b = (key, kind)" by (cases b)
  obtain t c x where r: "ReservedNow g store key = (t, c, x)" by (cases "ReservedNow g store key")
  show ?case by (simp add: b r Cons.IH)
qed simp

lemma walkBuckets_ok: "resv_ok s \<Longrightarrow> resv_ok (fst (walkBuckets g store bs s n h))"
proof (induction bs arbitrary: s n h)
  case (Cons b bs)
  obtain key kind where b: "b = (key, kind)" by (cases b)
  obtain t c x where r: "ReservedNow g store key = (t, c, x)" by (cases "ReservedNow g store key")
  have "resv_ok (s\<lparr>buckets := AList.delete key (buckets s), bucketsN := bucketsN s - 1\<rparr>)"
    if "map_of (buckets s) key \<noteq> None"
    using Cons.prems delete_length [of "buckets s" key] that
    by (auto simp: resv_ok_def distinct_delete)
  with Cons show ?case by (simp add: b r)
qed simp

lemma walkBuckets_buckets:
  "map_of (buckets (fst (walkBuckets g store bs s n h))) key =
     (if key \<in> fst ` set bs \<and> \<not> snd (snd (ReservedNow g store key)) then None
      else map_of (buckets s) key)"
proof (induction bs arbitrary: s n h key)
  case (Cons b bs)
  obtain k kind where b: "b = (k, kind)" by (cases b)
  obtain t c x where r: "ReservedNow g store k = (t, c, x)" by (cases "ReservedNow g store k")
  show ?case by (cases "key = k") (simp_all add: b r Cons.IH go_map)
qed simp

lemma fillReservationsHeld_body:
  assumes "ledger svc = Some s" and "svc \<noteq> ''''"
  shows "ReservationHeld (fst (fillReservationsHeld g (Some store) ledger svc)) =
           take FcResvHeldMax (sort_key heldOrder (heldRows g store (buckets s)))"
    and "ReservationHeldTruncated (fst (fillReservationsHeld g (Some store) ledger svc)) =
           (missed s \<or> length (heldRows g store (buckets s)) > FcResvHeldMax)"
proof -
  obtain s' n h where w: "walkBuckets g store (buckets s) s 0 [] = (s', n, h)"
    by (cases "walkBuckets g store (buckets s) s 0 []") auto
  have h: "h = heldRows g store (buckets s)" "missed s' = missed s"
    using walkBuckets_held [of g store "buckets s" s 0 "[]"]
      walkBuckets_missed [of g store "buckets s" s 0 "[]"] by (simp_all add: w)
  show "ReservationHeld (fst (fillReservationsHeld g (Some store) ledger svc)) =
           take FcResvHeldMax (sort_key heldOrder (heldRows g store (buckets s)))"
    using assms by (simp add: fillReservationsHeld_def w h Let_def)
  show "ReservationHeldTruncated (fst (fillReservationsHeld g (Some store) ledger svc)) =
           (missed s \<or> length (heldRows g store (buckets s)) > FcResvHeldMax)"
    using assms by (simp add: fillReservationsHeld_def w h Let_def)
qed

lemma fillReservationsHeld_ok:
  fixes store :: "'l RateLimiterStore option"
  assumes "ledger_ok l"
  shows "ledger_ok (snd (fillReservationsHeld g store l svc))"
proof -
  have w: "resv_ok (fst (walkBuckets g st (buckets s) s 0 []))" if "l svc = Some s"
    for s and st :: "'l RateLimiterStore"
    using assms that by (intro walkBuckets_ok) (simp add: ledger_ok_def)
  have upd: "ledger_ok (l(svc \<mapsto> s))" if "resv_ok s" for s
    using assms that by (simp add: ledger_ok_def)
  have clear: "resv_ok (s\<lparr>missed := m\<rparr>) = resv_ok s" for s m
    by (simp add: resv_ok_def)
  show ?thesis
  proof (cases "store = None \<or> svc = '''' \<or> l svc = None")
    case True
    then show ?thesis using assms
      by (cases store) (auto simp: fillReservationsHeld_def Let_def split: option.split)
  next
    case False
    then obtain st s where st: "store = Some st" "l svc = Some s" "svc \<noteq> ''''" by auto
    then show ?thesis
      using upd [OF w, of s st] upd [of "(fst (walkBuckets g st (buckets s) s 0 []))\<lparr>missed := False\<rparr>"] w [of s st]
      by (simp add: fillReservationsHeld_def clear Let_def case_prod_beta)
  qed
qed

text \<open>Dropping the tail of a sorted list drops its largest elements.\<close>

lemma sorted_take_drop:
  assumes "sorted (map f xs)" and "x \<in> set (take n xs)" and "y \<in> set (drop n xs)"
  shows "f x \<le> f y"
proof -
  have "sorted (map f (take n xs) @ map f (drop n xs))"
    using assms(1) by (simp add: map_append [symmetric] del: map_append)
  then show ?thesis using assms(2,3) by (auto simp: sorted_append)
qed

section \<open>Properties\<close>

text \<open>
  The read-back of held reservations. It lists at most 64 buckets, largest claim first, and
  only buckets whose store entry holds tokens in the current minute, with exactly those tokens;
  whatever it leaves out is no larger than what it lists, and when it is not marked truncated it
  leaves out nothing the service remembers. Reading back keeps the service's memory within its bound.
\<close>

theorem held_readback_exact:
  fixes store :: "'l RateLimiterStore" and g :: quotaGlobals
  assumes "ledger_ok l" and "l svc = Some s" and "svc \<noteq> ''''"
  defines "eff \<equiv> fst (fillReservationsHeld g (Some store) l svc)"
  shows "ledger_ok (snd (fillReservationsHeld g (Some store) l svc)) \<and>
         length (ReservationHeld eff) \<le> 64 \<and> sorted (map heldOrder (ReservationHeld eff)) \<and>
         set (ReservationHeld eff) \<subseteq> set (heldRows g store (buckets s)) \<and>
         (\<forall>x \<in> set (ReservationHeld eff). \<forall>y \<in> set (heldRows g store (buckets s)) - set (ReservationHeld eff).
            HeldTokens y \<le> HeldTokens x) \<and>
         (\<not> ReservationHeldTruncated eff \<longrightarrow> set (ReservationHeld eff) = set (heldRows g store (buckets s)))"
proof -
  let ?all = "sort_key heldOrder (heldRows g store (buckets s))"
  note B = fillReservationsHeld_body [of l svc s g store, OF assms(2,3), folded eff_def]
  have S: "sorted (map heldOrder ?all)" by simp
  have split: "set ?all = set (take 64 ?all) \<union> set (drop 64 ?all)"
    by (metis append_take_drop_id set_append)
  have less: "HeldTokens y \<le> HeldTokens x" if "x \<in> set (take 64 ?all)" "y \<in> set ?all - set (take 64 ?all)" for x y
  proof -
    have "y \<in> set (drop 64 ?all)" using that(2) split by blast
    from sorted_take_drop [OF S that(1) this] show ?thesis by (auto simp: heldOrder_def less_eq_prod_def)
  qed
  have "set (take 64 ?all) = set ?all" if "length ?all \<le> 64" using that by simp
  moreover have "sorted (map heldOrder (take 64 ?all))" using S by (simp add: take_map [symmetric] sorted_wrt_take)
  ultimately show ?thesis
    using fillReservationsHeld_ok [OF assms(1), of g "Some store" svc] B less set_take_subset [of 64 ?all]
    by (auto simp: FcResvHeldMax_def)
qed

theorem held_readback_exact_witness:
  "let s = snd (ReserveTokens exG (New :: unit RateLimiterStore) ''t'' 25 60 0);
       l = noteReservedBucket Map.empty ''v'' \<lparr>bucketKey = ''t'', bucketTpm = 60, bucketBurstPct = 0, bucketKind = ''tenant''\<rparr>
   in set (ReservationHeld (fst (fillReservationsHeld exG (Some s) l ''v''))) =
        {\<lparr>HeldKind = ''tenant'', HeldBucket = ''t'', HeldTokens = 25\<rparr>}"
proof -
  define s where "s = snd (ReserveTokens exG (New :: unit RateLimiterStore) ''t'' 25 60 0)"
  define b where "b = \<lparr>bucketKey = ''t'', bucketTpm = 60, bucketBurstPct = 0, bucketKind = ''tenant''\<rparr>"
  define l where "l = noteReservedBucket Map.empty ''v'' b"
  have l: "l ''v'' = Some \<lparr>buckets = [(''t'', ''tenant'')], bucketsN = 1, missed = False\<rparr>"
    by (simp add: l_def b_def noteReservedBucket_def emptyResvService_def aiResvBucketsMax_def)
  have ok: "ledger_ok l" unfolding l_def by (rule noteReservedBucket_ok) (simp add: ledger_ok_def)
  have h: "heldRows exG s [(''t'', ''tenant'')] = [\<lparr>HeldKind = ''tenant'', HeldBucket = ''t'', HeldTokens = 25\<rparr>]"
    unfolding s_def by code_simp
  have "\<not> ReservationHeldTruncated (fst (fillReservationsHeld exG (Some s) l ''v''))"
    using fillReservationsHeld_body(2) [of l "''v''" _ exG s, OF l] by (simp add: h FcResvHeldMax_def)
  with held_readback_exact [of l "''v''" _ exG s, OF ok l] h show ?thesis
    unfolding s_def [symmetric] b_def [symmetric] l_def [symmetric] Let_def by simp
qed

end
