(* ===== verification/Claim_Store.thy ===== *)
theory Claim_Store
  imports Resv_Ledger
begin

text \<open>
  What the admission ladder relies on of the quota store: an interface of reservations on
  buckets. \<open>heldNow\<close> is the abstract state, the tokens and the number of claims each bucket
  holds in the current epoch; the locale \<open>claim_api\<close> states what a firm reservation, an elastic
  one, a release and a trim do to it, and the store of src/pkg/ratelimit/ratelimit.go is shown to
  keep these laws.
\<close>

section \<open>Definitions\<close>

definition heldNow :: "quotaGlobals \<Rightarrow> 'l RateLimiterStore \<Rightarrow> string \<Rightarrow> int \<times> int" where
  "heldNow g s k = (case ReservedNow g s k of (tokens, cl, _) \<Rightarrow> (tokens, cl))"

text \<open>One more claim of \<open>w\<close> tokens on the bucket \<open>k\<close>.\<close>

definition bump :: "(string \<Rightarrow> int \<times> int) \<Rightarrow> string \<Rightarrow> int \<Rightarrow> string \<Rightarrow> int \<times> int" where
  "bump h k w = h(k := (fst (h k) + w, snd (h k) + 1))"

text \<open>A list of claims on top of \<open>h\<close>; a claim of no tokens is no claim.\<close>

definition claimed :: "(string \<Rightarrow> int \<times> int) \<Rightarrow> (string \<times> int) list \<Rightarrow> string \<Rightarrow> int \<times> int" where
  "claimed h kv k = (case map_of kv k of
      Some w \<Rightarrow> if w = 0 then h k else (fst (h k) + w, snd (h k) + 1)
    | None \<Rightarrow> h k)"

text \<open>
  The states in which \<open>n\<close> more claims can be counted: the epoch is positive, no entry is ahead
  of it, and the counters are in range.
\<close>

definition claim_inv :: "quotaGlobals \<Rightarrow> nat \<Rightarrow> 'l RateLimiterStore \<Rightarrow> bool" where
  "claim_inv g n s \<longleftrightarrow> knobs_ok g \<and> 0 < currentQuotaEpoch g \<and>
     (\<forall>k. let e = loadEntry s k in
        reservedEpoch e \<le> currentQuotaEpoch g \<and> 0 \<le> reserved e \<and> reserved e \<le> 10 * maxLimit \<and>
        0 \<le> claims e \<and> claims e + int n < 4611686018427387904)"

definition bucket_fits :: "quotaGlobals \<Rightarrow> 'l RateLimiterStore \<Rightarrow> quotaBucket \<Rightarrow> bool" where
  "bucket_fits g s b \<longleftrightarrow> limit_ok (bucketTpm b) \<and>
     max 0 (tatMs (loadEntry s (bucketKey b)) - quotaNowMs g) * bucketTpm b < 9223372036854775808"

definition reserveB :: "quotaGlobals \<Rightarrow> 'l RateLimiterStore \<Rightarrow> quotaBucket \<Rightarrow> int \<Rightarrow>
    (bool \<times> int \<times> int) \<times> 'l RateLimiterStore" where
  "reserveB g s b want = ReserveTokens g s (bucketKey b) want (bucketTpm b) (bucketBurstPct b)"

definition reserveElasticB :: "quotaGlobals \<Rightarrow> 'l RateLimiterStore \<Rightarrow> quotaBucket \<Rightarrow> int \<Rightarrow> int \<Rightarrow>
    (bool \<times> int \<times> int \<times> int) \<times> 'l RateLimiterStore" where
  "reserveElasticB g s b firm elastic =
     ReserveTokensElastic g s (bucketKey b) firm elastic (bucketTpm b) (bucketBurstPct b)"

section \<open>The interface\<close>

locale claim_api =
  fixes inv :: "nat \<Rightarrow> 's \<Rightarrow> bool"
    and fits :: "'s \<Rightarrow> quotaBucket \<Rightarrow> bool"
    and held :: "'s \<Rightarrow> string \<Rightarrow> int \<times> int"
    and tag :: int
    and reserve :: "'s \<Rightarrow> quotaBucket \<Rightarrow> int \<Rightarrow> (bool \<times> int \<times> int) \<times> 's"
    and reserveE :: "'s \<Rightarrow> quotaBucket \<Rightarrow> int \<Rightarrow> int \<Rightarrow> (bool \<times> int \<times> int \<times> int) \<times> 's"
    and release :: "'s \<Rightarrow> string \<Rightarrow> int \<Rightarrow> int \<Rightarrow> 's"
    and trim :: "'s \<Rightarrow> string \<Rightarrow> int \<Rightarrow> int \<Rightarrow> 's"
  assumes tag_pos: "inv n s \<Longrightarrow> tag \<noteq> 0"
    and inv_weaken: "inv n s \<Longrightarrow> n0 \<le> n \<Longrightarrow> inv n0 s"
    and held_nonneg: "inv n s \<Longrightarrow> 0 \<le> fst (held s k) \<and> 0 \<le> snd (held s k)"
    and reserve_law: "inv (Suc n) s \<Longrightarrow> fits s b \<Longrightarrow> 0 < want \<Longrightarrow> reserve s b want = ((a, r, ep), s') \<Longrightarrow>
      inv n s' \<and> fits s' = fits s \<and>
      (if a then ep = tag \<and> held s' = bump (held s) (bucketKey b) want else held s' = held s)"
    and reserveE_law: "inv (Suc n) s \<Longrightarrow> fits s b \<Longrightarrow> 0 \<le> firm \<Longrightarrow> 0 \<le> el \<Longrightarrow>
      reserveE s b firm el = ((a, r, ep, m), s') \<Longrightarrow>
      inv n s' \<and> fits s' = fits s \<and>
      (if a then firm \<le> m \<and> m \<le> firm + el \<and>
              (if m = 0 then ep = 0 \<and> held s' = held s else ep = tag \<and> held s' = bump (held s) (bucketKey b) m)
       else held s' = held s)"
    and release_law: "inv n s \<Longrightarrow> 0 < w \<Longrightarrow> held s k = (x + w, c + 1) \<Longrightarrow> 0 \<le> x \<Longrightarrow> 0 \<le> c \<Longrightarrow>
      inv n (release s k w tag) \<and> fits (release s k w tag) = fits s \<and>
      held (release s k w tag) = (held s)(k := (x, c))"
    and release_none: "inv n s \<Longrightarrow> w < 9223372036854775808 \<Longrightarrow> held s k = (0, 0) \<Longrightarrow>
      inv n (release s k w tag) \<and> fits (release s k w tag) = fits s \<and> held (release s k w tag) = held s"
    and release_zero: "release s k 0 ep = s"
    and trim_law: "inv n s \<Longrightarrow> 0 < w \<Longrightarrow> held s k = (x + w, c) \<Longrightarrow> 0 \<le> x \<Longrightarrow>
      inv n (trim s k w tag) \<and> fits (trim s k w tag) = fits s \<and>
      held (trim s k w tag) = (held s)(k := (x, c))"

lemma claimed_Nil [simp]: "claimed h [] = h"
  by (simp add: claimed_def fun_eq_iff)

lemma claimed_notin: "k \<notin> fst ` set kv \<Longrightarrow> claimed h kv k = h k"
  by (simp add: claimed_def map_of_eq_None_iff [THEN iffD2])

lemma claimed_snoc:
  "k \<notin> fst ` set kv \<Longrightarrow> w \<noteq> 0 \<Longrightarrow> bump (claimed h kv) k w = claimed h (kv @ [(k, w)])"
  by (drule map_of_eq_None_iff [THEN iffD2])
     (auto simp: claimed_def bump_def fun_eq_iff map_add_def split: option.splits)

lemma claimed_snoc_zero: "k \<notin> fst ` set kv \<Longrightarrow> claimed h (kv @ [(k, 0)]) = claimed h kv"
  by (drule map_of_eq_None_iff [THEN iffD2])
     (auto simp: claimed_def fun_eq_iff map_add_def split: option.splits)

lemma claimed_Cons_upd:
  "k \<notin> fst ` set kv \<Longrightarrow> (claimed h ((k, w) # kv))(k := h k) = claimed h kv"
  by (drule map_of_eq_None_iff [THEN iffD2]) (auto simp: claimed_def fun_eq_iff)

context claim_api
begin

text \<open>Giving back a list of claims, each with the amount it was taken with, restores the holdings.\<close>

lemma release_all:
  assumes "inv n s" and "held s = claimed h kv" and "distinct (map fst kv)"
    and "\<forall>p \<in> set kv. 0 \<le> snd p" and "\<And>k. 0 \<le> fst (h k) \<and> 0 \<le> snd (h k)"
  shows "inv n (fold (\<lambda>(k, w) s. release s k w tag) kv s)
    \<and> fits (fold (\<lambda>(k, w) s. release s k w tag) kv s) = fits s
    \<and> held (fold (\<lambda>(k, w) s. release s k w tag) kv s) = h"
  using assms
proof (induction kv arbitrary: s)
  case (Cons p kv)
  obtain k w where p: "p = (k, w)" by (cases p)
  have k: "k \<notin> fst ` set kv" using Cons.prems(3) by (simp add: p)
  have w: "0 \<le> w" using Cons.prems(4) by (simp add: p)
  have step: "inv n (release s k w tag) \<and> fits (release s k w tag) = fits s \<and>
      held (release s k w tag) = claimed h kv"
  proof (cases "w = 0")
    case True
    have "claimed h ((k, 0) # kv) = claimed h kv"
      using k [THEN map_of_eq_None_iff [THEN iffD2]] by (auto simp: claimed_def fun_eq_iff)
    with True Cons.prems show ?thesis by (simp add: release_zero p)
  next
    case False
    then have hk: "held s k = (fst (h k) + w, snd (h k) + 1)"
      using Cons.prems(2) by (simp add: p claimed_def)
    from release_law [OF Cons.prems(1) _ hk] False w Cons.prems(5) [of k]
    have "inv n (release s k w tag) \<and> fits (release s k w tag) = fits s \<and>
        held (release s k w tag) = (held s)(k := (fst (h k), snd (h k)))" by simp
    then show ?thesis using claimed_Cons_upd [OF k, of h w] Cons.prems(2) by (simp add: p)
  qed
  then have "inv n (release s k w tag)" "held (release s k w tag) = claimed h kv" by auto
  then show ?case
    using Cons.IH [of "release s k w tag"] Cons.prems(3,4,5) step by (simp add: p)
qed simp

text \<open>
  Giving back the same amount on a superset of the claimed keys also restores them, when the other
  keys hold nothing.
\<close>

lemma release_superset:
  assumes "inv n s" and "0 < w" and "w < 9223372036854775808" and "distinct ks"
    and "held s = claimed h (map (\<lambda>k. (k, w)) cs)" and "set cs \<subseteq> set ks"
    and "\<And>k. k \<in> set ks - set cs \<Longrightarrow> h k = (0, 0)" and "\<And>k. 0 \<le> fst (h k) \<and> 0 \<le> snd (h k)"
  shows "held (fold (\<lambda>k s. release s k w tag) ks s) = h"
  using assms(1,4-7)
proof (induction ks arbitrary: s cs)
  case Nil
  then show ?case by simp
next
  case (Cons k ks)
  let ?s = "release s k w tag" and ?cs = "filter (\<lambda>x. x \<noteq> k) cs"
  have cl: "claimed h (map (\<lambda>k. (k, w)) l) x = (if x \<in> set l then (fst (h x) + w, snd (h x) + 1) else h x)" for l x
    using assms(2) by (auto simp: claimed_def map_of_map_restrict restrict_map_def)
  have "inv n ?s \<and> held ?s = (held s)(k := h k)"
  proof (cases "k \<in> set cs")
    case True
    then have "held s k = (fst (h k) + w, snd (h k) + 1)" using Cons.prems(3) by (simp add: cl)
    from release_law [OF Cons.prems(1) assms(2) this] assms(8) [of k] show ?thesis by simp
  next
    case False
    then have "h k = (0, 0)" using Cons.prems(5) by simp
    then have z: "held s k = (0, 0)" "h k = (0, 0)" using False Cons.prems(3) by (simp_all add: cl)
    from release_none [OF Cons.prems(1) assms(3) z(1)] z show ?thesis by (simp add: fun_upd_idem)
  qed
  then have inv: "inv n ?s" and h: "held ?s = claimed h (map (\<lambda>k. (k, w)) ?cs)"
    using Cons.prems(3) by (auto simp: cl fun_eq_iff)
  have "held (fold (\<lambda>k s. release s k w tag) ks ?s) = h"
    using Cons.prems by (intro Cons.IH [OF inv _ h]) auto
  then show ?case by simp
qed

end

section \<open>The store keeps the laws\<close>

lemma heldNow_load:
  "heldNow g s k = (if reservedEpoch (loadEntry s k) \<noteq> currentQuotaEpoch g then (0, 0)
                    else (reserved (loadEntry s k), claims (loadEntry s k)))"
  by (auto simp: heldNow_def ReservedNow_def loadEntry_def emptyEntry_def split: option.split)

text \<open>Writing one entry back: the conditions under which the laws' frame holds.\<close>

lemma claim_inv_put:
  assumes "claim_inv g n s" and "m \<le> n" and "reservedEpoch e \<le> currentQuotaEpoch g"
    and "0 \<le> reserved e" and "reserved e \<le> 10 * maxLimit" and "0 \<le> claims e"
    and "claims e + int m < 4611686018427387904"
  shows "claim_inv g m (putEntry s k e)"
proof -
  have "claims (loadEntry s k') + int m < 4611686018427387904" for k'
  proof -
    have "claims (loadEntry s k') + int n < 4611686018427387904"
      using assms(1) by (auto simp: claim_inv_def Let_def)
    with assms(2) show ?thesis by linarith
  qed
  with assms show ?thesis by (auto simp: claim_inv_def Let_def)
qed

lemma claim_inv_weaken:
  assumes "claim_inv g n s" and "m \<le> n"
  shows "claim_inv g m s"
proof -
  have "int m \<le> int n" using assms(2) by simp
  moreover have "claims (loadEntry s k) + int n < 4611686018427387904" for k
    using assms(1) by (auto simp: claim_inv_def Let_def)
  ultimately have "claims (loadEntry s k) + int m < 4611686018427387904" for k
    by (meson add_left_mono order_le_less_trans)
  with assms(1) show ?thesis by (auto simp: claim_inv_def Let_def)
qed

lemma bucket_fits_put:
  assumes "tatMs e = tatMs (loadEntry s k)"
  shows "bucket_fits g (putEntry s k e) = bucket_fits g s"
  using assms by (auto simp: bucket_fits_def fun_eq_iff)

lemma heldNow_put:
  "heldNow g (putEntry s k e) =
     (heldNow g s)(k := (if reservedEpoch e \<noteq> currentQuotaEpoch g then (0, 0) else (reserved e, claims e)))"
  by (auto simp: heldNow_load fun_eq_iff)

lemma claim_room_range:
  assumes "claim_inv g (Suc n) s" and "bucket_fits g s b"
  shows "room_range g (loadEntry s (bucketKey b)) (bucketTpm b)"
proof -
  have "claims (loadEntry s (bucketKey b)) + int (Suc n) < 4611686018427387904"
    using assms(1) by (auto simp: claim_inv_def Let_def)
  then have "claims (loadEntry s (bucketKey b)) < 4611686018427387904" by linarith
  with assms show ?thesis by (auto simp: room_range_def claim_inv_def bucket_fits_def Let_def)
qed

text \<open>The entry after the touch, in terms of what the bucket holds now.\<close>

lemma quotaEntry0_held:
  assumes "claim_inv g n s"
  shows "reserved (quotaEntry0 g (loadEntry s k) limit pct) = fst (heldNow g s k)"
    and "claims (quotaEntry0 g (loadEntry s k) limit pct) = snd (heldNow g s k)"
    and "reservedEpoch (quotaEntry0 g (loadEntry s k) limit pct) = currentQuotaEpoch g"
    and "tatMs (quotaEntry0 g (loadEntry s k) limit pct) = tatMs (loadEntry s k)"
proof -
  have "reservedEpoch (loadEntry s k) \<le> currentQuotaEpoch g"
    using assms by (auto simp: claim_inv_def Let_def)
  then show "reserved (quotaEntry0 g (loadEntry s k) limit pct) = fst (heldNow g s k)"
    and "claims (quotaEntry0 g (loadEntry s k) limit pct) = snd (heldNow g s k)"
    and "reservedEpoch (quotaEntry0 g (loadEntry s k) limit pct) = currentQuotaEpoch g"
    and "tatMs (quotaEntry0 g (loadEntry s k) limit pct) = tatMs (loadEntry s k)"
    by (auto simp: quotaEntry0_def touchQuotaEpoch_reserved heldNow_load)
qed

lemma heldNow_range:
  assumes "claim_inv g n s"
  shows "0 \<le> fst (heldNow g s k)" "fst (heldNow g s k) \<le> 10 * maxLimit" "0 \<le> snd (heldNow g s k)"
    "snd (heldNow g s k) + int n < 4611686018427387904"
proof -
  have r: "0 \<le> reserved (loadEntry s k)" "reserved (loadEntry s k) \<le> 10 * maxLimit"
      "0 \<le> claims (loadEntry s k)" "claims (loadEntry s k) + int n < 4611686018427387904"
    using assms by (auto simp: claim_inv_def Let_def)
  then show "0 \<le> fst (heldNow g s k)" "fst (heldNow g s k) \<le> 10 * maxLimit" "0 \<le> snd (heldNow g s k)"
    "snd (heldNow g s k) + int n < 4611686018427387904"
    by (auto simp: heldNow_load maxLimit_def)
qed

text \<open>Adding a claim of \<open>w\<close> tokens, or none, to the touched entry and writing it back.\<close>

lemma put_touched:
  assumes inv: "claim_inv g (Suc n) s"
    and e: "e = quotaEntry0 g (loadEntry s k) limit pct"
  shows "claim_inv g n (putEntry s k e) \<and> bucket_fits g (putEntry s k e) = bucket_fits g s
           \<and> heldNow g (putEntry s k e) = heldNow g s"
proof -
  note q = quotaEntry0_held [OF inv, of k limit pct, folded e] and r = heldNow_range [OF inv, of k]
  show ?thesis
    using q r by (auto intro!: claim_inv_put [OF inv] bucket_fits_put simp: heldNow_put fun_upd_idem)
qed

lemma put_claimed:
  assumes inv: "claim_inv g (Suc n) s" and w: "0 \<le> w" "fst (heldNow g s k) + w \<le> 10 * maxLimit"
    and e0: "e0 = quotaEntry0 g (loadEntry s k) limit pct"
    and e: "e = e0\<lparr>reserved := reserved e0 + w, claims := claims e0 + 1\<rparr>"
  shows "claim_inv g n (putEntry s k e) \<and> bucket_fits g (putEntry s k e) = bucket_fits g s
           \<and> heldNow g (putEntry s k e) = bump (heldNow g s) k w"
proof -
  note q = quotaEntry0_held [OF inv, of k limit pct, folded e0] and r = heldNow_range [OF inv, of k]
  show ?thesis
    using q r w by (auto intro!: claim_inv_put [OF inv] bucket_fits_put simp: heldNow_put bump_def e)
qed

lemma reserveB_law:
  assumes inv: "claim_inv g (Suc n) s" and fits: "bucket_fits g s b" and w: "0 < want"
    and r: "reserveB g s b want = ((a, r, ep), s')"
  shows "claim_inv g n s' \<and> bucket_fits g s' = bucket_fits g s \<and>
     (if a then ep = currentQuotaEpoch g \<and> heldNow g s' = bump (heldNow g s) (bucketKey b) want
      else heldNow g s' = heldNow g s)"
proof -
  let ?k = "bucketKey b" and ?e = "loadEntry s (bucketKey b)"
  note rr = claim_room_range [OF inv fits]
  have tpm: "0 < bucketTpm b" using fits by (simp add: bucket_fits_def limit_ok_def)
  note L = room_level [OF rr, of "bucketBurstPct b"]
  note q = quotaEntry0_held [OF inv, of ?k "bucketTpm b" "bucketBurstPct b"]
  show ?thesis
  proof (cases "want \<le> room g ?e (bucketTpm b) (bucketBurstPct b)")
    case True
    note res = reserveEntry_spec(1) [OF rr w True]
    have "fst (heldNow g s ?k) + want \<le> 10 * maxLimit" using True L(2,9) q(1) by linarith
    from put_claimed [OF inv _ this refl refl] w show ?thesis
      using r res tpm w by (auto simp: reserveB_def ReserveTokens_def)
  next
    case False
    from reserveEntry_spec(2) [OF rr w False]
    show ?thesis using r tpm w put_touched [OF inv refl, of ?k "bucketTpm b" "bucketBurstPct b"]
      by (auto simp: reserveB_def ReserveTokens_def)
  qed
qed

lemma reserveElasticB_law:
  assumes inv: "claim_inv g (Suc n) s" and fits: "bucket_fits g s b" and f: "0 \<le> firm" and el: "0 \<le> el"
    and r: "reserveElasticB g s b firm el = ((a, r, ep, m), s')"
  shows "claim_inv g n s' \<and> bucket_fits g s' = bucket_fits g s \<and>
     (if a then firm \<le> m \<and> m \<le> firm + el \<and>
              (if m = 0 then ep = 0 \<and> heldNow g s' = heldNow g s
               else ep = currentQuotaEpoch g \<and> heldNow g s' = bump (heldNow g s) (bucketKey b) m)
      else heldNow g s' = heldNow g s)"
proof -
  let ?k = "bucketKey b" and ?e = "loadEntry s (bucketKey b)"
  note rr = claim_room_range [OF inv fits]
  have tpm: "0 < bucketTpm b" using fits by (simp add: bucket_fits_def limit_ok_def)
  have ep: "currentQuotaEpoch g > 0" using inv by (simp add: claim_inv_def)
  have inv': "claim_inv g n s" by (rule claim_inv_weaken [OF inv]) simp
  consider (none) "el = 0" "firm = 0" | (firm) "el = 0" "0 < firm" | (elastic) "0 < el"
    using f el by linarith
  then show ?thesis
  proof cases
    case none
    with r inv' show ?thesis by (auto simp: reserveElasticB_def ReserveTokensElastic_def ReserveTokens_def)
  next
    case firm
    obtain a' r' ep' s1 where R: "reserveB g s b firm = ((a', r', ep'), s1)"
      by (metis prod_cases3 surj_pair)
    from reserveB_law [OF inv fits firm(2) R] r R firm ep show ?thesis
      by (auto simp: reserveElasticB_def ReserveTokensElastic_def reserveB_def split: if_splits)
  next
    case elastic
    let ?rm = "room g ?e (bucketTpm b) (bucketBurstPct b)"
    note L = room_level [OF rr, of "bucketBurstPct b"]
    note q = quotaEntry0_held [OF inv, of ?k "bucketTpm b" "bucketBurstPct b"]
    note T = put_touched [OF inv refl, of ?k "bucketTpm b" "bucketBurstPct b"]
    show ?thesis
    proof (cases "firm \<le> ?rm")
      case True
      define w where "w = min (firm + el) ?rm"
      have w: "0 \<le> w" "firm \<le> w" "w \<le> firm + el" "fst (heldNow g s ?k) + w \<le> 10 * maxLimit"
        using True f L(2,9) q(1) elastic by (auto simp: w_def)
      note res = reserveElasticEntry_spec(1) [OF rr f elastic True, folded w_def]
      from put_claimed [OF inv w(1,4) refl refl, of "bucketTpm b" "bucketBurstPct b"] T res w r tpm elastic f
      show ?thesis by (auto simp: reserveElasticB_def ReserveTokensElastic_def split: if_splits)
    next
      case False
      from reserveElasticEntry_spec(2) [OF rr f elastic False] T r tpm elastic f
      show ?thesis by (auto simp: reserveElasticB_def ReserveTokensElastic_def)
    qed
  qed
qed

lemma release_store:
  assumes inv: "claim_inv g n s" and w: "0 < w" and h: "heldNow g s k = (x + w, c + 1)"
    and nn: "0 \<le> x" "0 \<le> c"
  defines "s' \<equiv> ReleaseReservation s k w (currentQuotaEpoch g)"
  shows "claim_inv g n s' \<and> bucket_fits g s' = bucket_fits g s \<and> heldNow g s' = (heldNow g s)(k := (x, c))"
proof -
  let ?e = "loadEntry s k"
  have e: "reservedEpoch ?e = currentQuotaEpoch g" "reserved ?e = x + w" "claims ?e = c + 1"
    using h nn w by (auto simp: heldNow_load split: if_splits)
  then obtain e' where m: "map_of (quotaMap s) k = Some e'" and ee: "?e = e'"
    using w nn by (cases "map_of (quotaMap s) k") (auto simp: loadEntry_def emptyEntry_def)
  have ep: "currentQuotaEpoch g \<noteq> 0" using inv by (simp add: claim_inv_def)
  have r: "x + w \<le> 10 * maxLimit" "c + 1 < 4611686018427387904"
    using heldNow_range [OF inv, of k] h by auto
  have i: "i64 x = x" "i64 c = c" "i64 (x + w - w) = x"
    using nn r w by (auto intro!: i64_id simp: in64_def maxLimit_def)
  define e2 where "e2 = claimsSubClamp (reservedSubClamp ?e w)"
  have e2: "reserved e2 = x" "claims e2 = c" "reservedEpoch e2 = currentQuotaEpoch g" "tatMs e2 = tatMs ?e"
    using e i nn by (simp_all add: e2_def reservedSubClamp_def claimsSubClamp_def Let_def)
  have s': "s' = putEntry s k e2"
    using w ep e m ee by (simp add: s'_def e2_def ReleaseReservation_def)
  show ?thesis unfolding s'
    using e2 nn r w heldNow_range(4) [OF inv, of k] h
    by (auto intro!: claim_inv_put [OF inv] bucket_fits_put simp: heldNow_put)
qed


lemma release_store_none:
  assumes inv: "claim_inv g n s" and rng: "w < 9223372036854775808" and h: "heldNow g s k = (0, 0)"
  defines "s' \<equiv> ReleaseReservation s k w (currentQuotaEpoch g)"
  shows "claim_inv g n s' \<and> bucket_fits g s' = bucket_fits g s \<and> heldNow g s' = heldNow g s"
proof (cases "w \<le> 0 \<or> map_of (quotaMap s) k = None \<or> reservedEpoch (loadEntry s k) \<noteq> currentQuotaEpoch g")
  case True
  then have "s' = s" by (auto simp: s'_def ReleaseReservation_def loadEntry_def split: option.splits)
  with inv show ?thesis by simp
next
  case False
  let ?e = "loadEntry s k"
  from False obtain e' where m: "map_of (quotaMap s) k = Some e'" and ee: "?e = e'" and w: "0 < w"
    and re: "reservedEpoch ?e = currentQuotaEpoch g"
    by (auto simp: loadEntry_def)
  have ep: "currentQuotaEpoch g \<noteq> 0" using inv by (simp add: claim_inv_def)
  have e: "reserved ?e = 0" "claims ?e = 0" using h re by (auto simp: heldNow_load)
  define e2 where "e2 = claimsSubClamp (reservedSubClamp ?e w)"
  have "i64 (- w) = - w" using w rng by (intro i64_id) (simp add: in64_def)
  then have e2: "reserved e2 = 0" "claims e2 = 0" "reservedEpoch e2 = currentQuotaEpoch g" "tatMs e2 = tatMs ?e"
    using e re w by (simp_all add: e2_def claimsSubClamp_def reservedSubClamp_def)
  have s': "s' = putEntry s k e2"
    using w ep re m ee by (simp add: s'_def e2_def ReleaseReservation_def)
  show ?thesis unfolding s'
    using e2 h heldNow_range(4) [OF inv, of k]
    by (auto intro!: claim_inv_put [OF inv] bucket_fits_put simp: heldNow_put maxLimit_def fun_upd_idem)
qed

lemma trim_store:
  assumes inv: "claim_inv g n s" and w: "0 < w" and h: "heldNow g s k = (x + w, c)" and nn: "0 \<le> x"
  defines "s' \<equiv> TrimReservation s k w (currentQuotaEpoch g)"
  shows "claim_inv g n s' \<and> bucket_fits g s' = bucket_fits g s \<and> heldNow g s' = (heldNow g s)(k := (x, c))"
proof -
  let ?e = "loadEntry s k"
  have e: "reservedEpoch ?e = currentQuotaEpoch g" "reserved ?e = x + w" "claims ?e = c"
    using h nn w by (auto simp: heldNow_load split: if_splits)
  then obtain e' where m: "map_of (quotaMap s) k = Some e'" and ee: "?e = e'"
    using w nn by (cases "map_of (quotaMap s) k") (auto simp: loadEntry_def emptyEntry_def)
  have ep: "currentQuotaEpoch g \<noteq> 0" using inv by (simp add: claim_inv_def)
  have r: "x + w \<le> 10 * maxLimit" "0 \<le> c" "c + int n < 4611686018427387904"
    using heldNow_range [OF inv, of k] h by auto
  have i: "i64 x = x" using nn r w by (auto intro!: i64_id simp: in64_def maxLimit_def)
  define e2 where "e2 = reservedSubClamp ?e w"
  have e2: "reserved e2 = x" "claims e2 = c" "reservedEpoch e2 = currentQuotaEpoch g" "tatMs e2 = tatMs ?e"
    using e i nn by (simp_all add: e2_def reservedSubClamp_def Let_def)
  have s': "s' = putEntry s k e2"
    using w ep e m ee by (simp add: s'_def e2_def TrimReservation_def)
  show ?thesis unfolding s'
    using e2 nn r w by (auto intro!: claim_inv_put [OF inv] bucket_fits_put simp: heldNow_put)
qed

interpretation store_claims: claim_api "claim_inv g" "bucket_fits g" "heldNow g" "currentQuotaEpoch g"
    "reserveB g" "reserveElasticB g" ReleaseReservation TrimReservation
  for g
proof
  show "currentQuotaEpoch g \<noteq> 0" if "claim_inv g n s" for n and s :: "'a RateLimiterStore"
    using that by (simp add: claim_inv_def)
  show "0 \<le> fst (heldNow g s k) \<and> 0 \<le> snd (heldNow g s k)" if "claim_inv g n s"
    for n k and s :: "'a RateLimiterStore"
    using heldNow_range [OF that, of k] by simp
  show "claim_inv g m s" if "claim_inv g n s" "m \<le> n" for n m and s :: "'a RateLimiterStore"
    using that by (rule claim_inv_weaken)
  show "ReleaseReservation s k 0 ep = s" for k ep and s :: "'a RateLimiterStore"
    by (simp add: ReleaseReservation_def)
qed (rule reserveB_law reserveElasticB_law release_store release_store_none trim_store; assumption)+

end
