(* ===== verification/Qos_Ladder.thy ===== *)
theory Qos_Ladder
  imports Claim_Store Rate_Sync
begin

text \<open>
  The admission gate of src/pkg/loxinet/ai_gateway_dp.go and ai_default_reservation.go: the QoS
  ladder that resolves a request's limits, the request-rate check with its debt latches, the
  reservation of a request's tokens on every bucket it is accountable to, and the settlement.
  The configuration store is an interface of the Go code (\<open>rateLimitService\<close>); it is the
  record \<open>rateLimitService\<close> of functions here, with \<open>None\<close> for a nil service. The data plane
  runs one request's calls at one reading of the clock and of the quota epoch.
\<close>

section \<open>Definitions\<close>

subsection \<open>The interfaces and their rows\<close>

datatype keyError = ErrDBUnavailable | KeyRowGone

record ApiKeySummary =
  RateLimitRPS :: int
  BurstSize :: int
  TokensPerMin :: int

record RateLimitDefaultsEntry =
  DefaultUserRPS :: int
  DefaultUserTPM :: int
  DefaultTenantRPS :: int
  DefaultTenantTPM :: int
  VipSharedRPS :: int
  VipSharedTPM :: int

text \<open>Results carry the error as a final flag, as the values beside it may be read all the same.\<close>

record rateLimitService =
  GetTenantRateLimit :: "string \<Rightarrow> int \<times> int \<times> int \<times> bool"
  GetTenantModelRateLimit :: "string \<Rightarrow> string \<Rightarrow> int \<times> bool"
  GetAPIKeyByID :: "string \<Rightarrow> keyError + ApiKeySummary"
  GetUserRateLimit :: "string \<Rightarrow> string \<Rightarrow> int \<times> int \<times> int \<times> bool"
  GetUserModelRateLimit :: "string \<Rightarrow> string \<Rightarrow> string \<Rightarrow> int \<times> bool"
  GetRateLimitDefaults :: "string \<Rightarrow> string \<Rightarrow> RateLimitDefaultsEntry \<times> bool \<times> bool"

definition RateLimitScopeGlobal :: string where "RateLimitScopeGlobal = ''global''"
definition RateLimitScopeRule :: string where "RateLimitScopeRule = ''rule''"

definition modelQuotaKey :: "string \<Rightarrow> string \<Rightarrow> string" where
  "modelQuotaKey tenantID model = tenantID @ ''|'' @ model"

record qosDefaults =
  userRPS :: int
  userTPM :: int
  tenantRPS :: int
  tenantTPM :: int
  vipRPS :: int
  vipTPM :: int

definition noDefaults :: qosDefaults where
  "noDefaults = \<lparr>userRPS = 0, userTPM = 0, tenantRPS = 0, tenantTPM = 0, vipRPS = 0, vipTPM = 0\<rparr>"

definition qosOverride :: "int \<Rightarrow> int \<Rightarrow> int" where
  "qosOverride dst v = (if v > 0 then v else dst)"

text \<open>\<open>Inl\<close> is the store error.\<close>

definition resolveQoSDefaults :: "rateLimitService option \<Rightarrow> string \<Rightarrow> unit + qosDefaults" where
  "resolveQoSDefaults svc svcIdent =
     (case svc of
        None \<Rightarrow> Inr noDefaults
      | Some svc \<Rightarrow>
          let (gr, gOK, gErr) = GetRateLimitDefaults svc RateLimitScopeGlobal ''''
          in if gErr then Inl ()
             else
               let d = (if gOK then
                          \<lparr>userRPS = DefaultUserRPS gr, userTPM = DefaultUserTPM gr,
                           tenantRPS = DefaultTenantRPS gr, tenantTPM = DefaultTenantTPM gr,
                           vipRPS = VipSharedRPS gr, vipTPM = VipSharedTPM gr\<rparr>
                        else noDefaults)
               in if svcIdent = '''' then Inr d
                  else
                    let (r, rOK, rErr) = GetRateLimitDefaults svc RateLimitScopeRule svcIdent
                    in if rErr then Inl ()
                       else if rOK then
                         Inr \<lparr>userRPS = qosOverride (userRPS d) (DefaultUserRPS r),
                              userTPM = qosOverride (userTPM d) (DefaultUserTPM r),
                              tenantRPS = qosOverride (tenantRPS d) (DefaultTenantRPS r),
                              tenantTPM = qosOverride (tenantTPM d) (DefaultTenantTPM r),
                              vipRPS = qosOverride (vipRPS d) (VipSharedRPS r),
                              vipTPM = qosOverride (vipTPM d) (VipSharedTPM r)\<rparr>
                       else Inr d)"

subsection \<open>The rate-limit check\<close>

text \<open>
  A decision is the triple (decision, retry seconds, error code): 0 allows, 3 is a 429, 4 a 503.
  Each stage of \<open>rateLimitCheckInternal\<close> returns either the decision it stops with or what the
  later stages need, beside the store its request limiter left.
\<close>

type_synonym gwDecision = "int \<times> int \<times> string"

definition gwAllow :: gwDecision where "gwAllow = (0, 0, '''')"

definition storeUnavailable :: gwDecision where
  "storeUnavailable = (4, 5, ''policy_store_unavailable'')"

definition rlKeyless :: "'l rateLib \<Rightarrow> int \<Rightarrow> quotaGlobals \<Rightarrow> rateLimitService option \<Rightarrow> 'l RateLimiterStore \<Rightarrow>
    string \<Rightarrow> gwDecision \<times> 'l RateLimiterStore" where
  "rlKeyless lib now g svc store svcIdent =
     (if svcIdent = '''' \<or> svc = None then (gwAllow, store)
      else case resolveQoSDefaults svc svcIdent of
             Inl _ \<Rightarrow> (gwAllow, store)
           | Inr d \<Rightarrow>
               let ((allowed, retrySec), store) =
                     (if vipRPS d > 0 then CheckVipShared lib now store svcIdent (vipRPS d) else ((True, 0), store))
               in if \<not> allowed then ((3, retrySec, ''rate_limit_exceeded''), store)
                  else if vipTPM d > 0 \<and> QuotaWarming store then ((3, 1, ''token_quota_warming''), store)
                  else if vipTPM d > 0 \<and> IsTokenQuotaExceeded g store (VipSharedQuotaKey svcIdent)
                  then ((3, 60, ''token_quota_exceeded''), store)
                  else (gwAllow, store))"

text \<open>Stage 1: the key's request limiter; yields the key's tokens per minute.\<close>

definition rlKeyStage :: "'l rateLib \<Rightarrow> int \<Rightarrow> rateLimitService option \<Rightarrow> 'l RateLimiterStore \<Rightarrow> string \<Rightarrow>
    (gwDecision + int) \<times> 'l RateLimiterStore" where
  "rlKeyStage lib now svc store keyID =
     (if keyID = '''' then (Inr 0, store)
      else
        let look = (case svc of
                      None \<Rightarrow> Some (0, 0, 0)
                    | Some svc \<Rightarrow>
                        (case GetAPIKeyByID svc keyID of
                           Inr key \<Rightarrow> Some (RateLimitRPS key, BurstSize key, TokensPerMin key)
                         | Inl ErrDBUnavailable \<Rightarrow> None
                         | Inl KeyRowGone \<Rightarrow> Some (0, 0, 0)))
        in case look of
             None \<Rightarrow> (Inl storeUnavailable, store)
           | Some (keyRPS, keyBurst, keyTPM) \<Rightarrow>
               let keyBurst = (if keyBurst \<le> 0 then keyRPS else keyBurst);
                   ((allowed, retrySec), store) = CheckKey lib now store keyID keyRPS keyBurst
               in if \<not> allowed then (Inl (3, retrySec, ''rate_limit_exceeded''), store)
                  else (Inr keyTPM, store))"

text \<open>Stage 1.7: the user's request limiter; yields the user's tokens per minute.\<close>

definition rlUserStage :: "'l rateLib \<Rightarrow> int \<Rightarrow> rateLimitService option \<Rightarrow> 'l RateLimiterStore \<Rightarrow> qosDefaults \<Rightarrow>
    string \<Rightarrow> string \<Rightarrow> (gwDecision + int) \<times> 'l RateLimiterStore" where
  "rlUserStage lib now svc store defaults tenantID userID =
     (if userID = '''' \<or> tenantID = '''' then (Inr 0, store)
      else
        let (r, b, t, uErr) = (case svc of None \<Rightarrow> (0, 0, 0, False)
                               | Some svc \<Rightarrow> GetUserRateLimit svc tenantID userID)
        in if uErr then (Inl storeUnavailable, store)
           else
             let (r, b) = (if r \<le> 0 then (userRPS defaults, 0) else (r, b));
                 t = (if t \<le> 0 then userTPM defaults else t);
                 ((allowed, retrySec), store) = CheckUser lib now store tenantID userID r b
             in if \<not> allowed then (Inl (3, retrySec, ''user_rate_limit_exceeded''), store)
                else (Inr t, store))"

text \<open>Stage 3: the warming gate and the debt latches, which only read the store.\<close>

definition rlLatches :: "quotaGlobals \<Rightarrow> 'l RateLimiterStore \<Rightarrow> string \<Rightarrow> string \<Rightarrow> string \<Rightarrow> string \<Rightarrow>
    int \<Rightarrow> int \<Rightarrow> int \<Rightarrow> int \<Rightarrow> int \<Rightarrow> gwDecision" where
  "rlLatches g store keyID tenantID userID modelName keyTPM userTPM' userModelTPM tenantTPM' modelTPM =
     (if (tenantTPM' > 0 \<or> modelTPM > 0 \<or> userTPM' > 0 \<or> userModelTPM > 0 \<or> keyTPM > 0) \<and> QuotaWarming store
      then (3, 1, ''token_quota_warming'')
      else if keyTPM > 0 \<and> IsTokenQuotaExceeded g store (KeyQuotaKey keyID)
      then (3, 60, ''token_quota_exceeded'')
      else if userTPM' > 0 \<and> IsTokenQuotaExceeded g store (UserQuotaKey tenantID userID)
      then (3, 60, ''token_quota_exceeded'')
      else if userModelTPM > 0 \<and> IsTokenQuotaExceeded g store (UserModelQuotaKey tenantID userID modelName)
      then (3, 60, ''token_quota_exceeded'')
      else if tenantTPM' > 0 \<and> IsTokenQuotaExceeded g store tenantID
      then (3, 60, ''token_quota_exceeded'')
      else if modelTPM > 0 \<and> IsTokenQuotaExceeded g store (modelQuotaKey tenantID modelName)
      then (3, 60, ''token_quota_exceeded'')
      else gwAllow)"

text \<open>Stage 2 and the per-model reads: the tenant's request limiter, then the latches.\<close>

definition rlTenantStage :: "'l rateLib \<Rightarrow> int \<Rightarrow> quotaGlobals \<Rightarrow> rateLimitService option \<Rightarrow> 'l RateLimiterStore \<Rightarrow>
    qosDefaults \<Rightarrow> string \<Rightarrow> string \<Rightarrow> string \<Rightarrow> string \<Rightarrow> int \<Rightarrow> int \<Rightarrow> gwDecision \<times> 'l RateLimiterStore" where
  "rlTenantStage lib now g svc store defaults keyID tenantID userID modelName keyTPM userTPM' =
     (let (tRPS, tTPM, _, rlErr) = (case svc of None \<Rightarrow> (0, 0, 0, False)
                                    | Some svc \<Rightarrow> GetTenantRateLimit svc tenantID)
      in if rlErr then (storeUnavailable, store)
         else
           let tRPS = (if tRPS \<le> 0 then tenantRPS defaults else tRPS);
               tTPM = (if tTPM \<le> 0 then tenantTPM defaults else tTPM);
               ((allowed, retrySec), store) = CheckTenant lib now store tenantID tRPS
           in if \<not> allowed then ((3, retrySec, ''tenant_quota_exceeded''), store)
              else
                let (modelTPM, mErr) = (case svc of None \<Rightarrow> (0, False)
                      | Some svc \<Rightarrow> if modelName = '''' then (0, False)
                                    else GetTenantModelRateLimit svc tenantID modelName)
                in if mErr then (storeUnavailable, store)
                   else
                     let (userModelTPM, uErr) = (case svc of None \<Rightarrow> (0, False)
                           | Some svc \<Rightarrow> if modelName = '''' \<or> userID = '''' then (0, False)
                                         else GetUserModelRateLimit svc tenantID userID modelName)
                     in if uErr then (storeUnavailable, store)
                        else (rlLatches g store keyID tenantID userID modelName keyTPM userTPM' userModelTPM tTPM modelTPM,
                              store))"

definition rateLimitCheckInternal :: "'l rateLib \<Rightarrow> int \<Rightarrow> quotaGlobals \<Rightarrow> rateLimitService option \<Rightarrow>
    'l RateLimiterStore \<Rightarrow> string \<Rightarrow> string \<Rightarrow> string \<Rightarrow> string \<Rightarrow> string \<Rightarrow> gwDecision \<times> 'l RateLimiterStore" where
  "rateLimitCheckInternal lib now g svc store keyID tenantID userID svcIdent modelName =
     (if svc = None \<and> (keyID \<noteq> '''' \<or> tenantID \<noteq> '''' \<or> userID \<noteq> '''') then (storeUnavailable, store)
      else if keyID = '''' \<and> tenantID = '''' \<and> userID = '''' then rlKeyless lib now g svc store svcIdent
      else case resolveQoSDefaults svc svcIdent of
             Inl _ \<Rightarrow> (storeUnavailable, store)
           | Inr defaults \<Rightarrow>
               (case rlKeyStage lib now svc store keyID of
                  (Inl d, store) \<Rightarrow> (d, store)
                | (Inr keyTPM, store) \<Rightarrow>
                    (case rlUserStage lib now svc store defaults tenantID userID of
                       (Inl d, store) \<Rightarrow> (d, store)
                     | (Inr uTPM, store) \<Rightarrow>
                         if tenantID = '''' then (gwAllow, store)
                         else rlTenantStage lib now g svc store defaults keyID tenantID userID modelName keyTPM uTPM)))"

subsection \<open>Key validation\<close>

record ApiKeyEntry =
  KeyID :: string
  KeyTenantID :: string
  AllowedModels :: "string list"
  ExpiresAt :: "int option"

datatype validateError = ErrInvalidKey | StoreCannotAnswer

text \<open>Returns (decision, tenant, key, model, error code); \<open>now\<close> is the clock.\<close>

definition validateAPIKeyInternal :: "(string \<Rightarrow> validateError + ApiKeyEntry) \<Rightarrow> int \<Rightarrow> string \<Rightarrow> string \<Rightarrow>
    int \<times> string \<times> string \<times> string \<times> string" where
  "validateAPIKeyInternal ValidateAPIKey now rawKey modelName =
     (if rawKey = '''' then (1, '''', '''', '''', ''invalid_api_key'')
      else case ValidateAPIKey rawKey of
             Inl ErrInvalidKey \<Rightarrow> (1, '''', '''', '''', ''invalid_api_key'')
           | Inl StoreCannotAnswer \<Rightarrow> (4, '''', '''', '''', ''policy_store_unavailable'')
           | Inr entry \<Rightarrow>
               if (case ExpiresAt entry of None \<Rightarrow> False | Some t \<Rightarrow> now > t)
               then (1, '''', '''', '''', ''invalid_api_key'')
               else if AllowedModels entry \<noteq> [] \<and> \<not> list_ex (\<lambda>m. m = modelName) (AllowedModels entry)
               then (2, KeyTenantID entry, KeyID entry, '''', ''model_not_allowed'')
               else (0, KeyTenantID entry, KeyID entry, modelName, ''''))"

subsection \<open>Buckets of a request\<close>

definition quotaReleaseKeysFor :: "string \<Rightarrow> string \<Rightarrow> string \<Rightarrow> string \<Rightarrow> string \<Rightarrow> string list" where
  "quotaReleaseKeysFor tenantID modelName userID keyID svcIdent =
     (if tenantID \<noteq> '''' then
        [tenantID] @
        (if modelName \<noteq> '''' then [modelQuotaKey tenantID modelName] else []) @
        (if userID \<noteq> '''' then
           [UserQuotaKey tenantID userID] @
           (if modelName \<noteq> '''' then [UserModelQuotaKey tenantID userID modelName] else [])
         else [])
      else []) @
     (if keyID \<noteq> '''' then [KeyQuotaKey keyID] else []) @
     (if svcIdent \<noteq> '''' then [VipSharedQuotaKey svcIdent] else [])"

definition mkBucket :: "string \<Rightarrow> int \<Rightarrow> int \<Rightarrow> string \<Rightarrow> quotaBucket" where
  "mkBucket key tpm pct kind = \<lparr>bucketKey = key, bucketTpm = tpm, bucketBurstPct = pct, bucketKind = kind\<rparr>"

text \<open>A bucket exists only when its limit resolved to a positive number without an error.\<close>

definition bucketIf :: "string \<Rightarrow> int \<times> bool \<Rightarrow> int \<Rightarrow> string \<Rightarrow> quotaBucket list" where
  "bucketIf key lim pct kind = (if \<not> snd lim \<and> fst lim > 0 then [mkBucket key (fst lim) pct kind] else [])"

definition quotaBucketsFor :: "rateLimitService option \<Rightarrow> string \<Rightarrow> string \<Rightarrow> string \<Rightarrow> string \<Rightarrow> string \<Rightarrow>
    quotaBucket list" where
  "quotaBucketsFor svc tenantID modelName userID keyID svcIdent =
     (case svc of
        None \<Rightarrow> []
      | Some sv \<Rightarrow>
          let defaults = (case resolveQoSDefaults svc svcIdent of Inl _ \<Rightarrow> noDefaults | Inr d \<Rightarrow> d);
              (_, tTPM, pct, _) = (if tenantID \<noteq> '''' then GetTenantRateLimit sv tenantID else (0, 0, 0, False));
              tTPM = (if tTPM \<le> 0 then tenantTPM defaults else tTPM);
              tenantPart =
                (if tenantID \<noteq> '''' then
                   bucketIf tenantID (tTPM, False) pct ''tenant'' @
                   (if modelName \<noteq> '''' then
                      bucketIf (modelQuotaKey tenantID modelName)
                        (GetTenantModelRateLimit sv tenantID modelName) pct ''tenant_model'' else [])
                 else []);
              userPart =
                (if userID \<noteq> '''' \<and> tenantID \<noteq> '''' then
                   (let (_, _, t, err) = GetUserRateLimit sv tenantID userID;
                        uTPM = (if err then 0 else t);
                        uTPM = (if uTPM \<le> 0 then userTPM defaults else uTPM)
                    in bucketIf (UserQuotaKey tenantID userID) (uTPM, False) pct ''user'') @
                   (if modelName \<noteq> '''' then
                      bucketIf (UserModelQuotaKey tenantID userID modelName)
                        (GetUserModelRateLimit sv tenantID userID modelName) pct ''user_model'' else [])
                 else []);
              keyPart =
                (if keyID \<noteq> '''' then
                   (case GetAPIKeyByID sv keyID of
                      Inr key \<Rightarrow> bucketIf (KeyQuotaKey keyID) (TokensPerMin key, False) pct ''key''
                    | Inl _ \<Rightarrow> [])
                 else []);
              vipPart = (if svcIdent \<noteq> '''' then
                           bucketIf (VipSharedQuotaKey svcIdent) (vipTPM defaults, False) 0 ''service'' else [])
          in tenantPart @ userPart @ keyPart @ vipPart)"

text \<open>
  The identity check of src/pkg/aikey/qos_ladder.go, applied at every configuration write and by
  the claims mapper.
\<close>

definition ValidateQoSIdentity :: "string \<Rightarrow> bool" where
  "ValidateQoSIdentity ident \<longleftrightarrow> \<not> Contains ident ''|'' \<and> \<not> HasReservedScopePrefix ident"

text \<open>The scopes a bucket can have, and the key each is stored under.\<close>

datatype bucketScope =
    ScopeTenant string
  | ScopeTenantModel string string
  | ScopeUser string string
  | ScopeUserModel string string string
  | ScopeKey string
  | ScopeVip string

fun scopeKey :: "bucketScope \<Rightarrow> string" where
  "scopeKey (ScopeTenant t) = t"
| "scopeKey (ScopeTenantModel t m) = modelQuotaKey t m"
| "scopeKey (ScopeUser t u) = UserQuotaKey t u"
| "scopeKey (ScopeUserModel t u m) = UserModelQuotaKey t u m"
| "scopeKey (ScopeKey k) = KeyQuotaKey k"
| "scopeKey (ScopeVip v) = VipSharedQuotaKey v"

fun scopeOk :: "bucketScope \<Rightarrow> bool" where
  "scopeOk (ScopeTenant t) = ValidateQoSIdentity t"
| "scopeOk (ScopeTenantModel t m) = ValidateQoSIdentity t"
| "scopeOk (ScopeUser t u) = ValidateQoSIdentity t"
| "scopeOk (ScopeUserModel t u m) = (ValidateQoSIdentity t \<and> ValidateQoSIdentity u)"
| "scopeOk (ScopeKey k) = True"
| "scopeOk (ScopeVip v) = True"

subsection \<open>Reservation\<close>

text \<open>
  The ladder calls the store through four operations: a firm reservation on a bucket, an elastic
  one, a release and a trim. The loops below take them as arguments, so that what is shown of a
  loop rests on what the store promises (locale \<open>claim_api\<close>) and not on how it is built.
  \<open>taken\<close> is what earlier buckets hold, in order.
\<close>

fun reserveLoop :: "('s \<Rightarrow> quotaBucket \<Rightarrow> int \<Rightarrow> (bool \<times> int \<times> int) \<times> 's) \<Rightarrow>
    ('s \<Rightarrow> string \<Rightarrow> int \<Rightarrow> int \<Rightarrow> 's) \<Rightarrow> string \<Rightarrow> int \<Rightarrow> quotaBucket list \<Rightarrow> quotaBucket list \<Rightarrow> int \<Rightarrow>
    's \<Rightarrow> aiResvLedger \<Rightarrow> (bool \<times> int \<times> int) \<times> 's \<times> aiResvLedger" where
  "reserveLoop reserve release svcIdent want [] taken resEpoch s ledger = ((True, 0, resEpoch), s, ledger)"
| "reserveLoop reserve release svcIdent want (b # bs) taken resEpoch s ledger =
     (case reserve s b want of
        ((bAllowed, bRetry, bEpoch), s) \<Rightarrow>
          if \<not> bAllowed
          then ((False, bRetry, 0), fold (\<lambda>t s. release s (bucketKey t) want resEpoch) taken s, ledger)
          else reserveLoop reserve release svcIdent want bs (taken @ [b])
                 (if resEpoch = 0 then bEpoch else resEpoch) s
                 (if bEpoch \<noteq> 0 then noteReservedBucket ledger svcIdent b else ledger))"

definition tokenQuotaReserveInternal :: "quotaGlobals \<Rightarrow> rateLimitService option \<Rightarrow> 'l RateLimiterStore \<Rightarrow>
    aiResvLedger \<Rightarrow> string \<Rightarrow> string \<Rightarrow> string \<Rightarrow> string \<Rightarrow> string \<Rightarrow> int \<Rightarrow>
    (bool \<times> int \<times> int) \<times> 'l RateLimiterStore \<times> aiResvLedger" where
  "tokenQuotaReserveInternal g svc store ledger tenantID modelName userID keyID svcIdent want =
     (if want \<le> 0 \<or> (tenantID = '''' \<and> svcIdent = '''') then ((True, 0, 0), store, ledger)
      else let bs = quotaBucketsFor svc tenantID modelName userID keyID svcIdent
           in if bs = [] then ((True, 0, 0), store, ledger)
              else reserveLoop (\<lambda>s b w. ReserveTokens g s (bucketKey b) w (bucketTpm b) (bucketBurstPct b))
                     ReleaseReservation svcIdent want bs [] 0 store ledger)"

definition tokenQuotaReleaseInternal :: "'l RateLimiterStore \<Rightarrow> string \<Rightarrow> string \<Rightarrow> string \<Rightarrow> string \<Rightarrow> string \<Rightarrow>
    int \<Rightarrow> int \<Rightarrow> 'l RateLimiterStore" where
  "tokenQuotaReleaseInternal store tenantID modelName userID keyID svcIdent reservedAmt resEpoch =
     (if reservedAmt \<le> 0 then store
      else fold (\<lambda>k s. ReleaseReservation s k reservedAmt resEpoch)
             (quotaReleaseKeysFor tenantID modelName userID keyID svcIdent) store)"

datatype resvClamp = resvClampNone | resvClampBudget | resvClampBurst

text \<open>
  The elastic ladder: \<open>left\<close> is what remains of the elastic part, \<open>taken\<close> pairs each earlier
  bucket with what it granted. The answer of the loop is either the refusal's retry or the epoch,
  the remaining elastic part, the grants and whether some bucket could never hold the request.
\<close>

fun elasticLoop :: "quotaGlobals \<Rightarrow> ('s \<Rightarrow> quotaBucket \<Rightarrow> int \<Rightarrow> int \<Rightarrow> (bool \<times> int \<times> int \<times> int) \<times> 's) \<Rightarrow>
    ('s \<Rightarrow> string \<Rightarrow> int \<Rightarrow> int \<Rightarrow> 's) \<Rightarrow> string \<Rightarrow> int \<Rightarrow> int \<Rightarrow> quotaBucket list \<Rightarrow>
    (quotaBucket \<times> int) list \<Rightarrow> int \<Rightarrow> bool \<Rightarrow> int \<Rightarrow> 's \<Rightarrow> aiResvLedger \<Rightarrow>
    (int + int \<times> int \<times> (quotaBucket \<times> int) list \<times> bool) \<times> 's \<times> aiResvLedger" where
  "elasticLoop g reserveE release svcIdent firm elastic [] taken left overBurst resEpoch s ledger =
     (Inr (resEpoch, left, taken, overBurst), s, ledger)"
| "elasticLoop g reserveE release svcIdent firm elastic (b # bs) taken left overBurst resEpoch s ledger =
     (let bmax = BurstTokens g (bucketTpm b) (bucketBurstPct b);
          overBurst = (if bmax > 0 \<and> i64 (firm + elastic) > bmax then True else overBurst)
      in case reserveE s b firm left of
           ((bAllowed, bRetry, bEpoch, bGranted), s) \<Rightarrow>
             if \<not> bAllowed
             then (Inl bRetry, fold (\<lambda>(t, h) s. release s (bucketKey t) h resEpoch) taken s, ledger)
             else elasticLoop g reserveE release svcIdent firm elastic bs (taken @ [(b, bGranted)])
                    (min left (max (i64 (bGranted - firm)) 0)) overBurst
                    (if resEpoch = 0 then bEpoch else resEpoch) s
                    (if bEpoch \<noteq> 0 then noteReservedBucket ledger svcIdent b else ledger))"

text \<open>The pass that brings every bucket down to the granted total.\<close>

definition levelDown :: "('s \<Rightarrow> string \<Rightarrow> int \<Rightarrow> int \<Rightarrow> 's) \<Rightarrow> ('s \<Rightarrow> string \<Rightarrow> int \<Rightarrow> int \<Rightarrow> 's) \<Rightarrow> int \<Rightarrow> int \<Rightarrow>
    (quotaBucket \<times> int) list \<Rightarrow> 's \<Rightarrow> 's" where
  "levelDown release trim granted resEpoch =
     fold (\<lambda>(b, h) s. if h > granted then
                        (if granted = 0 then release s (bucketKey b) h resEpoch
                         else trim s (bucketKey b) (i64 (h - granted)) resEpoch)
                      else s)"

definition elasticLadder :: "quotaGlobals \<Rightarrow> ('s \<Rightarrow> quotaBucket \<Rightarrow> int \<Rightarrow> int \<Rightarrow> (bool \<times> int \<times> int \<times> int) \<times> 's) \<Rightarrow>
    ('s \<Rightarrow> string \<Rightarrow> int \<Rightarrow> int \<Rightarrow> 's) \<Rightarrow> ('s \<Rightarrow> string \<Rightarrow> int \<Rightarrow> int \<Rightarrow> 's) \<Rightarrow> string \<Rightarrow> int \<Rightarrow> int \<Rightarrow>
    quotaBucket list \<Rightarrow> 's \<Rightarrow> aiResvLedger \<Rightarrow>
    (bool \<times> int \<times> int \<times> int \<times> resvClamp) \<times> 's \<times> aiResvLedger" where
  "elasticLadder g reserveE release trim svcIdent firm elastic bs s ledger =
     (case elasticLoop g reserveE release svcIdent firm elastic bs [] elastic False 0 s ledger of
        (Inl bRetry, s, ledger) \<Rightarrow> ((False, bRetry, 0, 0, resvClampNone), s, ledger)
      | (Inr (resEpoch, left, taken, overBurst), s, ledger) \<Rightarrow>
          let granted = i64 (firm + left);
              s = levelDown release trim granted resEpoch taken s;
              why = (if left < elastic then (if overBurst then resvClampBurst else resvClampBudget)
                     else resvClampNone)
          in if granted = 0 then ((True, 0, 0, 0, why), s, ledger)
             else ((True, 0, resEpoch, granted, why), s, ledger))"

definition tokenQuotaReserveElasticReason :: "quotaGlobals \<Rightarrow> rateLimitService option \<Rightarrow> 'l RateLimiterStore \<Rightarrow>
    aiResvLedger \<Rightarrow> string \<Rightarrow> string \<Rightarrow> string \<Rightarrow> string \<Rightarrow> string \<Rightarrow> int \<Rightarrow> int \<Rightarrow>
    (bool \<times> int \<times> int \<times> int \<times> resvClamp) \<times> 'l RateLimiterStore \<times> aiResvLedger" where
  "tokenQuotaReserveElasticReason g svc store ledger tenantID modelName userID keyID svcIdent firm elastic =
     (let firm = (if firm < 0 then 0 else firm)
      in if elastic \<le> 0 then
           (case tokenQuotaReserveInternal g svc store ledger tenantID modelName userID keyID svcIdent firm of
              ((allowed, retrySecs, resEpoch), store, ledger) \<Rightarrow>
                ((allowed, retrySecs, resEpoch, if allowed \<and> resEpoch \<noteq> 0 then firm else 0, resvClampNone),
                 store, ledger))
         else if tenantID = '''' \<and> svcIdent = '''' then ((True, 0, 0, 0, resvClampNone), store, ledger)
         else let bs = quotaBucketsFor svc tenantID modelName userID keyID svcIdent
              in if bs = [] then ((True, 0, 0, 0, resvClampNone), store, ledger)
                 else elasticLadder g
                        (\<lambda>s b f l. ReserveTokensElastic g s (bucketKey b) f l (bucketTpm b) (bucketBurstPct b))
                        ReleaseReservation TrimReservation svcIdent firm elastic bs store ledger)"

subsection \<open>Settlement\<close>

text \<open>The charge pass over the resolving buckets, carrying whether the primary bucket was charged.\<close>

fun settleLoop :: "quotaGlobals \<Rightarrow> int \<Rightarrow> string \<Rightarrow> quotaBucket list \<Rightarrow> bool \<Rightarrow> int \<Rightarrow> bool \<Rightarrow>
    'l RateLimiterStore \<Rightarrow> bool \<times> int \<times> bool \<times> 'l RateLimiterStore" where
  "settleLoop g count primaryKey [] allowed retrySecs settledPrimary s = (allowed, retrySecs, settledPrimary, s)"
| "settleLoop g count primaryKey (b # bs) allowed retrySecs settledPrimary s =
     (case SettleTokens g s (bucketKey b) count 0 0 (bucketTpm b) (bucketBurstPct b) of
        ((bAllowed, bRetry), s) \<Rightarrow>
          settleLoop g count primaryKey bs (bAllowed \<and> allowed)
            (if bAllowed then retrySecs else max retrySecs bRetry)
            (settledPrimary \<or> bucketKey b = primaryKey) s)"

definition tokenQuotaConsumeInternal :: "quotaGlobals \<Rightarrow> rateLimitService option \<Rightarrow> 'l RateLimiterStore \<Rightarrow>
    string \<Rightarrow> string \<Rightarrow> string \<Rightarrow> string \<Rightarrow> string \<Rightarrow> int \<Rightarrow> int \<Rightarrow> int \<Rightarrow> (bool \<times> int) \<times> 'l RateLimiterStore" where
  "tokenQuotaConsumeInternal g svc store tenantID modelName userID keyID svcIdent count reservedAmt resEpoch =
     (if tenantID = '''' \<and> svcIdent = '''' then ((True, 0), store)
      else
        let bs = quotaBucketsFor svc tenantID modelName userID keyID svcIdent
        in if reservedAmt \<le> 0 \<and> (count \<le> 0 \<or> bs = []) then ((True, 0), store)
           else
             let store = tokenQuotaReleaseInternal store tenantID modelName userID keyID svcIdent reservedAmt resEpoch;
                 primaryKey = (if tenantID = '''' then VipSharedQuotaKey svcIdent else tenantID);
                 (allowed, retrySecs, settledPrimary, store) = settleLoop g count primaryKey bs True 0 False store
             in if settledPrimary then ((allowed, retrySecs), store)
                else let ((pAllowed, pRetry), store) = SettleTokens g store primaryKey count 0 0 0 0
                     in ((pAllowed \<and> allowed, if pAllowed then retrySecs else max retrySecs pRetry), store))"

subsection \<open>The default reservation and the reservation entry point\<close>

definition AIDefaultReservationToRule :: "string \<Rightarrow> nat option" where
  "AIDefaultReservationToRule v =
     (if v = '''' \<or> v = ''inherit'' then Some 0
      else if v = ''off'' then Some 1
      else if v = ''on'' then Some 2
      else None)"

definition AIDefaultReservationFromRule :: "nat \<Rightarrow> string" where
  "AIDefaultReservationFromRule m = (if m = 1 then ''off'' else if m = 2 then ''on'' else '''')"

definition AIDefaultMaxTokensBuiltin :: int where "AIDefaultMaxTokensBuiltin = 512"
definition AIDefaultMaxTokensMax :: int where "AIDefaultMaxTokensMax = 100000000"

record aiDefaultResv =
  resvMode :: nat
  resvMaxTokens :: int

record LbServiceResv =
  AIDefaultReservation :: string
  AIDefaultReservationPresent :: bool
  AIDefaultMaxTokens :: int
  AIDefaultMaxTokensPresent :: bool

text \<open>\<open>eRule\<close> is the stored rule's default reservation on a replace; \<open>None\<close> results are refusals.\<close>

definition aiDefaultResvResolve :: "aiDefaultResv option \<Rightarrow> LbServiceResv \<Rightarrow> aiDefaultResv option" where
  "aiDefaultResvResolve eRule serv =
     (case AIDefaultReservationToRule (AIDefaultReservation serv) of
        None \<Rightarrow> None
      | Some mode \<Rightarrow>
          if AIDefaultMaxTokens serv > AIDefaultMaxTokensMax then None
          else case eRule of
                 None \<Rightarrow> Some \<lparr>resvMode = mode, resvMaxTokens = AIDefaultMaxTokens serv\<rparr>
               | Some e \<Rightarrow>
                   Some \<lparr>resvMode = (if \<not> AIDefaultReservationPresent serv \<and> AIDefaultReservation serv = ''''
                                     then resvMode e else mode),
                         resvMaxTokens = (if \<not> AIDefaultMaxTokensPresent serv \<and> AIDefaultMaxTokens serv = 0
                                          then resvMaxTokens e else AIDefaultMaxTokens serv)\<rparr>)"

text \<open>\<open>strconv.ParseUint(s, 10, 32)\<close>: decimal digits only, within 32 bits.\<close>

definition ParseUint32 :: "string \<Rightarrow> int option" where
  "ParseUint32 s =
     (if s = '''' then None
      else case digits_val 0 s of
             None \<Rightarrow> None
           | Some v \<Rightarrow> if v < 4294967296 then Some v else None)"

definition inForce :: "(string \<Rightarrow> string) \<Rightarrow> aiDefaultResv \<Rightarrow> bool \<times> int \<times> string \<times> string" where
  "inForce Getenv c =
     (let (on, modeSrc) =
            (if resvMode c = 2 then (True, ''rule'')
             else if resvMode c = 1 then (False, ''rule'')
             else if Getenv ''LLB_AI_DEFAULT_RESERVATION'' = ''on'' then (True, ''env'')
             else if Getenv ''LLB_AI_DEFAULT_RESERVATION'' = ''off'' then (False, ''env'')
             else (False, ''default''));
          (tokens, tokensSrc) =
            (if resvMaxTokens c \<noteq> 0 then (resvMaxTokens c, ''rule'')
             else case ParseUint32 (Getenv ''LLB_AI_DEFAULT_MAX_TOKENS'') of
                    None \<Rightarrow> (AIDefaultMaxTokensBuiltin, ''default'')
                  | Some v \<Rightarrow> if v \<ge> 1 \<and> v \<le> AIDefaultMaxTokensMax then (v, ''env'')
                              else (AIDefaultMaxTokensBuiltin, ''default''))
      in (on, if on then tokens else 0, modeSrc, tokensSrc))"

definition tokensInForce :: "(string \<Rightarrow> string) \<Rightarrow> aiDefaultResv \<Rightarrow> int" where
  "tokensInForce Getenv c = (case inForce Getenv c of (_, tokens, _, _) \<Rightarrow> tokens)"

text \<open>Per service, the counts of clamped default reservations: (budget, burst), as uint64.\<close>

type_synonym clampCounts = "string \<Rightarrow> int \<times> int"

definition noteReservationClamped :: "clampCounts \<Rightarrow> string \<Rightarrow> resvClamp \<Rightarrow> clampCounts" where
  "noteReservationClamped m svcIdent why =
     (case why of
        resvClampNone \<Rightarrow> m
      | resvClampBudget \<Rightarrow> m(svcIdent := ((fst (m svcIdent) + 1) mod 18446744073709551616, snd (m svcIdent)))
      | resvClampBurst \<Rightarrow> m(svcIdent := (fst (m svcIdent), (snd (m svcIdent) + 1) mod 18446744073709551616)))"

definition reservationClampedCount :: "clampCounts \<Rightarrow> string \<Rightarrow> resvClamp \<Rightarrow> int" where
  "reservationClampedCount m svcIdent why =
     (case why of resvClampNone \<Rightarrow> 0 | resvClampBudget \<Rightarrow> fst (m svcIdent) | resvClampBurst \<Rightarrow> snd (m svcIdent))"

text \<open>The value an int takes as a C int.\<close>

definition c_int :: "int \<Rightarrow> int" where
  "c_int x = (x + 2147483648) mod 4294967296 - 2147483648"

record 'l gateState =
  gateStore :: "'l RateLimiterStore"
  gateLedger :: aiResvLedger
  gateClamped :: clampCounts

text \<open>
  \<open>llb_ai_token_quota_reserve\<close>: the answer is the return code, the reservation's epoch, the
  granted amount and, on a refusal, the decision for the client.
\<close>

definition llb_ai_token_quota_reserve :: "quotaGlobals \<Rightarrow> rateLimitService option \<Rightarrow> 'l gateState \<Rightarrow>
    string \<Rightarrow> string \<Rightarrow> string \<Rightarrow> string \<Rightarrow> string \<Rightarrow> int \<Rightarrow> int \<Rightarrow> int \<Rightarrow>
    (int \<times> int \<times> int \<times> gwDecision option) \<times> 'l gateState" where
  "llb_ai_token_quota_reserve g svc st tenant modelName userID keyID service promptEst maxTokens defaultTokens =
     (let want = (if promptEst > 0 then promptEst else 0) + (if maxTokens > 0 then maxTokens else 0);
          elastic = (if maxTokens \<le> 0 \<and> defaultTokens > 0 then defaultTokens else 0)
      in if (want \<le> 0 \<and> elastic \<le> 0) \<or> (tenant = '''' \<and> service = '''') then ((0, 0, 0, None), st)
         else case tokenQuotaReserveElasticReason g svc (gateStore st) (gateLedger st)
                     tenant modelName userID keyID service want elastic of
                ((allowed, retrySecs, epoch, held, clamped), store, ledger) \<Rightarrow>
                  if \<not> allowed
                  then ((-1, 0, 0, Some (3, c_int retrySecs, ''token_quota_would_exceed'')),
                        st\<lparr>gateStore := store, gateLedger := ledger\<rparr>)
                  else ((0, epoch, c_int held, None),
                        st\<lparr>gateStore := store, gateLedger := ledger,
                           gateClamped := noteReservationClamped (gateClamped st) service clamped\<rparr>))"

section \<open>Lemmas\<close>

subsection \<open>The ladder over any claim store\<close>

context claim_api
begin

text \<open>
  A firm ladder either holds \<open>want\<close> on every bucket or leaves every bucket's holdings as they were.
\<close>

lemma reserveLoop_atomic:
  assumes "inv (length bs) s" and "\<And>b. b \<in> set bs \<Longrightarrow> fits s b" and "0 < want"
    and "distinct (map bucketKey (taken @ bs))"
    and "held s = claimed h (map (\<lambda>b. (bucketKey b, want)) taken)"
    and "resEpoch = (if taken = [] then 0 else tag)" and "\<And>k. 0 \<le> fst (h k) \<and> 0 \<le> snd (h k)"
    and "reserveLoop reserve release svcIdent want bs taken resEpoch s ledger = ((a, r, ep), s', ledger')"
  shows "inv 0 s' \<and> (if a then ep = (if taken @ bs = [] then 0 else tag) \<and>
                 held s' = claimed h (map (\<lambda>b. (bucketKey b, want)) (taken @ bs))
          else ep = 0 \<and> held s' = h)"
  using assms
proof (induction bs arbitrary: taken resEpoch s ledger)
  case Nil
  then show ?case by auto
next
  case (Cons b bs)
  obtain a1 r1 ep1 s1 where R: "reserve s b want = ((a1, r1, ep1), s1)"
    by (metis prod_cases3 surj_pair)
  have law: "inv (length bs) s1 \<and> fits s1 = fits s \<and>
      (if a1 then ep1 = tag \<and> held s1 = bump (held s) (bucketKey b) want else held s1 = held s)"
    using reserve_law [OF _ _ Cons.prems(3) R] Cons.prems(1,2) by simp
  show ?case
  proof (cases a1)
    case True
    have nk: "bucketKey b \<notin> fst ` set (map (\<lambda>b. (bucketKey b, want)) taken)"
      using Cons.prems(4) by (auto simp: image_image)
    have h1: "held s1 = claimed h (map (\<lambda>b. (bucketKey b, want)) (taken @ [b]))"
      using law True claimed_snoc [OF nk, of want h] Cons.prems(3,5) by simp
    have "reserveLoop reserve release svcIdent want bs (taken @ [b]) tag s1
        (if ep1 \<noteq> 0 then noteReservedBucket ledger svcIdent b else ledger) = ((a, r, ep), s', ledger')"
      using Cons.prems(6,8) R True law tag_pos [OF Cons.prems(1)] by (auto split: if_splits)
    from Cons.IH [OF _ _ Cons.prems(3) _ h1 _ Cons.prems(7) this] law Cons.prems(2,4)
    show ?thesis by auto
  next
    case False
    let ?kv = "map (\<lambda>b. (bucketKey b, want)) taken"
    have E: "fold (\<lambda>t s. release s (bucketKey t) want resEpoch) taken s1 =
        fold (\<lambda>(k, w) s. release s k w tag) ?kv s1"
      using Cons.prems(6) by (cases "taken = []") (simp_all add: fold_map comp_def)
    have "inv (length bs) (fold (\<lambda>(k, w) s. release s k w tag) ?kv s1)
        \<and> held (fold (\<lambda>(k, w) s. release s k w tag) ?kv s1) = h"
      using release_all [of "length bs" s1 h ?kv] law False Cons.prems(3,4,5,7) by (auto simp: comp_def)
    then show ?thesis using Cons.prems(8) R False E inv_weaken by auto
  qed
qed

text \<open>The elastic ladder: what the loop leaves on each bucket, before it is levelled.\<close>

lemma elasticLoop_atomic:
  assumes "inv (length bs) s" and "\<And>b. b \<in> set bs \<Longrightarrow> fits s b" and "0 \<le> firm" and "0 \<le> left"
    and "firm + left < 4611686018427387904" and "distinct (map (bucketKey \<circ> fst) taken @ map bucketKey bs)"
    and "held s = claimed h (map (\<lambda>p. (bucketKey (fst p), snd p)) taken)" 
    and "\<forall>p \<in> set taken. firm + left \<le> snd p \<and> snd p < 4611686018427387904"
    and "resEpoch = (if \<forall>p \<in> set taken. snd p = 0 then 0 else tag)"
    and "\<And>k. 0 \<le> fst (h k) \<and> 0 \<le> snd (h k)"
    and "elasticLoop g reserveE release svcIdent firm elastic bs taken left ob resEpoch s ledger = (res, s', ledger')"
  shows "case res of
           Inl r \<Rightarrow> held s' = h \<and> inv 0 s'
         | Inr (ep, left', taken', ob') \<Rightarrow>
             inv 0 s' \<and> map fst taken' = map fst taken @ bs \<and> 0 \<le> left' \<and> left' \<le> left \<and>
             held s' = claimed h (map (\<lambda>p. (bucketKey (fst p), snd p)) taken') \<and>
             (\<forall>p \<in> set taken'. firm + left' \<le> snd p \<and> snd p < 4611686018427387904) \<and>
             ep = (if \<forall>p \<in> set taken'. snd p = 0 then 0 else tag)"
  using assms
proof (induction bs arbitrary: taken left ob resEpoch s ledger)
  case Nil
  then show ?case by auto
next
  case (Cons b bs)
  obtain a1 r1 ep1 m s1 where R: "reserveE s b firm left = ((a1, r1, ep1, m), s1)"
    by (metis prod_cases4 surj_pair)
  have law: "inv (length bs) s1 \<and> fits s1 = fits s \<and>
      (if a1 then firm \<le> m \<and> m \<le> firm + left \<and>
         (if m = 0 then ep1 = 0 \<and> held s1 = held s else ep1 = tag \<and> held s1 = bump (held s) (bucketKey b) m)
       else held s1 = held s)"
    using reserveE_law [OF _ _ Cons.prems(3,4) R] Cons.prems(1,2) by simp
  show ?case
  proof (cases a1)
    case True
    let ?kv = "map (\<lambda>p. (bucketKey (fst p), snd p)) taken"
    have m: "firm \<le> m" "m \<le> firm + left" using law True by auto
    have "i64 (m - firm) = m - firm"
      using m Cons.prems(3,5) by (intro i64_id) (simp add: in64_def)
    then have left1: "min left (max (i64 (m - firm)) 0) = m - firm" using m by simp
    have nk: "bucketKey b \<notin> fst ` set ?kv"
      using Cons.prems(6) by (auto simp: image_image)
    have h1: "held s1 = claimed h (map (\<lambda>p. (bucketKey (fst p), snd p)) (taken @ [(b, m)]))"
      using law True claimed_snoc [OF nk, of m h] claimed_snoc_zero [OF nk, of h] Cons.prems(7)
      by (cases "m = 0") simp_all
    let ?ep = "if resEpoch = 0 then ep1 else resEpoch"
    have ep: "?ep = (if \<forall>p \<in> set (taken @ [(b, m)]). snd p = 0 then 0 else tag)"
      using Cons.prems(9) law True tag_pos [OF Cons.prems(1)] by auto
    obtain ob1 l1 where run: "elasticLoop g reserveE release svcIdent firm elastic bs (taken @ [(b, m)]) (m - firm)
        ob1 ?ep s1 l1 = (res, s', ledger')"
      using Cons.prems(11) R True left1 by (auto simp: Let_def)
    have ge: "\<forall>p \<in> set (taken @ [(b, m)]). firm + (m - firm) \<le> snd p \<and> snd p < 4611686018427387904"
      using Cons.prems(5,8) m by fastforce
    have "case res of
           Inl r \<Rightarrow> held s' = h \<and> inv 0 s'
         | Inr (ep, left', taken', ob') \<Rightarrow>
             inv 0 s' \<and> map fst taken' = map fst (taken @ [(b, m)]) @ bs \<and> 0 \<le> left' \<and> left' \<le> m - firm \<and>
             held s' = claimed h (map (\<lambda>p. (bucketKey (fst p), snd p)) taken') \<and>
             (\<forall>p \<in> set taken'. firm + left' \<le> snd p \<and> snd p < 4611686018427387904) \<and>
             ep = (if \<forall>p \<in> set taken'. snd p = 0 then 0 else tag)"
      using law m Cons.prems(2-6)
      by (intro Cons.IH [OF _ _ _ _ _ _ h1 ge ep Cons.prems(10) run]) auto
    then show ?thesis using m by (cases res) (simp_all add: case_prod_beta)
  next
    case False
    let ?kv = "map (\<lambda>p. (bucketKey (fst p), snd p)) taken"
    have nn: "\<forall>p \<in> set ?kv. 0 \<le> snd p" using Cons.prems(3,4,8) by fastforce
    have E: "fold (\<lambda>(t, w) s. release s (bucketKey t) w resEpoch) taken s1 =
        fold (\<lambda>(k, w) s. release s k w tag) ?kv s1"
    proof (cases "\<forall>p \<in> set taken. snd p = 0")
      case True
      have "fold (\<lambda>x s. release s (bucketKey (fst x)) (snd x) ep) ts s0 = s0"
        if "\<forall>p \<in> set ts. snd p = 0" for ts :: "(quotaBucket \<times> int) list" and s0 ep
        using that by (induction ts arbitrary: s0) (auto simp: release_zero)
      then show ?thesis using True by (simp add: fold_map comp_def case_prod_unfold)
    next
      case False
      then show ?thesis using Cons.prems(9) by (auto simp: fold_map comp_def case_prod_unfold)
    qed
    have "inv (length bs) (fold (\<lambda>(k, w) s. release s k w tag) ?kv s1)
        \<and> held (fold (\<lambda>(k, w) s. release s k w tag) ?kv s1) = h"
      using release_all [of "length bs" s1 h ?kv] law False Cons.prems(6,7,10) nn by (auto simp: comp_def)
    then show ?thesis using Cons.prems(11) R False E inv_weaken by (auto simp: Let_def)
  qed
qed

text \<open>Levelling: every bucket ends with exactly the granted amount.\<close>

lemma levelDown_held:
  assumes "inv n s" and "held s = claimed h (map (\<lambda>p. (bucketKey (fst p), snd p)) taken)"
    and "distinct (map (bucketKey \<circ> fst) taken)" and "0 \<le> granted"
    and "\<forall>p \<in> set taken. granted \<le> snd p \<and> snd p < 4611686018427387904"
    and "\<And>k. 0 \<le> fst (h k) \<and> 0 \<le> snd (h k)"
  shows "held (levelDown release trim granted tag taken s) =
           claimed h (map (\<lambda>p. (bucketKey (fst p), granted)) taken)
         \<and> inv n (levelDown release trim granted tag taken s)"
  using assms
proof (induction taken arbitrary: s h)
  case Nil
  then show ?case by (simp add: levelDown_def)
next
  case (Cons p taken)
  obtain b m where p: "p = (b, m)" by (cases p)
  let ?k = "bucketKey b"
  have nk: "?k \<notin> fst ` set (map (\<lambda>p. (bucketKey (fst p), w p)) taken)" for w :: "quotaBucket \<times> int \<Rightarrow> int"
    using Cons.prems(3) by (auto simp: p image_image)
  have m: "granted \<le> m" "m < 4611686018427387904" using Cons.prems(5) by (auto simp: p)
  define h1 where "h1 = h(?k := (if granted = 0 then h ?k else (fst (h ?k) + granted, snd (h ?k) + 1)))"
  define s1 where "s1 = (if m > granted then
      (if granted = 0 then release s ?k m tag else trim s ?k (i64 (m - granted)) tag) else s)"
  have none: "map_of (map (\<lambda>p. (bucketKey (fst p), w p)) taken) ?k = None" for w :: "quotaBucket \<times> int \<Rightarrow> int"
    by (rule map_of_eq_None_iff [THEN iffD2], rule nk)
  have hk: "held s ?k = (if m = 0 then h ?k else (fst (h ?k) + m, snd (h ?k) + 1))"
    using Cons.prems(2) by (simp add: p claimed_def)
  have i: "i64 (m - granted) = m - granted"
    using m Cons.prems(4) by (intro i64_id) (simp add: in64_def)
  have upd: "(held s)(?k := h1 ?k) = claimed h1 (map (\<lambda>p. (bucketKey (fst p), snd p)) taken)"
    using Cons.prems(2) none [of snd] by (auto simp: p claimed_def h1_def fun_eq_iff split: option.split)
  have "inv n s1 \<and> held s1 = (held s)(?k := h1 ?k)"
  proof -
    consider (same) "m = granted" | (zero) "m > granted" "granted = 0" | (pos) "m > granted" "granted > 0"
      using m Cons.prems(4) by linarith
    then show ?thesis
    proof cases
      case same
      with Cons.prems(1) hk show ?thesis by (auto simp: s1_def h1_def fun_upd_idem)
    next
      case zero
      with release_law [OF Cons.prems(1) _ _, of m ?k "fst (h ?k)" "snd (h ?k)"] hk Cons.prems(6) [of ?k]
      show ?thesis by (simp add: s1_def h1_def)
    next
      case pos
      with trim_law [OF Cons.prems(1), of "m - granted" ?k "fst (h ?k) + granted" "snd (h ?k) + 1"]
        hk i Cons.prems(6) [of ?k]
      show ?thesis by (simp add: s1_def h1_def)
    qed
  qed
  then have s1: "inv n s1" "held s1 = claimed h1 (map (\<lambda>p. (bucketKey (fst p), snd p)) taken)"
    using upd by simp_all
  have nn: "0 \<le> fst (h1 k) \<and> 0 \<le> snd (h1 k)" for k
    using Cons.prems(4) Cons.prems(6) [of k] Cons.prems(6) [of ?k] by (simp add: h1_def)
  have "claimed h1 (map (\<lambda>p. (bucketKey (fst p), granted)) taken) =
      claimed h (map (\<lambda>p. (bucketKey (fst p), granted)) (p # taken))"
    using none [of "\<lambda>_. granted"] by (auto simp: p claimed_def h1_def fun_eq_iff split: option.split)
  moreover have "levelDown release trim granted tag (p # taken) s = levelDown release trim granted tag taken s1"
    by (simp add: levelDown_def p s1_def)
  ultimately show ?case
    using Cons.IH [OF s1 _ Cons.prems(4) _ nn] Cons.prems(3,5) by (simp add: p comp_def)
qed

text \<open>With no bucket above the granted amount the levelling pass does nothing.\<close>

lemma levelDown_zero:
  assumes "\<forall>p \<in> set taken. snd p \<le> granted"
  shows "levelDown release trim granted ep taken s = s"
  using assms by (induction taken arbitrary: s) (auto simp: levelDown_def)

lemma elasticLadder_atomic:
  assumes "inv (length bs) s" and "\<And>b. b \<in> set bs \<Longrightarrow> fits s b" and "0 \<le> firm" and "0 \<le> elastic"
    and "firm + elastic < 4611686018427387904" and "distinct (map bucketKey bs)" and "bs \<noteq> []"
    and "elasticLadder g reserveE release trim svcIdent firm elastic bs s ledger = ((a, r, ep, granted, why), s', ledger')"
  shows "inv 0 s' \<and>
         (if a then firm \<le> granted \<and> granted \<le> firm + elastic \<and> ep = (if granted = 0 then 0 else tag) \<and>
                 held s' = claimed (held s) (map (\<lambda>b. (bucketKey b, granted)) bs)
          else ep = 0 \<and> granted = 0 \<and> held s' = held s)"
proof -
  obtain res s1 l1 where L: "elasticLoop g reserveE release svcIdent firm elastic bs [] elastic False 0 s ledger = (res, s1, l1)"
    by (metis prod_cases3)
  have nn: "0 \<le> fst (held s k) \<and> 0 \<le> snd (held s k)" for k by (rule held_nonneg [OF assms(1)])
  note A = elasticLoop_atomic [OF assms(1) assms(2) assms(3,4,5) _ _ _ _ nn L]
  show ?thesis
  proof (cases res)
    case (Inl x)
    with A assms(6,8) L show ?thesis by (auto simp: elasticLadder_def)
  next
    case (Inr q)
    obtain ep1 left taken ob where q: "q = (ep1, left, taken, ob)" by (cases q)
    have B: "inv 0 s1" "map fst taken = bs" "0 \<le> left" "left \<le> elastic"
        "held s1 = claimed (held s) (map (\<lambda>p. (bucketKey (fst p), snd p)) taken)"
        "\<forall>p \<in> set taken. firm + left \<le> snd p \<and> snd p < 4611686018427387904" "ep1 = (if \<forall>p \<in> set taken. snd p = 0 then 0 else tag)"
      using A assms(6) by (auto simp: Inr q)
    have dist: "distinct (map (bucketKey \<circ> fst) taken)" using assms(6) B(2) by (simp flip: map_map)
    have i: "i64 (firm + left) = firm + left"
      using B assms(3,5) by (intro i64_id) (simp add: in64_def)
    define s2 where "s2 = levelDown release trim (firm + left) ep1 taken s1"
    have keys: "map (\<lambda>b. (bucketKey b, w)) bs = map (\<lambda>p. (bucketKey (fst p), w)) taken" for w
      using B(2) by (auto simp: comp_def)
    have held2: "held s2 = claimed (held s) (map (\<lambda>b. (bucketKey b, firm + left)) bs) \<and> inv 0 s2"
    proof (cases "\<forall>p \<in> set taken. snd p = 0")
      case True
      with B(3,6) assms(3,7) B(2) have z: "firm + left = 0" by (cases taken) auto
      have s2: "s2 = s1" unfolding s2_def using True z by (intro levelDown_zero) simp
      have eq: "map (\<lambda>p. (bucketKey (fst p), snd p)) taken = map (\<lambda>p. (bucketKey (fst p), 0)) taken"
        using True by simp
      show ?thesis using B(1) by (simp only: s2 B(5) eq keys z)
    next
      case False
      then have "ep1 = tag" by (simp only: B(7) if_False)
      then show ?thesis
        using levelDown_held [OF B(1,5) dist _ B(6) nn] B(3) assms(3) by (simp add: s2_def keys)
    qed
    have "ep1 = tag" if "firm + left \<noteq> 0"
      using that B(2,3,6,7) assms(3,7) by (cases taken) auto
    with held2 B(3,4) assms(8) L show ?thesis
      by (auto simp: elasticLadder_def Inr q Let_def i s2_def split: if_splits)
  qed
qed

end

subsection \<open>Keys\<close>

lemma ValidateQoSIdentity_bar: "ValidateQoSIdentity t \<Longrightarrow> CHR ''|'' \<notin> set t"
  by (simp add: ValidateQoSIdentity_def Contains_char)

text \<open>A validated identity, alone or followed by the delimiter, never starts with a scope prefix.\<close>

lemma valid_not_scoped:
  assumes "ValidateQoSIdentity t" and "p \<in> {''uq:'', ''um:'', ''kq:'', ''v:''}"
  shows "t \<noteq> p @ x" and "t @ ''|'' @ y \<noteq> p @ x"
proof -
  have np: "\<not> prefix p t"
    using assms by (auto simp: ValidateQoSIdentity_def HasReservedScopePrefix_def
        ReservedIdentityScopePrefixes_def HasPrefix_def)
  then show "t \<noteq> p @ x" by auto
  show "t @ ''|'' @ y \<noteq> p @ x"
  proof
    assume eq: "t @ ''|'' @ y = p @ x"
    then obtain us where "t = p @ us \<or> p = t @ us \<and> ''|'' @ y = us @ x"
      unfolding append_eq_append_conv2 by blast
    moreover have "CHR ''|'' \<notin> set p" using assms(2) by auto
    ultimately show False using np by (cases us) auto
  qed
qed

lemma bar_split:
  assumes "CHR ''|'' \<notin> set t" and "CHR ''|'' \<notin> set t'" and "t @ ''|'' @ x = t' @ ''|'' @ x'"
  shows "t = t' \<and> x = x'"
  using delim_split [OF assms(1,2)] assms(3) by simp

lemmas key_defs = modelQuotaKey_def UserQuotaKey_def UserModelQuotaKey_def KeyQuotaKey_def VipSharedQuotaKey_def

lemma plain_not_scoped:
  assumes "ValidateQoSIdentity t"
  shows "t \<noteq> UserQuotaKey t' u" "t \<noteq> UserModelQuotaKey t' u m'" "t \<noteq> KeyQuotaKey k" "t \<noteq> VipSharedQuotaKey v"
    "modelQuotaKey t m \<noteq> UserQuotaKey t' u" "modelQuotaKey t m \<noteq> UserModelQuotaKey t' u m'"
    "modelQuotaKey t m \<noteq> KeyQuotaKey k" "modelQuotaKey t m \<noteq> VipSharedQuotaKey v"
  using valid_not_scoped [OF assms, of "''uq:''"] valid_not_scoped [OF assms, of "''um:''"]
    valid_not_scoped [OF assms, of "''kq:''"] valid_not_scoped [OF assms, of "''v:''"]
  by (simp_all add: key_defs)

lemma plain_inj:
  assumes "ValidateQoSIdentity t" and "ValidateQoSIdentity t'"
  shows "modelQuotaKey t m \<noteq> t'" and "modelQuotaKey t m = modelQuotaKey t' m' \<Longrightarrow> t = t' \<and> m = m'"
  using assms [THEN ValidateQoSIdentity_bar] bar_split [of t t' m m'] by (auto simp: key_defs)

lemma scoped_inj:
  assumes "ValidateQoSIdentity t" and "ValidateQoSIdentity t'"
  shows "UserQuotaKey t u = UserQuotaKey t' u' \<Longrightarrow> t = t' \<and> u = u'"
    and "ValidateQoSIdentity u \<Longrightarrow> ValidateQoSIdentity u' \<Longrightarrow>
           UserModelQuotaKey t u m = UserModelQuotaKey t' u' m' \<Longrightarrow> t = t' \<and> u = u' \<and> m = m'"
  using assms [THEN ValidateQoSIdentity_bar] bar_split [of t t' u u'] bar_split [of u u' m m']
    bar_split [of t t' "u @ ''|'' @ m" "u' @ ''|'' @ m'"] ValidateQoSIdentity_bar
  by (simp_all add: key_defs)

lemma scoped_disjoint:
  "UserQuotaKey t u \<noteq> UserModelQuotaKey t' u' m'" "UserQuotaKey t u \<noteq> KeyQuotaKey k"
  "UserQuotaKey t u \<noteq> VipSharedQuotaKey v" "UserModelQuotaKey t' u' m' \<noteq> KeyQuotaKey k"
  "UserModelQuotaKey t' u' m' \<noteq> VipSharedQuotaKey v" "KeyQuotaKey k \<noteq> VipSharedQuotaKey v"
  by (simp_all add: key_defs)

text \<open>The constructor of a scope can be read off its key.\<close>

definition scopeTag :: "string \<Rightarrow> nat" where
  "scopeTag k = (if prefix ''uq:'' k then 2 else if prefix ''um:'' k then 3 else if prefix ''kq:'' k then 4
     else if prefix ''v:'' k then 5 else if CHR ''|'' \<in> set k then 1 else 0)"

lemma valid_no_prefix:
  assumes "ValidateQoSIdentity t" and "p \<in> {''uq:'', ''um:'', ''kq:'', ''v:''}"
  shows "\<not> prefix p t" and "\<not> prefix p (modelQuotaKey t m)"
  using valid_not_scoped [OF assms] by (auto simp: prefix_def modelQuotaKey_def)

lemma scopeTag_key:
  assumes "scopeOk a"
  shows "scopeTag (scopeKey a) = (case a of ScopeTenant _ \<Rightarrow> 0 | ScopeTenantModel _ _ \<Rightarrow> 1 | ScopeUser _ _ \<Rightarrow> 2
     | ScopeUserModel _ _ _ \<Rightarrow> 3 | ScopeKey _ \<Rightarrow> 4 | ScopeVip _ \<Rightarrow> 5)"
proof (cases a)
  case (ScopeTenant t)
  then show ?thesis
    using assms valid_no_prefix(1) [of t] ValidateQoSIdentity_bar [of t] by (simp add: scopeTag_def)
next
  case (ScopeTenantModel t m)
  then show ?thesis
    using assms valid_no_prefix(2) [of t] by (simp add: scopeTag_def) (simp add: modelQuotaKey_def)
qed (simp_all add: scopeTag_def key_defs)

lemma scopeKey_inj:
  assumes a: "scopeOk a" and b: "scopeOk b" and eq: "scopeKey a = scopeKey b"
  shows "a = b"
proof -
  have tag: "(case a of ScopeTenant _ \<Rightarrow> 0 | ScopeTenantModel _ _ \<Rightarrow> 1 | ScopeUser _ _ \<Rightarrow> 2
     | ScopeUserModel _ _ _ \<Rightarrow> 3 | ScopeKey _ \<Rightarrow> 4 | ScopeVip _ \<Rightarrow> 5) =
    (case b of ScopeTenant _ \<Rightarrow> 0 | ScopeTenantModel _ _ \<Rightarrow> 1 | ScopeUser _ _ \<Rightarrow> 2
     | ScopeUserModel _ _ _ \<Rightarrow> 3 | ScopeKey _ \<Rightarrow> 4 | ScopeVip _ \<Rightarrow> (5::nat))"
    using scopeTag_key [OF a] scopeTag_key [OF b] eq by simp
  show ?thesis
  proof (cases a)
    case (ScopeTenantModel t m)
    with tag obtain t' m' where b': "b = ScopeTenantModel t' m'" by (cases b) simp_all
    with ScopeTenantModel a b eq plain_inj(2) [of t t' m m'] show ?thesis by simp
  next
    case (ScopeUser t u)
    with tag obtain t' u' where b': "b = ScopeUser t' u'" by (cases b) simp_all
    with ScopeUser a b eq scoped_inj(1) [of t t' u u'] show ?thesis by simp
  next
    case (ScopeUserModel t u m)
    with tag obtain t' u' m' where b': "b = ScopeUserModel t' u' m'" by (cases b) simp_all
    with ScopeUserModel a b eq scoped_inj(2) [of t t' u u' m m'] show ?thesis by simp
  qed (use tag eq in \<open>cases b; simp add: key_defs\<close>)+
qed

text \<open>At most one of a key, under a condition.\<close>

definition optKey :: "bool \<Rightarrow> string \<Rightarrow> string list" where
  "optKey c k = (if c then [k] else [])"

lemma quotaReleaseKeysFor_opt:
  "quotaReleaseKeysFor t m u k v =
     optKey (t \<noteq> '''') t @ optKey (t \<noteq> '''' \<and> m \<noteq> '''') (modelQuotaKey t m) @
     optKey (u \<noteq> '''' \<and> t \<noteq> '''') (UserQuotaKey t u) @
     optKey (u \<noteq> '''' \<and> t \<noteq> '''' \<and> m \<noteq> '''') (UserModelQuotaKey t u m) @
     optKey (k \<noteq> '''') (KeyQuotaKey k) @ optKey (v \<noteq> '''') (VipSharedQuotaKey v)"
  by (simp add: quotaReleaseKeysFor_def optKey_def)

lemma subseq_app:
  "subseq a a' \<Longrightarrow> subseq b b' \<Longrightarrow> subseq (a @ b) (a' @ b')"
  by (rule list_emb_append_mono)

lemma optKey_subseq: "subseq (optKey c k) [k]"
  by (simp add: optKey_def)

lemma quotaReleaseKeysFor_subseq:
  "subseq (quotaReleaseKeysFor t m u k v)
     ([t] @ [modelQuotaKey t m] @ [UserQuotaKey t u] @ [UserModelQuotaKey t u m] @ [KeyQuotaKey k] @ [VipSharedQuotaKey v])"
  unfolding quotaReleaseKeysFor_opt by (intro subseq_app optKey_subseq)

lemma quotaReleaseKeysFor_distinct:
  assumes "ValidateQoSIdentity t"
  shows "distinct (quotaReleaseKeysFor t m u k v)"
proof (rule subseq_distinct [OF quotaReleaseKeysFor_subseq])
  show "distinct ([t] @ [modelQuotaKey t m] @ [UserQuotaKey t u] @ [UserModelQuotaKey t u m] @
      [KeyQuotaKey k] @ [VipSharedQuotaKey v])"
    using plain_not_scoped [OF assms] plain_inj(1) [OF assms assms, of m, symmetric] scoped_disjoint
    by simp
qed

text \<open>Every bucket a request is charged on is among the keys its settlement releases.\<close>

lemma bucketIf_opt: "subseq (map bucketKey (if c then bucketIf key lim pct kind else [])) (optKey c key)"
  by (simp add: bucketIf_def mkBucket_def optKey_def)

lemma bucketIf_key:
  "subseq (map bucketKey (if c then (case x of Inl e \<Rightarrow> [] | Inr key \<Rightarrow> bucketIf ky (f key, False) pct kind) else []))
     (optKey c ky)"
  by (cases x) (simp_all add: bucketIf_def mkBucket_def optKey_def)

lemma if_append: "(if c then a @ (if d then b else []) else []) = (if c then a else []) @ (if c \<and> d then b else [])"
  by simp

lemma quotaBucketsFor_keys:
  "subseq (map bucketKey (quotaBucketsFor svc t m u k v)) (quotaReleaseKeysFor t m u k v)"
proof (cases svc)
  case None
  then show ?thesis by (simp add: quotaBucketsFor_def)
next
  case (Some sv)
  show ?thesis
    unfolding quotaReleaseKeysFor_opt
    by (simp only: quotaBucketsFor_def Some option.case Let_def case_prod_beta
          if_append map_append append_assoc conj_assoc)
       (intro subseq_app bucketIf_opt bucketIf_key)
qed

lemma quotaBucketsFor_distinct:
  assumes "ValidateQoSIdentity tenantID"
  shows "distinct (map bucketKey (quotaBucketsFor svc tenantID modelName userID keyID svcIdent))"
  using quotaBucketsFor_keys quotaReleaseKeysFor_distinct [OF assms] by (rule subseq_distinct)

lemma quotaBucketsFor_six: "length (quotaBucketsFor svc tenantID modelName userID keyID svcIdent) \<le> 6"
proof -
  have "length (map bucketKey (quotaBucketsFor svc tenantID modelName userID keyID svcIdent)) \<le>
      length (quotaReleaseKeysFor tenantID modelName userID keyID svcIdent)"
    by (rule list_emb_length [OF quotaBucketsFor_keys])
  moreover have "length (quotaReleaseKeysFor tenantID modelName userID keyID svcIdent) \<le> 6"
    using list_emb_length [OF quotaReleaseKeysFor_subseq [of tenantID modelName userID keyID svcIdent]] by simp
  ultimately show ?thesis by simp
qed


subsection \<open>The ladder on the store\<close>

lemma ladder_ops:
  "(\<lambda>s b w. ReserveTokens g s (bucketKey b) w (bucketTpm b) (bucketBurstPct b)) = reserveB g"
  "(\<lambda>s b f l. ReserveTokensElastic g s (bucketKey b) f l (bucketTpm b) (bucketBurstPct b)) = reserveElasticB g"
  by (simp_all add: reserveB_def reserveElasticB_def fun_eq_iff)

text \<open>The buckets of a request are in range and some claims can still be counted.\<close>

definition request_ok :: "quotaGlobals \<Rightarrow> rateLimitService option \<Rightarrow> 'l RateLimiterStore \<Rightarrow>
    string \<Rightarrow> string \<Rightarrow> string \<Rightarrow> string \<Rightarrow> string \<Rightarrow> bool" where
  "request_ok g svc s t m u k v \<longleftrightarrow>
     ValidateQoSIdentity t \<and> claim_inv g 6 s \<and> list_all (bucket_fits g s) (quotaBucketsFor svc t m u k v)"

lemma request_okD:
  assumes "request_ok g svc s t m u k v"
  shows "claim_inv g (length (quotaBucketsFor svc t m u k v)) s"
    and "b \<in> set (quotaBucketsFor svc t m u k v) \<Longrightarrow> bucket_fits g s b"
    and "distinct (map bucketKey (quotaBucketsFor svc t m u k v))"
    and "distinct (quotaReleaseKeysFor t m u k v)"
    and "0 \<le> fst (heldNow g s x) \<and> 0 \<le> snd (heldNow g s x)"
proof -
  have ok: "ValidateQoSIdentity t" "claim_inv g 6 s" using assms by (simp_all add: request_ok_def)
  show "claim_inv g (length (quotaBucketsFor svc t m u k v)) s"
    by (rule store_claims.inv_weaken [OF ok(2) quotaBucketsFor_six])
  show "bucket_fits g s b" if "b \<in> set (quotaBucketsFor svc t m u k v)"
    using assms that by (simp add: request_ok_def list_all_iff)
  show "distinct (map bucketKey (quotaBucketsFor svc t m u k v))" "distinct (quotaReleaseKeysFor t m u k v)"
    using quotaBucketsFor_distinct quotaReleaseKeysFor_distinct ok(1) by blast+
  show "0 \<le> fst (heldNow g s x) \<and> 0 \<le> snd (heldNow g s x)"
    by (rule store_claims.held_nonneg [OF ok(2)])
qed

lemma reserveInternal_atomic:
  fixes v :: string and s :: "'l RateLimiterStore"
  assumes "request_ok g svc s t m u k v" and "0 < want" and "t \<noteq> '''' \<or> v \<noteq> ''''"
    and "tokenQuotaReserveInternal g svc s l t m u k v want = ((a, r, ep), s', l')"
  defines "bs \<equiv> quotaBucketsFor svc t m u k v"
  shows "claim_inv g 0 s' \<and>
         (if a then ep = (if bs = [] then 0 else currentQuotaEpoch g) \<and>
                 heldNow g s' = claimed (heldNow g s) (map (\<lambda>b. (bucketKey b, want)) bs)
          else ep = 0 \<and> heldNow g s' = heldNow g s)"
proof (cases "bs = []")
  case True
  then show ?thesis using assms store_claims.inv_weaken [OF request_okD(1) [OF assms(1)]]
    by (auto simp: tokenQuotaReserveInternal_def)
next
  case False
  note ok = request_okD [OF assms(1), folded bs_def]
  have "reserveLoop (reserveB g) ReleaseReservation v want bs [] 0 s l = ((a, r, ep), s', l')"
    using assms(2-4) False by (auto simp: tokenQuotaReserveInternal_def ladder_ops bs_def)
  from store_claims.reserveLoop_atomic [OF ok(1,2) assms(2) _ _ _ ok(5) this] ok(3) False
  show ?thesis by simp
qed

lemma elasticReason_atomic:
  fixes v :: string and s :: "'l RateLimiterStore"
  assumes "request_ok g svc s t m u k v" and "0 \<le> firm" and "0 \<le> elastic" and "0 < firm + elastic"
    and "firm + elastic < 4611686018427387904" and "t \<noteq> '''' \<or> v \<noteq> ''''"
    and "tokenQuotaReserveElasticReason g svc s l t m u k v firm elastic = ((a, r, ep, granted, why), s', l')"
  defines "bs \<equiv> quotaBucketsFor svc t m u k v"
  shows "claim_inv g 0 s' \<and>
         (if a then heldNow g s' = claimed (heldNow g s) (map (\<lambda>b. (bucketKey b, granted)) bs) \<and>
                 ep = (if granted = 0 then 0 else currentQuotaEpoch g) \<and>
                 (bs \<noteq> [] \<longrightarrow> firm \<le> granted \<and> granted \<le> firm + elastic) \<and> (bs = [] \<longrightarrow> granted = 0)
          else ep = 0 \<and> granted = 0 \<and> heldNow g s' = heldNow g s)"
proof -
  note ok = request_okD [OF assms(1), folded bs_def]
  have ep: "currentQuotaEpoch g \<noteq> 0" using ok(1) by (rule store_claims.tag_pos)
  show ?thesis
  proof (cases "elastic \<le> 0")
    case True
    then have f: "0 < firm" using assms(4) by simp
    obtain a1 r1 ep1 s1 l1 where R: "tokenQuotaReserveInternal g svc s l t m u k v firm = ((a1, r1, ep1), s1, l1)"
      by (metis prod_cases3 prod.collapse)
    from reserveInternal_atomic [OF assms(1) f assms(6) R, folded bs_def]
    show ?thesis using assms(2,3,7) True R f ep
      by (auto simp: tokenQuotaReserveElasticReason_def split: if_splits)
  next
    case False
    show ?thesis
    proof (cases "bs = []")
      case True
      with False assms(2,6,7) ok(1) show ?thesis by (auto simp: tokenQuotaReserveElasticReason_def bs_def)
    next
      case ne: False
      have "elasticLadder g (reserveElasticB g) ReleaseReservation TrimReservation v firm elastic bs s l =
          ((a, r, ep, granted, why), s', l')"
        using assms(2,6,7) False ne by (auto simp: tokenQuotaReserveElasticReason_def ladder_ops bs_def)
      from store_claims.elasticLadder_atomic [OF ok(1,2) assms(2,3,5) ok(3) ne this] ne
      show ?thesis by (auto split: if_splits)
    qed
  qed
qed

text \<open>Releasing on every key the identity could have reserved on, the granted amount and epoch.\<close>

lemma releaseInternal_restores:
  fixes v :: string and s :: "'l RateLimiterStore"
  assumes "request_ok g svc s t m u k v" and "claim_inv g 0 s'" and "0 \<le> granted"
    and "granted < 9223372036854775808"
    and "heldNow g s' = claimed (heldNow g s) (map (\<lambda>b. (bucketKey b, granted)) (quotaBucketsFor svc t m u k v))"
    and "\<forall>x \<in> set (quotaReleaseKeysFor t m u k v) - bucketKey ` set (quotaBucketsFor svc t m u k v).
           heldNow g s x = (0, 0)"
  shows "heldNow g (tokenQuotaReleaseInternal s' t m u k v granted (currentQuotaEpoch g)) = heldNow g s"
proof (cases "granted = 0")
  case True
  have "claimed h (map (\<lambda>b. (bucketKey b, 0)) bs) = h" for h bs
    by (auto simp: claimed_def fun_eq_iff split: option.split dest!: map_of_SomeD)
  with True assms(5) show ?thesis by (simp add: tokenQuotaReleaseInternal_def)
next
  case False
  let ?bs = "quotaBucketsFor svc t m u k v"
  note ok = request_okD [OF assms(1)]
  have sub: "set (map bucketKey ?bs) \<subseteq> set (quotaReleaseKeysFor t m u k v)"
    by (rule subseq_set [OF quotaBucketsFor_keys])
  have h: "heldNow g s' = claimed (heldNow g s) (map (\<lambda>x. (x, granted)) (map bucketKey ?bs))"
    using assms(5) by (simp add: comp_def)
  have pos: "0 < granted" using False assms(3) by simp
  have "heldNow g (fold (\<lambda>x s. ReleaseReservation s x granted (currentQuotaEpoch g))
      (quotaReleaseKeysFor t m u k v) s') = heldNow g s"
    by (rule store_claims.release_superset [OF assms(2) pos assms(4) ok(4) h sub _ ok(5)])
       (use assms(6) in simp)
  then show ?thesis using pos by (simp add: tokenQuotaReleaseInternal_def)
qed

subsection \<open>Settlement\<close>

text \<open>A release moves no drain time; a charge under no quota does nothing.\<close>

lemma release_tat [simp]: "tatMs (loadEntry (ReleaseReservation s k amt ep) x) = tatMs (loadEntry s x)"
  by (auto simp: ReleaseReservation_def loadEntry_def split: option.split)

lemma releaseInternal_tat [simp]:
  "tatMs (loadEntry (tokenQuotaReleaseInternal s t m u k v amt ep) x) = tatMs (loadEntry s x)"
proof -
  have "tatMs (loadEntry (fold (\<lambda>k s. ReleaseReservation s k amt ep) ks s) x) = tatMs (loadEntry s x)" for ks
    by (induction ks arbitrary: s) simp_all
  then show ?thesis by (simp add: tokenQuotaReleaseInternal_def)
qed

lemma Settle_plain:
  "0 < count \<Longrightarrow> 0 < limit \<Longrightarrow>
     SettleTokens g s k count 0 0 limit pct =
       (fst (chargeEntry g (loadEntry s k) count limit pct), putEntry s k (snd (chargeEntry g (loadEntry s k) count limit pct)))"
  "SettleTokens g s k count 0 0 0 pct = ((True, 0), s)"
  by (simp_all add: SettleTokens_def AllowTokens_def case_prod_beta)

text \<open>The charge pass charges each bucket of the list once, and no other.\<close>

lemma settleLoop_load:
  assumes "0 < count" and "\<forall>b \<in> set bs. 0 < bucketTpm b" and "distinct (map bucketKey bs)"
    and "settleLoop g count pk bs al re sp s = (al', re', sp', s')"
  shows "loadEntry s' x = (case find (\<lambda>b. bucketKey b = x) bs of
             None \<Rightarrow> loadEntry s x
           | Some b \<Rightarrow> snd (chargeEntry g (loadEntry s x) count (bucketTpm b) (bucketBurstPct b)))"
  using assms
proof (induction bs arbitrary: al re sp s)
  case Nil
  then show ?case by simp
next
  case (Cons b bs)
  define s1 where "s1 = putEntry s (bucketKey b) (snd (chargeEntry g (loadEntry s (bucketKey b)) count (bucketTpm b) (bucketBurstPct b)))"
  have "SettleTokens g s (bucketKey b) count 0 0 (bucketTpm b) (bucketBurstPct b) =
      (fst (chargeEntry g (loadEntry s (bucketKey b)) count (bucketTpm b) (bucketBurstPct b)), s1)"
    using Cons.prems by (simp add: Settle_plain s1_def)
  with Cons.prems(4) obtain al1 re1 sp1 where "settleLoop g count pk bs al1 re1 sp1 s1 = (al', re', sp', s')"
    by (auto simp: case_prod_beta)
  from Cons.IH [OF Cons.prems(1) _ _ this] Cons.prems(2,3)
  have IH: "loadEntry s' x = (case find (\<lambda>b. bucketKey b = x) bs of
             None \<Rightarrow> loadEntry s1 x
           | Some b \<Rightarrow> snd (chargeEntry g (loadEntry s1 x) count (bucketTpm b) (bucketBurstPct b)))"
    by simp
  have "find (\<lambda>b. bucketKey b = x) bs = None" if "bucketKey b = x"
    using Cons.prems(3) that by (simp add: find_None_iff) (metis image_eqI)
  with IH show ?case by (auto simp: s1_def split: option.split)
qed

lemma bucketIf_pos: "b \<in> set (bucketIf key lim pct kind) \<Longrightarrow> 0 < bucketTpm b"
  by (auto simp: bucketIf_def mkBucket_def split: if_splits)

lemma bucketIf_key_pos:
  "b \<in> set (case x of Inl e \<Rightarrow> [] | Inr key \<Rightarrow> bucketIf ky (f key, False) pct kind) \<Longrightarrow> 0 < bucketTpm b"
  by (cases x) (auto dest: bucketIf_pos)

lemma set_if: "b \<in> set (if c then xs else []) \<longleftrightarrow> c \<and> b \<in> set xs"
  by simp

lemma quotaBucketsFor_pos:
  assumes "b \<in> set (quotaBucketsFor svc t m u k v)"
  shows "0 < bucketTpm b"
proof (cases svc)
  case (Some sv)
  with assms show ?thesis
    unfolding quotaBucketsFor_def Let_def case_prod_beta
    by (simp only: option.case set_append Un_iff set_if) (elim disjE conjE; erule bucketIf_pos bucketIf_key_pos)
qed (use assms in \<open>simp add: quotaBucketsFor_def\<close>)

lemma consume_tat:
  fixes m u k :: string and svc :: "rateLimitService option"
  assumes "ValidateQoSIdentity t" and "0 < count" and "t \<noteq> '''' \<or> v \<noteq> ''''"
  defines "bs \<equiv> quotaBucketsFor svc t m u k v"
  shows "tatMs (loadEntry (snd (tokenQuotaConsumeInternal g svc s t m u k v count amt ep)) x) =
     (case find (\<lambda>b. bucketKey b = x) bs of
        None \<Rightarrow> tatMs (loadEntry s x)
      | Some b \<Rightarrow> tatMs (snd (chargeEntry g (loadEntry s x) count (bucketTpm b) (bucketBurstPct b))))"
proof (cases "amt \<le> 0 \<and> bs = []")
  case True
  then show ?thesis using assms(3) by (auto simp: tokenQuotaConsumeInternal_def bs_def [symmetric])
next
  case False
  define s1 where "s1 = tokenQuotaReleaseInternal s t m u k v amt ep"
  obtain al re sp s2 where L: "settleLoop g count (if t = '''' then VipSharedQuotaKey v else t) bs True 0 False s1 = (al, re, sp, s2)"
    by (cases "settleLoop g count (if t = '''' then VipSharedQuotaKey v else t) bs True 0 False s1") auto
  have S: "snd (tokenQuotaConsumeInternal g svc s t m u k v count amt ep) = s2"
    using False assms(2,3) L
    by (auto simp: tokenQuotaConsumeInternal_def bs_def [symmetric] s1_def [symmetric] Settle_plain)
  have D: "distinct (map bucketKey bs)" unfolding bs_def by (rule quotaBucketsFor_distinct [OF assms(1)])
  have "loadEntry s2 x = (case find (\<lambda>b. bucketKey b = x) bs of
             None \<Rightarrow> loadEntry s1 x
           | Some b \<Rightarrow> snd (chargeEntry g (loadEntry s1 x) count (bucketTpm b) (bucketBurstPct b)))"
    by (rule settleLoop_load [OF assms(2) _ D L]) (auto simp: bs_def dest: quotaBucketsFor_pos)
  then show ?thesis
    by (auto simp: S s1_def chargeEntry_frame split: option.split)
qed
subsection \<open>The check and the ladder agree\<close>

lemma storeUnavailable_code [simp]: "(0, r, e) \<noteq> storeUnavailable" "storeUnavailable \<noteq> (0, r, e)"
  by (simp_all add: storeUnavailable_def)

text \<open>The request limiters leave the quota map and the warm-up alone.\<close>

lemma check_frame: "quotaMap (snd (check lib now s ident r b)) = quotaMap s \<and> warmState (snd (check lib now s ident r b)) = warmState s"
  by (simp add: check_def Let_def split: prod.split)

lemma limiter_frame:
  "CheckKey lib now s k r b = (x, s') \<Longrightarrow> quotaMap s' = quotaMap s \<and> warmState s' = warmState s"
  "CheckUser lib now s t u r b = (x, s') \<Longrightarrow> quotaMap s' = quotaMap s \<and> warmState s' = warmState s"
  "CheckTenant lib now s t r = (x, s') \<Longrightarrow> quotaMap s' = quotaMap s \<and> warmState s' = warmState s"
  "CheckVipShared lib now s v r = (x, s') \<Longrightarrow> quotaMap s' = quotaMap s \<and> warmState s' = warmState s"
  using check_frame [of lib now s] 
  by (auto simp: CheckKey_def CheckUser_def CheckTenant_def CheckVipShared_def Let_def split: if_splits) (metis snd_conv)+

lemma exceeded_cong: "quotaMap s = quotaMap s' \<Longrightarrow> IsTokenQuotaExceeded g s k = IsTokenQuotaExceeded g s' k"
  by (simp add: IsTokenQuotaExceeded_def)

lemma rlKeyStage_Inr:
  assumes "rlKeyStage lib now (Some sv) s k = (Inr tpm, s')"
  shows "quotaMap s' = quotaMap s" and "warmState s' = warmState s"
    and "k \<noteq> '''' \<Longrightarrow> GetAPIKeyByID sv k = Inr key \<Longrightarrow> tpm = TokensPerMin key"
  using assms limiter_frame(1)
  by (fastforce simp: rlKeyStage_def Let_def split: if_splits sum.splits keyError.splits prod.splits)+

lemma rlUserStage_Inr:
  assumes "rlUserStage lib now (Some sv) s d t u = (Inr tpm, s')"
  shows "quotaMap s' = quotaMap s" and "warmState s' = warmState s"
    and "u \<noteq> '''' \<Longrightarrow> t \<noteq> '''' \<Longrightarrow> GetUserRateLimit sv t u = (r, b, tp, err) \<Longrightarrow>
           \<not> err \<and> tpm = (if tp \<le> 0 then userTPM d else tp)"
  using assms limiter_frame(2)
  by (fastforce simp: rlUserStage_def Let_def split: if_splits prod.splits)+

lemma rlLatches_allow:
  assumes "rlLatches g s k t u m kT uT umT tT mT = (0, r, e)"
  shows "kT > 0 \<Longrightarrow> \<not> IsTokenQuotaExceeded g s (KeyQuotaKey k)"
    and "uT > 0 \<Longrightarrow> \<not> IsTokenQuotaExceeded g s (UserQuotaKey t u)"
    and "umT > 0 \<Longrightarrow> \<not> IsTokenQuotaExceeded g s (UserModelQuotaKey t u m)"
    and "tT > 0 \<Longrightarrow> \<not> IsTokenQuotaExceeded g s t"
    and "mT > 0 \<Longrightarrow> \<not> IsTokenQuotaExceeded g s (modelQuotaKey t m)"
    and "tT > 0 \<or> mT > 0 \<or> uT > 0 \<or> umT > 0 \<or> kT > 0 \<Longrightarrow> \<not> QuotaWarming s"
  using assms by (auto simp: rlLatches_def split: if_splits)

lemma rlKeyStage_Inl [simp]: "rlKeyStage lib now svc s k \<noteq> (Inl (0, r, e), s')"
  by (auto simp: rlKeyStage_def Let_def split: option.splits prod.splits)

lemma rlUserStage_Inl [simp]: "rlUserStage lib now svc s d t u \<noteq> (Inl (0, r, e), s')"
  by (auto simp: rlUserStage_def Let_def split: option.splits prod.splits)

text \<open>The stages of an admitted request that carries an identity.\<close>

lemma check_allow:
  assumes "rateLimitCheckInternal lib now g svc s k t u v m = ((0, r, e), s')" and "k \<noteq> '''' \<or> t \<noteq> '''' \<or> u \<noteq> ''''"
  obtains sv d kT s1 uT s2 where "svc = Some sv" and "resolveQoSDefaults (Some sv) v = Inr d"
    and "rlKeyStage lib now (Some sv) s k = (Inr kT, s1)" and "rlUserStage lib now (Some sv) s1 d t u = (Inr uT, s2)"
    and "t \<noteq> '''' \<longrightarrow> rlTenantStage lib now g (Some sv) s2 d k t u m kT uT = ((0, r, e), s')"
proof -
  obtain sv where sv: "svc = Some sv" using assms by (cases svc) (auto simp: rateLimitCheckInternal_def)
  obtain d where d: "resolveQoSDefaults svc v = Inr d"
    using assms sv by (cases "resolveQoSDefaults svc v") (auto simp: rateLimitCheckInternal_def)
  obtain kx s1 where K: "rlKeyStage lib now svc s k = (kx, s1)" by (metis prod.exhaust)
  obtain kT where kT: "kx = Inr kT"
    using assms sv d K by (cases kx) (auto simp: rateLimitCheckInternal_def)
  obtain ux s2 where U: "rlUserStage lib now svc s1 d t u = (ux, s2)" by (metis prod.exhaust)
  obtain uT where uT: "ux = Inr uT"
    using assms sv d K kT U by (cases ux) (auto simp: rateLimitCheckInternal_def)
  show thesis
    by (rule that [of sv d kT s1 uT s2]) (use assms sv d K kT U uT in \<open>auto simp: rateLimitCheckInternal_def\<close>)
qed

lemma rlTenantStage_allow:
  assumes "rlTenantStage lib now g (Some sv) s d k t u m kT uT = ((0, r, e), s')"
    and "GetTenantRateLimit sv t = (tR, tT, pct, err)"
  obtains mT umT where "\<not> err"
    and "rlLatches g s' k t u m kT uT umT (if tT \<le> 0 then tenantTPM d else tT) mT = (0, r, e)"
    and "quotaMap s' = quotaMap s" and "warmState s' = warmState s"
    and "m \<noteq> '''' \<Longrightarrow> GetTenantModelRateLimit sv t m = (mT, False)"
    and "m \<noteq> '''' \<Longrightarrow> u \<noteq> '''' \<Longrightarrow> GetUserModelRateLimit sv t u m = (umT, False)"
proof -
  define tR' tT' where "tR' = (if tR \<le> 0 then tenantRPS d else tR)" and "tT' = (if tT \<le> 0 then tenantTPM d else tT)"
  obtain al re s2 where C: "CheckTenant lib now s t tR' = ((al, re), s2)" by (metis prod.exhaust)
  obtain mT mE where M: "(if m = '''' then (0, False) else GetTenantModelRateLimit sv t m) = (mT, mE)" by (metis prod.exhaust)
  obtain umT uE where U: "(if m = '''' \<or> u = '''' then (0, False) else GetUserModelRateLimit sv t u m) = (umT, uE)"
    by (metis prod.exhaust)
  have "\<not> err \<and> al \<and> \<not> mE \<and> \<not> uE \<and> s' = s2 \<and> rlLatches g s2 k t u m kT uT umT tT' mT = (0, r, e)"
    using assms M U
    by (simp add: rlTenantStage_def Let_def C tR'_def [symmetric] tT'_def [symmetric] split: if_splits) auto
  with that [of umT mT] limiter_frame(3) [OF C] M U show thesis
    by (simp add: tT'_def split: if_splits)
qed

lemma bucketIf_in:
  "b \<in> set (bucketIf key lim pct kind) \<longleftrightarrow> b = mkBucket key (fst lim) pct kind \<and> \<not> snd lim \<and> fst lim > 0"
  by (auto simp: bucketIf_def)

lemma mkBucket_simps [simp]:
  "bucketKey (mkBucket key tpm pct kind) = key" "bucketKind (mkBucket key tpm pct kind) = kind"
  by (simp_all add: mkBucket_def)

text \<open>Where a bucket of a tenant's request comes from.\<close>

lemma quotaBucketsFor_in:
  assumes "b \<in> set (quotaBucketsFor (Some sv) t m u k v)" and "resolveQoSDefaults (Some sv) v = Inr d" and "t \<noteq> ''''"
    and "GetTenantRateLimit sv t = (tR, tT, pct, err)" and "bucketKind b \<noteq> ''service''"
  shows "bucketKey b = t \<and> 0 < (if tT \<le> 0 then tenantTPM d else tT) \<or>
         m \<noteq> '''' \<and> bucketKey b = modelQuotaKey t m \<and> 0 < fst (GetTenantModelRateLimit sv t m) \<or>
         u \<noteq> '''' \<and> bucketKey b = UserQuotaKey t u \<and>
           (case GetUserRateLimit sv t u of (_, _, tp, er) \<Rightarrow> er \<or> 0 < (if tp \<le> 0 then userTPM d else tp)) \<or>
         u \<noteq> '''' \<and> m \<noteq> '''' \<and> bucketKey b = UserModelQuotaKey t u m \<and> 0 < fst (GetUserModelRateLimit sv t u m) \<or>
         k \<noteq> '''' \<and> bucketKey b = KeyQuotaKey k \<and> (\<exists>key. GetAPIKeyByID sv k = Inr key \<and> 0 < TokensPerMin key)"
proof -
  have K: "b \<in> set (case x of Inl e \<Rightarrow> [] | Inr key \<Rightarrow> bucketIf ky (TokensPerMin key, False) pct kind) \<longleftrightarrow>
      (\<exists>key. x = Inr key \<and> b = mkBucket ky (TokensPerMin key) pct kind \<and> 0 < TokensPerMin key)" for x :: "keyError + ApiKeySummary" and ky pct kind
    by (cases x) (auto simp: bucketIf_in)
  show ?thesis
    using assms unfolding quotaBucketsFor_def Let_def case_prod_beta
    by (simp only: option.case sum.case set_append Un_iff set_if bucketIf_in K fst_conv snd_conv simp_thms if_True)
      (elim disjE conjE exE; simp split: if_splits)
qed
section \<open>Properties\<close>

text \<open>
  C2. The reservation entry point is all or nothing. A request that is refused leaves the tokens
  and claims held on every bucket as they were, whatever earlier buckets of its ladder had granted.
  A request that is admitted holds exactly the amount it is told, with one claim, on every bucket
  it is accountable to and on no other, and that amount lies between its firm part and the firm
  part with the default. The epoch tags the reservation exactly when something is held.
\<close>

theorem gate_reserve_all_or_nothing:
  fixes st :: "'l gateState" and t m u k v :: string and svc :: "rateLimitService option"
  assumes "request_ok g svc (gateStore st) t m u k v" and "t \<noteq> '''' \<or> v \<noteq> ''''"
    and "max 0 promptEst + max 0 maxTokens + max 0 defaultTokens < 2147483648"
    and "llb_ai_token_quota_reserve g svc st t m u k v promptEst maxTokens defaultTokens = ((rc, ep, granted, dec), st')"
  defines "bs \<equiv> quotaBucketsFor svc t m u k v" and "firm \<equiv> max 0 promptEst + max 0 maxTokens"
    and "elastic \<equiv> (if maxTokens \<le> 0 then max 0 defaultTokens else 0)"
  shows "if rc = 0
         then dec = None \<and> ep = (if granted = 0 then 0 else currentQuotaEpoch g) \<and>
              heldNow g (gateStore st') = claimed (heldNow g (gateStore st)) (map (\<lambda>b. (bucketKey b, granted)) bs) \<and>
              (bs = [] \<longrightarrow> granted = 0) \<and> (bs \<noteq> [] \<longrightarrow> firm \<le> granted \<and> granted \<le> firm + elastic)
         else rc = -1 \<and> ep = 0 \<and> granted = 0 \<and> (\<exists>r. dec = Some (3, r, ''token_quota_would_exceed'')) \<and>
              heldNow g (gateStore st') = heldNow g (gateStore st)"
proof -
  have F: "(if promptEst > 0 then promptEst else 0) + (if maxTokens > 0 then maxTokens else 0) = firm"
    "(if maxTokens \<le> 0 \<and> defaultTokens > 0 then defaultTokens else 0) = elastic"
    by (auto simp: firm_def elastic_def)
  have nn: "0 \<le> firm" "0 \<le> elastic" "firm + elastic < 2147483648"
    using assms(3) by (auto simp: firm_def elastic_def)
  note U = assms(4) [unfolded llb_ai_token_quota_reserve_def F Let_def]
  show ?thesis
  proof (cases "firm + elastic = 0")
    case True
    then have "claimed h (map (\<lambda>b. (bucketKey b, 0)) bs) = h" for h
      by (auto simp: claimed_def fun_eq_iff split: option.split dest!: map_of_SomeD)
    with True nn U show ?thesis by auto
  next
    case False
    obtain a r ep1 gr why s' l' where R: "tokenQuotaReserveElasticReason g svc (gateStore st) (gateLedger st) t m u k v firm elastic
        = ((a, r, ep1, gr, why), s', l')"
      by (metis prod_cases5 prod_cases3)
    have E: "if a then heldNow g s' = claimed (heldNow g (gateStore st)) (map (\<lambda>b. (bucketKey b, gr)) bs) \<and>
                 ep1 = (if gr = 0 then 0 else currentQuotaEpoch g) \<and>
                 (bs \<noteq> [] \<longrightarrow> firm \<le> gr \<and> gr \<le> firm + elastic) \<and> (bs = [] \<longrightarrow> gr = 0)
          else ep1 = 0 \<and> gr = 0 \<and> heldNow g s' = heldNow g (gateStore st)"
      using elasticReason_atomic [OF assms(1) nn(1,2) _ _ assms(2) R] nn False unfolding bs_def by simp
    then have ci: "c_int gr = gr" using nn by (cases "bs = []") (auto simp: c_int_def split: if_splits)
    have ne: "\<not> (firm \<le> 0 \<and> elastic \<le> 0)" "\<not> (t = '''' \<and> v = '''')" using False nn assms(2) by auto
    show ?thesis using U E R ne ci by (auto split: if_splits)
  qed
qed

text \<open>
  C17. Reservation and release are inverse. Releasing what the elastic ladder granted, over the key
  set that settlement uses, puts the held tokens and claims of every bucket back to what they were
  before the request, provided the buckets of that key set that the request did not reserve on hold
  nothing.
\<close>

theorem reserve_release_roundtrip:
  fixes s :: "'l RateLimiterStore" and t m u k v :: string and svc :: "rateLimitService option"
  assumes "request_ok g svc s t m u k v" and "0 \<le> firm" and "0 \<le> elastic" and "0 < firm + elastic"
    and "firm + elastic < 4611686018427387904" and "t \<noteq> '''' \<or> v \<noteq> ''''"
    and "tokenQuotaReserveElasticReason g svc s l t m u k v firm elastic = ((True, r, ep, granted, why), s', l')"
    and "\<forall>x \<in> set (quotaReleaseKeysFor t m u k v) - bucketKey ` set (quotaBucketsFor svc t m u k v).
           heldNow g s x = (0, 0)"
  shows "heldNow g (tokenQuotaReleaseInternal s' t m u k v granted (currentQuotaEpoch g)) = heldNow g s"
proof -
  have E: "claim_inv g 0 s'" "heldNow g s' = claimed (heldNow g s) (map (\<lambda>b. (bucketKey b, granted)) (quotaBucketsFor svc t m u k v))"
    "0 \<le> granted" "granted < 9223372036854775808"
    using elasticReason_atomic [OF assms(1-7)] assms(2,3,5) by (auto simp: not_less)
  show ?thesis by (rule releaseInternal_restores [OF assms(1) E(1,3,4,2) assms(8)])
qed

text \<open>
  C27. Buckets of different scopes never share a key: for identities that passed validation, the key
  of a tenant, tenant-model, user, user-model, API-key or service bucket determines the scope and
  every name in it.
\<close>

theorem scope_keys_injective:
  assumes "scopeOk a" and "scopeOk b" and "scopeKey a = scopeKey b"
  shows "a = b"
  using assms by (rule scopeKey_inj)


text \<open>
  C18. The check and the ladder agree. A request of a tenant that passes the rate-limit check has no
  bucket in debt among those the ladder will reserve on (the shared service bucket, which is
  enforced on keyless traffic, apart), and if it has such a bucket the store is not warming up.
\<close>

theorem admitted_not_in_debt:
  fixes t m u k v :: string and s :: "'l RateLimiterStore"
  assumes "rateLimitCheckInternal lib now g svc s k t u v m = ((0, r, e), s')" and "t \<noteq> ''''"
    and "b \<in> set (quotaBucketsFor svc t m u k v)" and "bucketKind b \<noteq> ''service''"
  shows "\<not> IsTokenQuotaExceeded g s (bucketKey b) \<and> \<not> QuotaWarming s"
proof -
  obtain sv d kT s1 uT s2 where sv: "svc = Some sv" and d: "resolveQoSDefaults (Some sv) v = Inr d"
    and K: "rlKeyStage lib now (Some sv) s k = (Inr kT, s1)" and U: "rlUserStage lib now (Some sv) s1 d t u = (Inr uT, s2)"
    and T: "rlTenantStage lib now g (Some sv) s2 d k t u m kT uT = ((0, r, e), s')"
    using check_allow [OF assms(1)] assms(2) by metis
  obtain tR tT pct err where G: "GetTenantRateLimit sv t = (tR, tT, pct, err)" by (metis prod.exhaust)
  obtain ur ub utp uerr where GU: "GetUserRateLimit sv t u = (ur, ub, utp, uerr)" by (metis prod.exhaust)
  from rlTenantStage_allow [OF T G] obtain mT umT where
    L: "rlLatches g s' k t u m kT uT umT (if tT \<le> 0 then tenantTPM d else tT) mT = (0, r, e)"
    and F: "quotaMap s' = quotaMap s2" "warmState s' = warmState s2"
    and M: "m \<noteq> '''' \<Longrightarrow> GetTenantModelRateLimit sv t m = (mT, False)"
      "m \<noteq> '''' \<Longrightarrow> u \<noteq> '''' \<Longrightarrow> GetUserModelRateLimit sv t u m = (umT, False)" by metis
  note K1 = rlKeyStage_Inr [OF K] and U1 = rlUserStage_Inr [OF U]
  have qm: "quotaMap s' = quotaMap s" "warmState s' = warmState s" using F K1(1,2) U1(1,2) by simp_all
  have "\<not> IsTokenQuotaExceeded g s' (bucketKey b) \<and> \<not> QuotaWarming s'"
    using quotaBucketsFor_in [OF assms(3) [unfolded sv] d assms(2) G assms(4)]
      rlLatches_allow [OF L] M K1(3) U1(3) [OF _ assms(2) GU] by (auto simp: GU split: if_splits)
  then show ?thesis using exceeded_cong [OF qm(1)] qm(2) by (simp add: QuotaWarming_def)
qed

text \<open>
  C28. The check never admits on a limit it could not read. A request with an identity that is
  admitted had a configuration store, and every row the decision depends on was answered: the
  defaults, the key, and for a tenant the tenant's, the user's and the per-model limits. Keyless
  requests are never answered with a store outage.
\<close>

theorem gate_fails_closed:
  "(rateLimitCheckInternal lib now g svc s k t u v m = ((0, r, e), s') \<and> (k \<noteq> '''' \<or> t \<noteq> '''' \<or> u \<noteq> '''') \<longrightarrow>
     (\<exists>sv d. svc = Some sv \<and> resolveQoSDefaults svc v = Inr d \<and>
        (k \<noteq> '''' \<longrightarrow> GetAPIKeyByID sv k \<noteq> Inl ErrDBUnavailable) \<and>
        (t \<noteq> '''' \<longrightarrow> \<not> snd (snd (snd (GetTenantRateLimit sv t))) \<and>
           (m \<noteq> '''' \<longrightarrow> \<not> snd (GetTenantModelRateLimit sv t m)) \<and>
           (u \<noteq> '''' \<longrightarrow> \<not> snd (snd (snd (GetUserRateLimit sv t u))) \<and>
              (m \<noteq> '''' \<longrightarrow> \<not> snd (GetUserModelRateLimit sv t u m)))))) \<and>
   fst (fst (rateLimitCheckInternal lib now g svc s '''' '''' '''' v m)) \<noteq> 4"
proof (intro conjI impI)
  assume A: "rateLimitCheckInternal lib now g svc s k t u v m = ((0, r, e), s') \<and> (k \<noteq> '''' \<or> t \<noteq> '''' \<or> u \<noteq> '''')"
  obtain sv d kT s1 uT s2 where sv: "svc = Some sv" and d: "resolveQoSDefaults (Some sv) v = Inr d"
    and K: "rlKeyStage lib now (Some sv) s k = (Inr kT, s1)" and U: "rlUserStage lib now (Some sv) s1 d t u = (Inr uT, s2)"
    and T: "t \<noteq> '''' \<longrightarrow> rlTenantStage lib now g (Some sv) s2 d k t u m kT uT = ((0, r, e), s')"
    by (rule check_allow [OF conjunct1 [OF A] conjunct2 [OF A]])
  obtain tR tT pct err where G: "GetTenantRateLimit sv t = (tR, tT, pct, err)" by (metis prod.exhaust)
  obtain ur ub utp uerr where GU: "GetUserRateLimit sv t u = (ur, ub, utp, uerr)" by (metis prod.exhaust)
  have "k \<noteq> '''' \<longrightarrow> GetAPIKeyByID sv k \<noteq> Inl ErrDBUnavailable"
    using K by (auto simp: rlKeyStage_def Let_def)
  moreover have "\<not> err \<and> (m \<noteq> '''' \<longrightarrow> \<not> snd (GetTenantModelRateLimit sv t m)) \<and>
      (u \<noteq> '''' \<longrightarrow> \<not> uerr \<and> (m \<noteq> '''' \<longrightarrow> \<not> snd (GetUserModelRateLimit sv t u m)))" if "t \<noteq> ''''"
  proof -
    have Tt: "rlTenantStage lib now g (Some sv) s2 d k t u m kT uT = ((0, r, e), s')" using T that by simp
    show ?thesis
      by (rule rlTenantStage_allow [OF Tt G]) (use rlUserStage_Inr(3) [OF U _ that GU] in auto)
  qed
  ultimately show "\<exists>sv d. svc = Some sv \<and> resolveQoSDefaults svc v = Inr d \<and>
        (k \<noteq> '''' \<longrightarrow> GetAPIKeyByID sv k \<noteq> Inl ErrDBUnavailable) \<and>
        (t \<noteq> '''' \<longrightarrow> \<not> snd (snd (snd (GetTenantRateLimit sv t))) \<and>
           (m \<noteq> '''' \<longrightarrow> \<not> snd (GetTenantModelRateLimit sv t m)) \<and>
           (u \<noteq> '''' \<longrightarrow> \<not> snd (snd (snd (GetUserRateLimit sv t u))) \<and>
              (m \<noteq> '''' \<longrightarrow> \<not> snd (GetUserModelRateLimit sv t u m))))"
    using sv d G GU by (intro exI [of _ sv] exI [of _ d]) auto
next
  show "fst (fst (rateLimitCheckInternal lib now g svc s '''' '''' '''' v m)) \<noteq> 4"
    by (simp add: rateLimitCheckInternal_def rlKeyless_def gwAllow_def Let_def split: sum.split prod.split option.split)
qed

text \<open>
  Key validation. A request is let through exactly when the store knows its key, the key has
  not expired and the key allows the model; it then carries the key's tenant. An unknown, expired
  or empty key is a 401, a model outside the key's list a 403 and a store that cannot answer a 503.
\<close>

theorem key_validation_spec:
  "fst (validateAPIKeyInternal V now rawKey model) =
     (if rawKey = '''' \<or> V rawKey = Inl ErrInvalidKey then 1
      else case V rawKey of
             Inl _ \<Rightarrow> 4
           | Inr entry \<Rightarrow> if (\<exists>x. ExpiresAt entry = Some x \<and> x < now) then 1
                          else if AllowedModels entry \<noteq> [] \<and> model \<notin> set (AllowedModels entry) then 2 else 0) \<and>
   (fst (validateAPIKeyInternal V now rawKey model) = 0 \<longleftrightarrow>
     (\<exists>entry. rawKey \<noteq> '''' \<and> V rawKey = Inr entry \<and>
        validateAPIKeyInternal V now rawKey model = (0, KeyTenantID entry, ApiKeyEntry.KeyID entry, model, '''')))"
  by (auto simp: validateAPIKeyInternal_def list_ex_iff split: sum.splits validateError.splits option.splits)

text \<open>
  The default reservation in force is bounded. Whatever the rule, the stored rule it replaces
  and the environment say, a reservation that is on is of 1 to 100000000 tokens, one that is off is
  of none, and a rule whose default is larger is refused.
\<close>

theorem default_reservation_bounds:
  assumes "0 \<le> AIDefaultMaxTokens serv"
    and "\<forall>e. eRule = Some e \<longrightarrow> 0 \<le> resvMaxTokens e \<and> resvMaxTokens e \<le> AIDefaultMaxTokensMax"
  shows "(aiDefaultResvResolve eRule serv = None \<longleftrightarrow>
            AIDefaultReservationToRule (AIDefaultReservation serv) = None \<or> AIDefaultMaxTokensMax < AIDefaultMaxTokens serv) \<and>
         (\<forall>c. aiDefaultResvResolve eRule serv = Some c \<longrightarrow>
            (case inForce env c of (on, tokens, _, _) \<Rightarrow>
               tokens = tokensInForce env c \<and>
               (if on then 1 \<le> tokens \<and> tokens \<le> AIDefaultMaxTokensMax else tokens = 0)))"
proof -
  have B: "0 \<le> resvMaxTokens c \<and> resvMaxTokens c \<le> AIDefaultMaxTokensMax" if "aiDefaultResvResolve eRule serv = Some c" for c
    using that assms by (auto simp: aiDefaultResvResolve_def split: option.splits if_splits)
  have F: "case inForce env c of (on, tokens, _, _) \<Rightarrow>
      if on then 1 \<le> tokens \<and> tokens \<le> AIDefaultMaxTokensMax else tokens = 0"
    if "0 \<le> resvMaxTokens c \<and> resvMaxTokens c \<le> AIDefaultMaxTokensMax" for c
    using that
    by (auto simp: inForce_def Let_def AIDefaultMaxTokensBuiltin_def AIDefaultMaxTokensMax_def split: option.splits)
  show ?thesis
    using B F by (auto simp: aiDefaultResvResolve_def tokensInForce_def case_prod_beta split: option.splits)
qed
section \<open>Instances\<close>

text \<open>A tenant with 60 tokens a minute and a key with 100; nobody else has a limit.\<close>

definition exSv :: rateLimitService where
  "exSv = \<lparr>GetTenantRateLimit = (\<lambda>t. if t = ''t'' then (0, 60, 0, False) else (0, 0, 0, False)),
           GetTenantModelRateLimit = (\<lambda>t m. (0, False)),
           GetAPIKeyByID = (\<lambda>k. Inr \<lparr>RateLimitRPS = 0, BurstSize = 0, TokensPerMin = 100\<rparr>),
           GetUserRateLimit = (\<lambda>t u. (0, 0, 0, False)), GetUserModelRateLimit = (\<lambda>t u m. (0, False)),
           GetRateLimitDefaults = (\<lambda>sc i. (\<lparr>DefaultUserRPS = 0, DefaultUserTPM = 0, DefaultTenantRPS = 0, DefaultTenantTPM = 0,
              VipSharedRPS = 0, VipSharedTPM = 0\<rparr>, False, False))\<rparr>"

definition exGate :: "unit gateState" where
  "exGate = \<lparr>gateStore = New, gateLedger = Map.empty, gateClamped = (\<lambda>_. (0, 0))\<rparr>"

definition exLib :: "unit rateLib" where
  "exLib = \<lparr>NewLimiter = (\<lambda>_ _. ()), Reserve = (\<lambda>l _. (True, 0, l)), Cancel = (\<lambda>l _. l)\<rparr>"

lemma ex_request_ok: "request_ok exG (Some exSv) (New :: unit RateLimiterStore) ''t'' '''' '''' ''k'' ''v''"
proof -
  have "claim_inv exG 6 (New :: unit RateLimiterStore)"
    by (simp add: claim_inv_def loadEntry_def New_def emptyEntry_def exG_def knobs_ok_def quota_consts maxLimit_def)
  moreover have "ValidateQoSIdentity ''t''" by code_simp
  moreover have "list_all (bucket_fits exG (New :: unit RateLimiterStore)) (quotaBucketsFor (Some exSv) ''t'' '''' '''' ''k'' ''v'')"
    by code_simp
  ultimately show ?thesis by (simp add: request_ok_def)
qed

theorem gate_reserve_all_or_nothing_witness:
  "heldNow exG (gateStore (snd (llb_ai_token_quota_reserve exG (Some exSv) exGate ''t'' '''' '''' ''k'' ''v'' 10 0 200))) ''kq:k'' = (60, 1)"
proof -
  let ?R = "llb_ai_token_quota_reserve exG (Some exSv) exGate ''t'' '''' '''' ''k'' ''v'' 10 0 200"
  have "fst ?R = (0, 1, 60, None)" by code_simp
  then have R: "?R = ((0, 1, 60, None), snd ?R)" by (metis prod.collapse)
  have C: "claimed (heldNow exG (gateStore exGate))
      (map (\<lambda>b. (bucketKey b, 60)) (quotaBucketsFor (Some exSv) ''t'' '''' '''' ''k'' ''v'')) ''kq:k'' = (60, 1)"
    by code_simp
  from gate_reserve_all_or_nothing [OF _ _ _ R] ex_request_ok C show ?thesis by (simp add: exGate_def)
qed

theorem reserve_release_roundtrip_witness:
  "let R = tokenQuotaReserveElasticReason exG (Some exSv) (New :: unit RateLimiterStore) Map.empty ''t'' '''' '''' ''k'' ''v'' 10 200
   in heldNow exG (tokenQuotaReleaseInternal (fst (snd R)) ''t'' '''' '''' ''k'' ''v'' 60 1) = heldNow exG (New :: unit RateLimiterStore)"
proof -
  let ?R = "tokenQuotaReserveElasticReason exG (Some exSv) (New :: unit RateLimiterStore) Map.empty ''t'' '''' '''' ''k'' ''v'' 10 200"
  have "fst ?R = (True, 0, 1, 60, resvClampBurst)" by code_simp
  then have R: "?R = ((True, 0, 1, 60, resvClampBurst), fst (snd ?R), snd (snd ?R))" by (metis prod.collapse)
  have "heldNow exG (New :: unit RateLimiterStore) x = (0, 0)" for x
    by (simp add: heldNow_load loadEntry_def New_def emptyEntry_def)
  then show ?thesis
    using reserve_release_roundtrip [OF ex_request_ok _ _ _ _ _ R] by (simp add: exG_epoch Let_def)
qed

theorem scope_keys_injective_witness:
  "scopeKey (ScopeTenantModel ''t'' ''m|x'') \<noteq> scopeKey (ScopeUserModel ''t'' ''m'' ''x'')"
proof
  have "scopeOk (ScopeTenantModel ''t'' ''m|x'')" "scopeOk (ScopeUserModel ''t'' ''m'' ''x'')" by code_simp+
  moreover assume "scopeKey (ScopeTenantModel ''t'' ''m|x'') = scopeKey (ScopeUserModel ''t'' ''m'' ''x'')"
  ultimately have "ScopeTenantModel ''t'' ''m|x'' = ScopeUserModel ''t'' ''m'' ''x''" by (rule scope_keys_injective)
  then show False by simp
qed


theorem admitted_not_in_debt_witness:
  "\<not> IsTokenQuotaExceeded exG (New :: unit RateLimiterStore) ''kq:k''"
proof -
  let ?R = "rateLimitCheckInternal exLib 0 exG (Some exSv) (New :: unit RateLimiterStore) ''k'' ''t'' '''' ''v'' ''''"
  have "fst ?R = (0, 0, '''')" by code_simp
  then have R: "?R = ((0, 0, ''''), snd ?R)" by (metis prod.collapse)
  have b: "\<lparr>bucketKey = ''kq:k'', bucketTpm = 100, bucketBurstPct = 0, bucketKind = ''key''\<rparr>
      \<in> set (quotaBucketsFor (Some exSv) ''t'' '''' '''' ''k'' ''v'')" by code_simp
  from admitted_not_in_debt [OF R _ b] show ?thesis by simp
qed

theorem gate_fails_closed_witness:
  "\<exists>sv d. Some exSv = Some sv \<and> resolveQoSDefaults (Some exSv) ''v'' = Inr d \<and> GetAPIKeyByID sv ''k'' \<noteq> Inl ErrDBUnavailable"
proof -
  let ?R = "rateLimitCheckInternal exLib 0 exG (Some exSv) (New :: unit RateLimiterStore) ''k'' ''t'' '''' ''v'' ''''"
  have "fst ?R = (0, 0, '''')" by code_simp
  then have "?R = ((0, 0, ''''), snd ?R)" by (metis prod.collapse)
  with gate_fails_closed [of exLib 0 exG "Some exSv" "New :: unit RateLimiterStore" "''k''" "''t''" "''''" "''v''" "''''" 0 "''''" "snd ?R"]
  show ?thesis by auto
qed

theorem default_reservation_bounds_witness:
  "tokensInForce (\<lambda>_. '''') \<lparr>resvMode = 2, resvMaxTokens = 0\<rparr> = 512"
proof -
  let ?serv = "\<lparr>AIDefaultReservation = ''on'', AIDefaultReservationPresent = True, AIDefaultMaxTokens = 0, AIDefaultMaxTokensPresent = False\<rparr>"
  have r: "aiDefaultResvResolve None ?serv = Some \<lparr>resvMode = 2, resvMaxTokens = 0\<rparr>" by code_simp
  have i: "inForce (\<lambda>_. '''') \<lparr>resvMode = 2, resvMaxTokens = 0\<rparr> = (True, 512, ''rule'', ''default'')" by code_simp
  show ?thesis using default_reservation_bounds [of ?serv None "\<lambda>_. ''''"] r i by (simp add: tokensInForce_def)
qed

end
