(* ===== verification/Key_Tables.thy ===== *)
theory Key_Tables
  imports Qos_Ladder
begin

text \<open>
  The tables of the key store and what the gateway asks of them (src/pkg/aikey: schema.go,
  the statements of service.go, classes.go, class_patch.go and class_lkg_limits.go, tx.go), and
  how the error of a statement is classified (src/pkg/pgstore/outcome.go). A row is a record with
  the columns of its table. The database driver and the network are the environment: each
  statement has a fate, which is an answer, or an error together with whether the server applied
  the statement all the same.
\<close>

section \<open>Definitions\<close>

subsection \<open>Errors of the driver\<close>

text \<open>What \<open>errors.Is\<close> and \<open>errors.As\<close> find in the chain of an error, and what pgx says of it.\<close>

record drvErr =
  isDBUnavailable :: bool
  isOutcomeUnknown :: bool
  isPgError :: bool
  pgConstraint :: string
  isNoRows :: bool
  safeToRetry :: bool
  isBadConn :: bool
  isConnectError :: bool
  isOpError :: bool
  isDialOp :: bool
  isNetError :: bool
  isConnDone :: bool
  isTxDone :: bool
  isDeadline :: bool
  isTimeout :: bool
  isCanceled :: bool
  isEOF :: bool

definition plainErr :: drvErr where
  "plainErr = \<lparr>isDBUnavailable = False, isOutcomeUnknown = False, isPgError = False, pgConstraint = '''', isNoRows = False,
     safeToRetry = False, isBadConn = False, isConnectError = False, isOpError = False, isDialOp = False, isNetError = False,
     isConnDone = False, isTxDone = False, isDeadline = False, isTimeout = False, isCanceled = False, isEOF = False\<rparr>"

definition errNoRows :: drvErr where "errNoRows = plainErr\<lparr>isNoRows := True\<rparr>"

text \<open>SQLSTATE 23505 on the named constraint.\<close>

definition uniqueViolation :: "string \<Rightarrow> drvErr" where
  "uniqueViolation c = plainErr\<lparr>isPgError := True, pgConstraint := c\<rparr>"

definition errStoreUnavailable :: drvErr where "errStoreUnavailable = plainErr\<lparr>isDBUnavailable := True\<rparr>"

definition notSent :: "drvErr \<Rightarrow> bool" where
  "notSent e \<longleftrightarrow> safeToRetry e \<or> isBadConn e \<or> isConnectError e \<or> isOpError e \<and> isDialOp e \<or>
     isConnDone e \<or> isTxDone e \<or> isDeadline e \<and> \<not> isTimeout e"

definition IsUnavailable :: "drvErr \<Rightarrow> bool" where
  "IsUnavailable e =
     (if isBadConn e \<or> isConnDone e \<or> isTxDone e then True
      else if isPgError e then False
      else if isConnectError e then True
      else if isNetError e then True
      else if isOpError e then True
      else isDeadline e \<or> isEOF e)"

text \<open>The error, and whether the verdict counts as an unknown outcome.\<close>

definition ClassifyWriteErrFor :: "drvErr \<Rightarrow> drvErr \<times> bool" where
  "ClassifyWriteErrFor e =
     (if isDBUnavailable e \<or> isOutcomeUnknown e then (e, False)
      else if isPgError e \<or> isNoRows e then (e, False)
      else if notSent e then (e\<lparr>isDBUnavailable := True\<rparr>, False)
      else (e\<lparr>isOutcomeUnknown := True\<rparr>, True))"

definition ClassifyReadErr :: "drvErr \<Rightarrow> drvErr" where
  "ClassifyReadErr e =
     (if isDBUnavailable e then e
      else if isPgError e \<or> isNoRows e then e
      else if IsUnavailable e \<or> isTimeout e \<or> notSent e \<or> isCanceled e then e\<lparr>isDBUnavailable := True\<rparr>
      else e)"

definition writeErr :: "drvErr \<Rightarrow> drvErr" where "writeErr e = fst (ClassifyWriteErrFor e)"
definition readErr :: "drvErr \<Rightarrow> drvErr" where "readErr e = ClassifyReadErr e"

subsection \<open>Lists in columns\<close>

text \<open>\<open>strings.Split\<close> on a one-character separator.\<close>

fun Split :: "char \<Rightarrow> string \<Rightarrow> string list" where
  "Split d [] = [[]]"
| "Split d (c # cs) = (if c = d then [] # Split d cs else (case Split d cs of [] \<Rightarrow> [[c]] | x # xs \<Rightarrow> (c # x) # xs))"

definition joinList :: "string list \<Rightarrow> string" where
  "joinList l = joinWith CHR '','' l"

definition splitList :: "string \<Rightarrow> string list" where
  "splitList s = (if s = '''' then [] else Split CHR '','' s)"

subsection \<open>Classes and objectives\<close>

record AIClassPolicy =
  PriorityClass :: string
  DefaultObjective :: string
  AllowedObjectives :: "string list"

definition classIsZero :: "AIClassPolicy \<Rightarrow> bool" where
  "classIsZero p \<longleftrightarrow> PriorityClass p = '''' \<and> DefaultObjective p = '''' \<and> AllowedObjectives p = []"

record AIObjectiveEntry =
  ObjName :: string
  ObjServices :: "string list"
  ObjPriority :: int
  ObjUpdatedAt :: int

definition objectiveChar :: "char \<Rightarrow> bool" where
  "objectiveChar c =
     (let n = int (of_char c)
      in 97 \<le> n \<and> n \<le> 122 \<or> 65 \<le> n \<and> n \<le> 90 \<or> 48 \<le> n \<and> n \<le> 57 \<or> c = CHR ''-'' \<or> c = CHR ''_'' \<or> c = CHR ''.'')"

definition validObjectiveName :: "string \<Rightarrow> bool" where
  "validObjectiveName name \<longleftrightarrow> name \<noteq> '''' \<and> length name \<le> 63 \<and> list_all objectiveChar name"

definition AITierObjectives :: "string list" where
  "AITierObjectives = [''tier:priority'', ''tier:fast'', ''tier:flex'']"

definition IsAITierObjective :: "string \<Rightarrow> bool" where
  "IsAITierObjective name = list_ex (\<lambda>n. n = name) AITierObjectives"

text \<open>\<open>Inl\<close> names the field of the validation error. \<open>seen\<close> is the loop's map.\<close>

fun dedup :: "string list \<Rightarrow> string list \<Rightarrow> string list" where
  "dedup seen [] = []"
| "dedup seen (x # xs) = (if x \<in> set seen then dedup seen xs else x # dedup (x # seen) xs)"

definition ValidateClassPolicy :: "AIClassPolicy \<Rightarrow> string + AIClassPolicy" where
  "ValidateClassPolicy p =
     (if PriorityClass p \<notin> {'''', ''standard'', ''critical'', ''sheddable''} then Inl ''priority_class''
      else if DefaultObjective p \<noteq> '''' \<and> \<not> validObjectiveName (DefaultObjective p) then Inl ''default_objective''
      else if length (AllowedObjectives p) > 64 then Inl ''allowed_objectives''
      else if \<not> list_all (\<lambda>n. validObjectiveName n \<or> IsAITierObjective n) (AllowedObjectives p) then Inl ''allowed_objectives''
      else Inr (p\<lparr>AllowedObjectives := sort (dedup [] (AllowedObjectives p))\<rparr>))"

record AIClassPatch =
  PatchPriorityClass :: "string option"
  PatchDefaultObjective :: "string option"
  PatchAllowedObjectives :: "string list option"

definition classPatchIsZero :: "AIClassPatch \<Rightarrow> bool" where
  "classPatchIsZero c \<longleftrightarrow> PatchPriorityClass c = None \<and> PatchDefaultObjective c = None \<and> PatchAllowedObjectives c = None"

definition classPatchArgs :: "AIClassPatch \<Rightarrow> string + string option \<times> string option \<times> string option" where
  "classPatchArgs patch =
     (let p = \<lparr>PriorityClass = (case PatchPriorityClass patch of None \<Rightarrow> '''' | Some v \<Rightarrow> v),
               DefaultObjective = (case PatchDefaultObjective patch of None \<Rightarrow> '''' | Some v \<Rightarrow> v),
               AllowedObjectives = (case PatchAllowedObjectives patch of None \<Rightarrow> [] | Some v \<Rightarrow> v)\<rparr>
      in case ValidateClassPolicy p of
           Inl f \<Rightarrow> Inl f
         | Inr p \<Rightarrow> Inr (map_option (\<lambda>_. PriorityClass p) (PatchPriorityClass patch),
                         map_option (\<lambda>_. DefaultObjective p) (PatchDefaultObjective patch),
                         map_option (\<lambda>_. joinList (AllowedObjectives p)) (PatchAllowedObjectives patch)))"

subsection \<open>Tables\<close>

record apiKeyRow =
  key_id :: string
  key_hash :: string
  tenant_id :: string
  key_name :: string
  allowed_models :: string
  rate_limit_rps :: int
  burst_size :: int
  tokens_per_min :: int
  created_at :: int
  expires_at :: "int option"
  enabled :: bool
  client_op_id :: "string option"
  first_used_at :: "int option"
  priority_class :: string
  default_objective :: string
  allowed_objectives :: string

record tenantRow =
  tl_tenant :: string
  tl_rps :: int
  tl_tpm :: int
  tl_burst_pct :: int
  tl_updated_at :: int
  tl_priority_class :: string
  tl_default_objective :: string
  tl_allowed_objectives :: string

record tenantModelRow =
  tm_tenant :: string
  tm_model :: string
  tm_tpm :: int
  tm_updated_at :: int

record defaultsRow =
  df_scope :: string
  df_rule_ident :: string
  df_limits :: RateLimitDefaultsEntry

record objectiveRow =
  ob_name :: string
  ob_services :: string
  ob_priority :: int
  ob_updated_at :: int

record keyDb =
  api_keys :: "apiKeyRow list"
  tenant_rate_limits :: "tenantRow list"
  tenant_model_rate_limits :: "tenantModelRow list"
  rate_limit_defaults :: "defaultsRow list"
  objectives :: "objectiveRow list"

text \<open>The primary keys and the unique indexes of schema.go.\<close>

definition db_ok :: "keyDb \<Rightarrow> bool" where
  "db_ok db \<longleftrightarrow>
     distinct (map key_id (api_keys db)) \<and> distinct (map key_hash (api_keys db)) \<and>
     distinct (map (\<lambda>r. (tenant_id r, client_op_id r)) (filter (\<lambda>r. client_op_id r \<noteq> None) (api_keys db))) \<and>
     distinct (map tl_tenant (tenant_rate_limits db)) \<and>
     distinct (map (\<lambda>r. (tm_tenant r, tm_model r)) (tenant_model_rate_limits db)) \<and>
     distinct (map (\<lambda>r. (df_scope r, df_rule_ident r)) (rate_limit_defaults db)) \<and>
     distinct (map ob_name (objectives db))"

subsection \<open>Statements on the key table\<close>

definition updateKey :: "string \<Rightarrow> (apiKeyRow \<Rightarrow> apiKeyRow) \<Rightarrow> keyDb \<Rightarrow> keyDb" where
  "updateKey kid f db = db\<lparr>api_keys := map (\<lambda>r. if key_id r = kid then f r else r) (api_keys db)\<rparr>"

definition sqlInsertAPIKey :: "apiKeyRow \<Rightarrow> keyDb \<Rightarrow> drvErr + keyDb" where
  "sqlInsertAPIKey row db =
     (if list_ex (\<lambda>r. key_id r = key_id row) (api_keys db) then Inl (uniqueViolation ''api_keys_pkey'')
      else if list_ex (\<lambda>r. key_hash r = key_hash row) (api_keys db) then Inl (uniqueViolation ''uq_api_keys_key_hash'')
      else if client_op_id row \<noteq> None \<and>
              list_ex (\<lambda>r. tenant_id r = tenant_id row \<and> client_op_id r = client_op_id row) (api_keys db)
      then Inl (uniqueViolation ''uq_api_keys_client_op'')
      else Inr (db\<lparr>api_keys := api_keys db @ [row]\<rparr>))"

definition sqlSelectAPIKeyByClientOp :: "string \<Rightarrow> string \<Rightarrow> keyDb \<Rightarrow> apiKeyRow option" where
  "sqlSelectAPIKeyByClientOp t c db = List.find (\<lambda>r. tenant_id r = t \<and> client_op_id r = Some c) (api_keys db)"

definition sqlRotateAPIKeyHash :: "string \<Rightarrow> int \<Rightarrow> string \<Rightarrow> keyDb \<Rightarrow> drvErr + keyDb" where
  "sqlRotateAPIKeyHash h now kid db =
     (if list_ex (\<lambda>r. key_hash r = h \<and> key_id r \<noteq> kid) (api_keys db) \<and> list_ex (\<lambda>r. key_id r = kid) (api_keys db)
      then Inl (uniqueViolation ''uq_api_keys_key_hash'')
      else Inr (updateKey kid (\<lambda>r. r\<lparr>key_hash := h, created_at := now\<rparr>) db))"

definition sqlMarkAPIKeyFirstUse :: "int \<Rightarrow> string \<Rightarrow> keyDb \<Rightarrow> keyDb" where
  "sqlMarkAPIKeyFirstUse now kid =
     updateKey kid (\<lambda>r. if first_used_at r = None then r\<lparr>first_used_at := Some now\<rparr> else r)"

definition sqlSelectAPIKeyByHash :: "string \<Rightarrow> keyDb \<Rightarrow> apiKeyRow option" where
  "sqlSelectAPIKeyByHash h db = List.find (\<lambda>r. key_hash r = h \<and> enabled r) (api_keys db)"

definition sqlSelectKeyHashByID :: "string \<Rightarrow> keyDb \<Rightarrow> string option" where
  "sqlSelectKeyHashByID kid db = map_option key_hash (List.find (\<lambda>r. key_id r = kid) (api_keys db))"

definition sqlSelectAPIKeyByID :: "string \<Rightarrow> keyDb \<Rightarrow> apiKeyRow option" where
  "sqlSelectAPIKeyByID kid db = List.find (\<lambda>r. key_id r = kid) (api_keys db)"

definition sqlUpdateAPIKeyEnabled :: "bool \<Rightarrow> string \<Rightarrow> keyDb \<Rightarrow> keyDb" where
  "sqlUpdateAPIKeyEnabled b kid = updateKey kid (\<lambda>r. r\<lparr>enabled := b\<rparr>)"

definition sqlUpdateAPIKeyAllowedModels :: "string \<Rightarrow> string \<Rightarrow> keyDb \<Rightarrow> keyDb" where
  "sqlUpdateAPIKeyAllowedModels m kid = updateKey kid (\<lambda>r. r\<lparr>allowed_models := m\<rparr>)"

definition sqlUpdateAPIKeyRPS :: "int \<Rightarrow> string \<Rightarrow> keyDb \<Rightarrow> keyDb" where
  "sqlUpdateAPIKeyRPS v kid = updateKey kid (\<lambda>r. r\<lparr>rate_limit_rps := v\<rparr>)"

definition sqlUpdateAPIKeyBurst :: "int \<Rightarrow> string \<Rightarrow> keyDb \<Rightarrow> keyDb" where
  "sqlUpdateAPIKeyBurst v kid = updateKey kid (\<lambda>r. r\<lparr>burst_size := v\<rparr>)"

definition sqlUpdateAPIKeyTPM :: "int \<Rightarrow> string \<Rightarrow> keyDb \<Rightarrow> keyDb" where
  "sqlUpdateAPIKeyTPM v kid = updateKey kid (\<lambda>r. r\<lparr>tokens_per_min := v\<rparr>)"

definition sqlUpdateKeyClass :: "string \<Rightarrow> string \<Rightarrow> string \<Rightarrow> string \<Rightarrow> keyDb \<Rightarrow> keyDb" where
  "sqlUpdateKeyClass kid pc def allowed =
     updateKey kid (\<lambda>r. r\<lparr>priority_class := pc, default_objective := def, allowed_objectives := allowed\<rparr>)"

text \<open>\<open>COALESCE\<close> of a NULL parameter keeps the column.\<close>

definition coalesce :: "'a option \<Rightarrow> 'a \<Rightarrow> 'a" where
  "coalesce v old = (case v of None \<Rightarrow> old | Some x \<Rightarrow> x)"

definition sqlPatchKeyClass :: "string \<Rightarrow> string option \<Rightarrow> string option \<Rightarrow> string option \<Rightarrow> keyDb \<Rightarrow> keyDb" where
  "sqlPatchKeyClass kid pc def allowed =
     updateKey kid (\<lambda>r. r\<lparr>priority_class := coalesce pc (priority_class r), default_objective := coalesce def (default_objective r),
       allowed_objectives := coalesce allowed (allowed_objectives r)\<rparr>)"

definition sqlDeleteAPIKeyByID :: "string \<Rightarrow> keyDb \<Rightarrow> keyDb" where
  "sqlDeleteAPIKeyByID kid db = db\<lparr>api_keys := filter (\<lambda>r. key_id r \<noteq> kid) (api_keys db)\<rparr>"

subsection \<open>Statements on the limit tables\<close>

text \<open>An upsert sets the columns it names and leaves the others of an existing row alone.\<close>

definition sqlUpsertTenantRateLimit :: "string \<Rightarrow> int \<Rightarrow> int \<Rightarrow> int \<Rightarrow> int \<Rightarrow> keyDb \<Rightarrow> keyDb" where
  "sqlUpsertTenantRateLimit t rl tpm bpct now db =
     (if list_ex (\<lambda>r. tl_tenant r = t) (tenant_rate_limits db)
      then db\<lparr>tenant_rate_limits := map (\<lambda>r. if tl_tenant r = t
             then r\<lparr>tl_rps := rl, tl_tpm := tpm, tl_burst_pct := bpct, tl_updated_at := now\<rparr> else r) (tenant_rate_limits db)\<rparr>
      else db\<lparr>tenant_rate_limits := tenant_rate_limits db @ [\<lparr>tl_tenant = t, tl_rps = rl, tl_tpm = tpm, tl_burst_pct = bpct,
             tl_updated_at = now, tl_priority_class = '''', tl_default_objective = '''', tl_allowed_objectives = ''''\<rparr>]\<rparr>)"

definition sqlSelectTenantRateLimit :: "string \<Rightarrow> keyDb \<Rightarrow> (int \<times> int \<times> int) option" where
  "sqlSelectTenantRateLimit t db =
     map_option (\<lambda>r. (tl_rps r, tl_tpm r, tl_burst_pct r)) (List.find (\<lambda>r. tl_tenant r = t) (tenant_rate_limits db))"

definition sqlUpsertTenantModelRateLimit :: "string \<Rightarrow> string \<Rightarrow> int \<Rightarrow> int \<Rightarrow> keyDb \<Rightarrow> keyDb" where
  "sqlUpsertTenantModelRateLimit t m tpm now db =
     (if list_ex (\<lambda>r. tm_tenant r = t \<and> tm_model r = m) (tenant_model_rate_limits db)
      then db\<lparr>tenant_model_rate_limits := map (\<lambda>r. if tm_tenant r = t \<and> tm_model r = m
             then r\<lparr>tm_tpm := tpm, tm_updated_at := now\<rparr> else r) (tenant_model_rate_limits db)\<rparr>
      else db\<lparr>tenant_model_rate_limits := tenant_model_rate_limits db @ [\<lparr>tm_tenant = t, tm_model = m, tm_tpm = tpm, tm_updated_at = now\<rparr>]\<rparr>)"

definition sqlDeleteTenantModelRateLimit :: "string \<Rightarrow> string \<Rightarrow> keyDb \<Rightarrow> keyDb" where
  "sqlDeleteTenantModelRateLimit t m db =
     db\<lparr>tenant_model_rate_limits := filter (\<lambda>r. \<not> (tm_tenant r = t \<and> tm_model r = m)) (tenant_model_rate_limits db)\<rparr>"

definition sqlSelectTenantModelRateLimit :: "string \<Rightarrow> string \<Rightarrow> keyDb \<Rightarrow> int option" where
  "sqlSelectTenantModelRateLimit t m db =
     map_option tm_tpm (List.find (\<lambda>r. tm_tenant r = t \<and> tm_model r = m) (tenant_model_rate_limits db))"

subsection \<open>Running statements\<close>

datatype stmtFate = Answered | Fails drvErr bool

type_synonym fates = "nat \<Rightarrow> stmtFate"

definition queryRow :: "stmtFate \<Rightarrow> (keyDb \<Rightarrow> 'a option) \<Rightarrow> keyDb \<Rightarrow> drvErr + 'a" where
  "queryRow fate q db =
     (case fate of
        Fails e _ \<Rightarrow> Inl e
      | Answered \<Rightarrow> (case q db of None \<Rightarrow> Inl errNoRows | Some x \<Rightarrow> Inr x))"

definition execStmt :: "stmtFate \<Rightarrow> (keyDb \<Rightarrow> drvErr + keyDb) \<Rightarrow> keyDb \<Rightarrow> drvErr option \<times> keyDb" where
  "execStmt fate f db =
     (case f db of
        Inl e \<Rightarrow> (case fate of Answered \<Rightarrow> (Some e, db) | Fails e' _ \<Rightarrow> (Some e', db))
      | Inr db' \<Rightarrow> (case fate of Answered \<Rightarrow> (None, db') | Fails e' applied \<Rightarrow> (Some e', if applied then db' else db)))"

text \<open>
  \<open>inTx\<close>: the pool of the service is always a \<open>*sql.DB\<close>, which has transactions. The body gives its
  own error, or its result with the rows it leaves; a rollback leaves the rows as they were.
\<close>

definition inTx :: "(drvErr \<Rightarrow> 'e) \<Rightarrow> stmtFate \<Rightarrow> stmtFate \<Rightarrow> (keyDb \<Rightarrow> 'e + 'a \<times> keyDb) \<Rightarrow> keyDb \<Rightarrow> ('e + 'a) \<times> keyDb" where
  "inTx wrap beginFate commitFate body db =
     (case beginFate of
        Fails e _ \<Rightarrow> (Inl (wrap (writeErr e)), db)
      | Answered \<Rightarrow>
          (case body db of
             Inl err \<Rightarrow> (Inl err, db)
           | Inr (x, db') \<Rightarrow>
               (case commitFate of
                  Answered \<Rightarrow> (Inr x, db')
                | Fails e applied \<Rightarrow> (Inl (wrap (writeErr e)), if applied then db' else db))))"

section \<open>Lemmas\<close>

lemma Split_nonempty: "Split d s \<noteq> []"
  by (induction s) (auto split: list.splits)

lemma Split_plain: "d \<notin> set x \<Longrightarrow> Split d x = [x]"
  by (induction x) auto

lemma Split_cons: "d \<notin> set x \<Longrightarrow> Split d (x @ d # s) = x # Split d s"
  by (induction x) auto

lemma Split_join: "l \<noteq> [] \<Longrightarrow> \<forall>x \<in> set l. d \<notin> set x \<Longrightarrow> Split d (joinWith d l) = l"
  by (induction d l rule: joinWith.induct) (auto simp: Split_plain Split_cons)

lemma join_empty: "joinWith d l = '''' \<longleftrightarrow> l = [] \<or> l = ['''']"
  by (cases "(d, l)" rule: joinWith.cases) auto

text \<open>A list column: what is written is read back, unless a member holds a comma or the only member is empty.\<close>

interpretation column: codec joinList "\<lambda>s. Some (splitList s)" "\<lambda>l. l \<noteq> [''''] \<and> (\<forall>x \<in> set l. CHR '','' \<notin> set x)"
proof
  fix l :: "string list"
  assume "l \<noteq> [''''] \<and> (\<forall>x \<in> set l. CHR '','' \<notin> set x)"
  then show "Some (splitList (joinList l)) = Some l"
    using Split_join [of l "CHR '',''"] join_empty [of "CHR '',''" l] by (cases "l = []") (simp_all add: splitList_def joinList_def)
qed

lemma dedup_set: "set (dedup seen xs) = set xs - set seen" and dedup_distinct: "distinct (dedup seen xs)"
  by (induction xs arbitrary: seen) (auto split: if_splits)

lemma dedup_id: "distinct xs \<Longrightarrow> set xs \<inter> set seen = {} \<Longrightarrow> dedup seen xs = xs"
  by (induction xs arbitrary: seen) auto

lemma dedup_length: "length (dedup seen xs) \<le> length xs"
  by (induction xs arbitrary: seen) (auto intro: le_SucI)

lemma objective_plain: "validObjectiveName n \<or> IsAITierObjective n \<Longrightarrow> n \<noteq> '''' \<and> CHR '','' \<notin> set n"
proof -
  have "\<not> objectiveChar CHR '',''" by (simp add: objectiveChar_def)
  then show "validObjectiveName n \<or> IsAITierObjective n \<Longrightarrow> n \<noteq> '''' \<and> CHR '','' \<notin> set n"
    by (auto simp: validObjectiveName_def IsAITierObjective_def AITierObjectives_def list_all_iff)
qed

section \<open>Properties\<close>

text \<open>
  The stored form of a class policy. A policy that passes validation names the same allowed
  objectives, sorted and once each; the column it is stored in reads back as exactly that list, and
  validating the stored form again changes nothing.
\<close>

theorem class_policy_roundtrip:
  assumes "ValidateClassPolicy p = Inr q"
  shows "splitList (joinList (AllowedObjectives q)) = AllowedObjectives q \<and> set (AllowedObjectives q) = set (AllowedObjectives p) \<and>
         sorted (AllowedObjectives q) \<and> distinct (AllowedObjectives q) \<and> ValidateClassPolicy q = Inr q \<and>
         PriorityClass q = PriorityClass p \<and> DefaultObjective q = DefaultObjective p"
proof -
  let ?l = "sort (dedup [] (AllowedObjectives p))"
  have q: "q = p\<lparr>AllowedObjectives := ?l\<rparr>" and names: "list_all (\<lambda>n. validObjectiveName n \<or> IsAITierObjective n) (AllowedObjectives p)"
    using assms by (auto simp: ValidateClassPolicy_def split: if_splits)
  have d: "distinct ?l" "set ?l = set (AllowedObjectives p)" by (simp_all add: dedup_distinct dedup_set)
  have "splitList (joinList ?l) = ?l"
  proof -
    have "\<forall>x \<in> set ?l. x \<noteq> '''' \<and> CHR '','' \<notin> set x" using names objective_plain d(2) by (auto simp: list_all_iff)
    then have "?l \<noteq> [''''] \<and> (\<forall>x \<in> set ?l. CHR '','' \<notin> set x)" by (metis list.set_intros(1))
    then show ?thesis using column.dec_enc [of ?l] by simp
  qed
  moreover have "ValidateClassPolicy q = Inr q"
  proof -
    have "dedup [] ?l = ?l" using d(1) by (intro dedup_id) simp_all
    moreover have "length ?l \<le> length (AllowedObjectives p)" using dedup_length [of "[]" "AllowedObjectives p"] by simp
    moreover have "list_all (\<lambda>n. validObjectiveName n \<or> IsAITierObjective n) ?l" using names d(2) by (simp add: list_all_iff)
    ultimately show ?thesis using assms by (auto simp: ValidateClassPolicy_def q sort_key_id_if_sorted split: if_splits)
  qed
  ultimately show ?thesis using d by (simp add: q)
qed

theorem class_policy_roundtrip_witness:
  "\<exists>q. ValidateClassPolicy \<lparr>PriorityClass = ''critical'', DefaultObjective = ''gold'', AllowedObjectives = [''tier:fast'', ''gold'', ''gold'']\<rparr> = Inr q \<and>
     splitList (joinList (AllowedObjectives q)) = AllowedObjectives q \<and> set (AllowedObjectives q) = {''gold'', ''tier:fast''}"
proof -
  let ?p = "\<lparr>PriorityClass = ''critical'', DefaultObjective = ''gold'', AllowedObjectives = [''tier:fast'', ''gold'', ''gold'']\<rparr>"
  obtain q where "ValidateClassPolicy ?p = Inr q"
    by (simp add: ValidateClassPolicy_def validObjectiveName_def objectiveChar_def IsAITierObjective_def AITierObjectives_def)
  then show ?thesis using class_policy_roundtrip [of ?p q] by auto
qed

end
