(* ===== verification/Class_Snapshot.thy ===== *)
theory Class_Snapshot
  imports Key_Tables
begin

text \<open>
  The objectives and classes a request is decided with (src/pkg/aikey/class_snapshot.go,
  class_lkg_limits.go): one immutable snapshot of the store, read by several refreshers at once
  (the ticker, and every write on this gateway), published in the order of the tickets the reads
  took, and kept in a last-known-good file for a start while the store is away. The refreshers
  run statement by statement in a step relation in which the tables may change between any two
  statements.
\<close>

section \<open>Definitions\<close>

subsection \<open>Cache keys\<close>

definition cacheKeyForHash :: "string \<Rightarrow> string" where "cacheKeyForHash h = ''ak:'' @ h"
definition cacheKeyForID :: "string \<Rightarrow> string" where "cacheKeyForID k = ''keyid:'' @ k"
definition cacheKeyForTenant :: "string \<Rightarrow> string" where "cacheKeyForTenant t = ''rl:'' @ t"
definition cacheKeyForModel :: "string \<Rightarrow> string \<Rightarrow> string" where "cacheKeyForModel t m = ''rlm:'' @ t @ ''|'' @ m"
definition cacheKeyForDefaults :: "string \<Rightarrow> string \<Rightarrow> string" where "cacheKeyForDefaults s r = ''rld:'' @ s @ ''|'' @ r"

subsection \<open>Limit rows of the file\<close>

record lkgTenantLimit =
  lt_tenant :: string
  lt_rps :: int
  lt_tpm :: int
  lt_burst_pct :: int

record lkgTenantModelLimit =
  lm_tenant :: string
  lm_model :: string
  lm_tpm :: int

text \<open>A row of \<open>rate_limit_defaults\<close> has the same columns in the file as in its table.\<close>

record limitRows =
  lr_tenants :: "lkgTenantLimit list"
  lr_models :: "lkgTenantModelLimit list"
  lr_defaults :: "defaultsRow list"

definition tenantLimitRows :: "keyDb \<Rightarrow> lkgTenantLimit list" where
  "tenantLimitRows db = map (\<lambda>r. \<lparr>lt_tenant = tl_tenant r, lt_rps = tl_rps r, lt_tpm = tl_tpm r, lt_burst_pct = tl_burst_pct r\<rparr>)
     (tenant_rate_limits db)"

definition tenantModelLimitRows :: "keyDb \<Rightarrow> lkgTenantModelLimit list" where
  "tenantModelLimitRows db = map (\<lambda>r. \<lparr>lm_tenant = tm_tenant r, lm_model = tm_model r, lm_tpm = tm_tpm r\<rparr>)
     (tenant_model_rate_limits db)"

definition limitRowsSort :: "limitRows \<Rightarrow> limitRows" where
  "limitRowsSort l =
     \<lparr>lr_tenants = sort_key lt_tenant (lr_tenants l), lr_models = sort_key (\<lambda>r. (lm_tenant r, lm_model r)) (lr_models l),
      lr_defaults = sort_key (\<lambda>r. (df_scope r, df_rule_ident r)) (lr_defaults l)\<rparr>"

definition query :: "stmtFate \<Rightarrow> (keyDb \<Rightarrow> 'a) \<Rightarrow> keyDb \<Rightarrow> drvErr + 'a" where
  "query fate q db = (case fate of Fails e _ \<Rightarrow> Inl e | Answered \<Rightarrow> Inr (q db))"

definition readLimitRows :: "fates \<Rightarrow> keyDb \<Rightarrow> drvErr + limitRows" where
  "readLimitRows fates db =
     (case query (fates 0) tenantLimitRows db of
        Inl e \<Rightarrow> Inl e
      | Inr ts \<Rightarrow>
          (case query (fates 1) tenantModelLimitRows db of
             Inl e \<Rightarrow> Inl e
           | Inr ms \<Rightarrow>
               (case query (fates 2) rate_limit_defaults db of
                  Inl e \<Rightarrow> Inl e
                | Inr ds \<Rightarrow> Inr (limitRowsSort \<lparr>lr_tenants = ts, lr_models = ms, lr_defaults = ds\<rparr>))))"

record rateLimitCacheEntry =
  rl_rps :: int
  rl_tpm :: int
  rl_burst_pct :: int

record lkgLimitSet =
  ls_limits :: "string \<rightharpoonup> rateLimitCacheEntry"
  ls_defaults :: "string \<rightharpoonup> RateLimitDefaultsEntry"

definition newLKGLimitSet :: "limitRows \<Rightarrow> lkgLimitSet" where
  "newLKGLimitSet l =
     \<lparr>ls_limits =
        fold (\<lambda>r m. m(cacheKeyForModel (lm_tenant r) (lm_model r) \<mapsto> \<lparr>rl_rps = 0, rl_tpm = lm_tpm r, rl_burst_pct = 0\<rparr>)) (lr_models l)
          (fold (\<lambda>r m. m(cacheKeyForTenant (lt_tenant r) \<mapsto> \<lparr>rl_rps = lt_rps r, rl_tpm = lt_tpm r, rl_burst_pct = lt_burst_pct r\<rparr>)) (lr_tenants l)
            Map.empty),
      ls_defaults = fold (\<lambda>r m. m(cacheKeyForDefaults (df_scope r) (df_rule_ident r) \<mapsto> df_limits r)) (lr_defaults l) Map.empty\<rparr>"

subsection \<open>Snapshots\<close>

datatype classSource = AIClassSourceStore | AIClassSourceLKG

type_synonym objectiveMap = "(string \<times> AIObjectiveEntry) list"
type_synonym classMap = "(string \<times> AIClassPolicy) list"

record ClassSnapshot =
  snObjectives :: objectiveMap
  snTenants :: classMap
  snKeys :: classMap
  snReadAt :: int
  snSource :: classSource
  snGen :: int
  snLimits :: "limitRows option"

definition Configured :: "ClassSnapshot option \<Rightarrow> bool" where
  "Configured c = (case c of None \<Rightarrow> False | Some s \<Rightarrow> snObjectives s \<noteq> [] \<or> snTenants s \<noteq> [] \<or> snKeys s \<noteq> [])"

definition readObjectives :: "keyDb \<Rightarrow> objectiveMap" where
  "readObjectives db =
     fold (\<lambda>r m. AList.update (ob_name r)
        \<lparr>ObjName = ob_name r, ObjServices = splitList (ob_services r), ObjPriority = ob_priority r, ObjUpdatedAt = ob_updated_at r\<rparr> m)
       (objectives db) []"

definition classRows :: "(string \<times> string \<times> string \<times> string) list \<Rightarrow> classMap" where
  "classRows rows =
     fold (\<lambda>(i, pc, def, allowed) m. AList.update i
        \<lparr>PriorityClass = pc, DefaultObjective = def, AllowedObjectives = splitList allowed\<rparr> m)
       (filter (\<lambda>(i, pc, def, allowed). pc \<noteq> '''' \<or> def \<noteq> '''' \<or> allowed \<noteq> '''') rows) []"

definition readTenantClasses :: "keyDb \<Rightarrow> classMap" where
  "readTenantClasses db = classRows (map (\<lambda>r. (tl_tenant r, tl_priority_class r, tl_default_objective r, tl_allowed_objectives r)) (tenant_rate_limits db))"

definition readKeyClasses :: "keyDb \<Rightarrow> classMap" where
  "readKeyClasses db = classRows (map (\<lambda>r. (key_id r, priority_class r, default_objective r, allowed_objectives r)) (api_keys db))"

subsection \<open>The file\<close>

record classLKGFile =
  lf_version :: int
  lf_timestamp :: int
  lf_objectives :: "AIObjectiveEntry list"
  lf_tenants :: classMap
  lf_keys :: classMap
  lf_tenant_limits :: "lkgTenantLimit list"
  lf_model_limits :: "lkgTenantModelLimit list"
  lf_defaults :: "defaultsRow list"

text \<open>
  The content of the file without its timestamp. The encoder writes the keys of a map in order, so
  the maps are sorted by their keys; equal contents are equal bytes.
\<close>

definition lkgContent :: "ClassSnapshot \<Rightarrow> classLKGFile" where
  "lkgContent snap =
     \<lparr>lf_version = 2, lf_timestamp = 0,
      lf_objectives = sort_key ObjName (map snd (snObjectives snap)),
      lf_tenants = sort_key fst (snTenants snap), lf_keys = sort_key fst (snKeys snap),
      lf_tenant_limits = (case snLimits snap of None \<Rightarrow> [] | Some l \<Rightarrow> lr_tenants l),
      lf_model_limits = (case snLimits snap of None \<Rightarrow> [] | Some l \<Rightarrow> lr_models l),
      lf_defaults = (case snLimits snap of None \<Rightarrow> [] | Some l \<Rightarrow> lr_defaults l)\<rparr>"

datatype lkgDisk = LkgMissing | LkgUnreadable | LkgFile classLKGFile

text \<open>
  The class side of the service, with the file on disk and the calls of the change hook.
  \<open>hlLastOK\<close> is None for the zero time.
\<close>

record classState =
  csSnap :: "ClassSnapshot option"
  csDir :: string
  csWritten :: "classLKGFile option"
  csLkgTicks :: int
  csReadGen :: int
  csLkgLimits :: "lkgLimitSet option"
  hlGen :: int
  hlReachable :: bool
  hlLastOK :: "int option"
  csDisk :: lkgDisk
  csHook :: "ClassSnapshot list"

definition newClassState :: "string \<Rightarrow> lkgDisk \<Rightarrow> classState" where
  "newClassState dir disk =
     \<lparr>csSnap = None, csDir = dir, csWritten = None, csLkgTicks = 0, csReadGen = 0, csLkgLimits = None,
      hlGen = 0, hlReachable = False, hlLastOK = None, csDisk = disk, csHook = []\<rparr>"

definition noteStoreRead :: "int \<Rightarrow> bool \<Rightarrow> int \<Rightarrow> classState \<Rightarrow> classState" where
  "noteStoreRead gen ok now s =
     (if gen < hlGen s then s
      else s\<lparr>hlGen := gen, hlReachable := ok, hlLastOK := (if ok then Some now else hlLastOK s)\<rparr>)"

definition publishClasses :: "ClassSnapshot \<Rightarrow> classState \<Rightarrow> bool \<times> classState" where
  "publishClasses snap s =
     (if (case csSnap s of None \<Rightarrow> False | Some cur \<Rightarrow> snSource cur = AIClassSourceStore \<and> snGen cur \<ge> snGen snap) then (False, s)
      else (True, s\<lparr>csSnap := Some snap, csLkgLimits := None, csHook := csHook s @ [snap]\<rparr>))"

text \<open>\<open>ok\<close>: whether the file could be written.\<close>

definition writeClassLKG :: "bool \<Rightarrow> ClassSnapshot \<Rightarrow> classState \<Rightarrow> classState" where
  "writeClassLKG ok snap s =
     (if csDir s = '''' then s
      else let body = lkgContent snap
           in if csWritten s = Some body then s
              else if \<not> ok then s
              else s\<lparr>csDisk := LkgFile (body\<lparr>lf_timestamp := snReadAt snap\<rparr>), csWritten := Some body\<rparr>)"

definition writeClassLKGIfCurrent :: "bool \<Rightarrow> ClassSnapshot \<Rightarrow> classState \<Rightarrow> classState" where
  "writeClassLKGIfCurrent ok snap s = (if csSnap s \<noteq> Some snap then s else writeClassLKG ok snap s)"

subsection \<open>A refresh\<close>

text \<open>
  \<open>connected\<close> says whether the pool exists; the fates are those of the six statements of the
  read in order; \<open>now\<close> is the clock when the last of them answered.
\<close>

definition refreshClasses :: "bool \<Rightarrow> fates \<Rightarrow> int \<Rightarrow> bool \<Rightarrow> int \<Rightarrow> keyDb \<Rightarrow> classState \<Rightarrow> drvErr option \<times> classState" where
  "refreshClasses connected fates now fileOk gen db s =
     (if \<not> connected then (Some errStoreUnavailable, s)
      else case query (fates 0) readObjectives db of Inl e \<Rightarrow> (Some (readErr e), s) | Inr objs \<Rightarrow>
        (case query (fates 1) readTenantClasses db of Inl e \<Rightarrow> (Some (readErr e), s) | Inr tenants \<Rightarrow>
          (case query (fates 2) readKeyClasses db of Inl e \<Rightarrow> (Some (readErr e), s) | Inr keys \<Rightarrow>
            (case readLimitRows (\<lambda>n. fates (3 + n)) db of Inl e \<Rightarrow> (Some (readErr e), s) | Inr limits \<Rightarrow>
              (let snap = \<lparr>snObjectives = objs, snTenants = tenants, snKeys = keys, snReadAt = now,
                           snSource = AIClassSourceStore, snGen = gen, snLimits = Some limits\<rparr>
               in case publishClasses snap s of
                    (False, s) \<Rightarrow> (None, s)
                  | (True, s) \<Rightarrow> (None, writeClassLKGIfCurrent fileOk snap s))))))"

definition RefreshClasses :: "bool \<Rightarrow> fates \<Rightarrow> int \<Rightarrow> bool \<Rightarrow> keyDb \<Rightarrow> classState \<Rightarrow> drvErr option \<times> classState" where
  "RefreshClasses connected fates now fileOk db s =
     (let gen = csReadGen s + 1; s = s\<lparr>csReadGen := gen\<rparr>
      in case refreshClasses connected fates now fileOk gen db s of
           (err, s) \<Rightarrow> (err, noteStoreRead gen (err = None) now s))"

definition refreshClassesAfterWrite :: "bool \<Rightarrow> fates \<Rightarrow> int \<Rightarrow> bool \<Rightarrow> keyDb \<Rightarrow> classState \<Rightarrow> classState" where
  "refreshClassesAfterWrite connected fates now fileOk db s = snd (RefreshClasses connected fates now fileOk db s)"

text \<open>The snapshot a file gives.\<close>

definition lkgSnapshot :: "classLKGFile \<Rightarrow> ClassSnapshot" where
  "lkgSnapshot f =
     \<lparr>snObjectives = fold (\<lambda>o' m. AList.update (ObjName o') o' m) (lf_objectives f) [],
      snTenants = lf_tenants f, snKeys = lf_keys f, snReadAt = lf_timestamp f, snSource = AIClassSourceLKG, snGen = 0,
      snLimits = (if lf_version f \<ge> 2
                  then Some (limitRowsSort \<lparr>lr_tenants = lf_tenant_limits f, lr_models = lf_model_limits f, lr_defaults = lf_defaults f\<rparr>)
                  else None)\<rparr>"

definition loadClassLKG :: "classState \<Rightarrow> bool \<times> classState" where
  "loadClassLKG s =
     (if csSnap s \<noteq> None then (False, s)
      else if csDir s = '''' then (False, s)
      else case csDisk s of
             LkgMissing \<Rightarrow> (False, s)
           | LkgUnreadable \<Rightarrow> (False, s)
           | LkgFile f \<Rightarrow>
               if lf_version f \<noteq> 2 \<and> lf_version f \<noteq> 1 then (False, s)
               else let snap = lkgSnapshot f;
                        s = s\<lparr>csLkgLimits := (case snLimits snap of None \<Rightarrow> csLkgLimits s | Some l \<Rightarrow> Some (newLKGLimitSet l)),
                              hlLastOK := (case hlLastOK s of None \<Rightarrow> Some (lf_timestamp f) | Some t \<Rightarrow> Some t),
                              csSnap := Some snap, csHook := csHook s @ [snap]\<rparr>
                    in (True, if lf_version f = 2 then s\<lparr>csWritten := Some (lkgContent snap)\<rparr> else s))"

definition classTick :: "bool \<Rightarrow> fates \<Rightarrow> int \<Rightarrow> bool \<Rightarrow> keyDb \<Rightarrow> classState \<Rightarrow> classState" where
  "classTick connected fates now fileOk db s =
     (let s = (case RefreshClasses connected fates now fileOk db s of
                 (None, s) \<Rightarrow> s
               | (Some _, s) \<Rightarrow> snd (loadClassLKG s))
      in case csSnap s of
           None \<Rightarrow> s
         | Some snap \<Rightarrow> if snSource snap = AIClassSourceLKG then s\<lparr>csLkgTicks := csLkgTicks s + 1\<rparr> else s)"

text \<open>The limits the file answers with; None while the file is not served.\<close>

definition noLimit :: rateLimitCacheEntry where "noLimit = \<lparr>rl_rps = 0, rl_tpm = 0, rl_burst_pct = 0\<rparr>"

definition lkgRateLimit :: "string \<Rightarrow> classState \<Rightarrow> rateLimitCacheEntry option" where
  "lkgRateLimit cacheKey s =
     (case csLkgLimits s of
        None \<Rightarrow> None
      | Some ls \<Rightarrow> (case ls_limits ls cacheKey of Some e \<Rightarrow> Some e | None \<Rightarrow> Some noLimit))"

text \<open>The entry of the defaults cache, None inside when the file has no such row.\<close>

definition lkgDefaultsEntry :: "string \<Rightarrow> classState \<Rightarrow> RateLimitDefaultsEntry option option" where
  "lkgDefaultsEntry cacheKey s = map_option (\<lambda>ls. ls_defaults ls cacheKey) (csLkgLimits s)"

subsection \<open>Refreshers side by side\<close>

text \<open>
  The six statements of a read, each writing its part of the snapshot. The three limit tables
  are sorted as the last of them has answered; each list is sorted for itself.
\<close>

definition emptyRows :: limitRows where "emptyRows = \<lparr>lr_tenants = [], lr_models = [], lr_defaults = []\<rparr>"

definition readPart :: "nat \<Rightarrow> keyDb \<Rightarrow> ClassSnapshot \<Rightarrow> ClassSnapshot" where
  "readPart n db snap =
     (let l = (case snLimits snap of None \<Rightarrow> emptyRows | Some l \<Rightarrow> l)
      in if n = 0 then snap\<lparr>snObjectives := readObjectives db\<rparr>
         else if n = 1 then snap\<lparr>snTenants := readTenantClasses db\<rparr>
         else if n = 2 then snap\<lparr>snKeys := readKeyClasses db\<rparr>
         else if n = 3 then snap\<lparr>snLimits := Some (l\<lparr>lr_tenants := sort_key lt_tenant (tenantLimitRows db)\<rparr>)\<rparr>
         else if n = 4 then snap\<lparr>snLimits := Some (l\<lparr>lr_models := sort_key (\<lambda>r. (lm_tenant r, lm_model r)) (tenantModelLimitRows db)\<rparr>)\<rparr>
         else snap\<lparr>snLimits := Some (l\<lparr>lr_defaults := sort_key (\<lambda>r. (df_scope r, df_rule_ident r)) (rate_limit_defaults db)\<rparr>)\<rparr>)"

definition blankSnap :: "int \<Rightarrow> ClassSnapshot" where
  "blankSnap gen = \<lparr>snObjectives = [], snTenants = [], snKeys = [], snReadAt = 0, snSource = AIClassSourceStore, snGen = gen, snLimits = Some emptyRows\<rparr>"

text \<open>
  Where a refresher stands: its ticket with the parts read so far and their number, published and
  about to write the file, about to note the outcome, or finished with its outcome. \<open>Listing\<close> is a
  call of \<open>ObjectiveList\<close>, which takes a ticket and notes an outcome but publishes nothing.
\<close>

datatype refresher = RIdle | Reading ClassSnapshot nat | Published ClassSnapshot | Noting int bool | Finished int bool | Listing int

fun resting :: "refresher \<Rightarrow> bool" where
  "resting RIdle = True"
| "resting (Finished _ _) = True"
| "resting _ = False"

text \<open>\<open>rfHist\<close> is every content the tables have had; \<open>rfStarts\<close> is, per ticket, the latest of them when it was taken.\<close>

record refreshers =
  rfProcs :: "refresher list"
  rfClass :: classState
  rfHist :: "keyDb list"
  rfStarts :: "nat list"

definition setProc :: "nat \<Rightarrow> refresher \<Rightarrow> classState \<Rightarrow> refreshers \<Rightarrow> refreshers" where
  "setProc i p s c = c\<lparr>rfProcs := (rfProcs c)[i := p], rfClass := s\<rparr>"

inductive refreshStep :: "refreshers \<Rightarrow> refreshers \<Rightarrow> bool" where
  tables: "refreshStep c (c\<lparr>rfHist := rfHist c @ [db]\<rparr>)"
| ticket: "i < length (rfProcs c) \<Longrightarrow> resting (rfProcs c ! i) \<Longrightarrow> gen = csReadGen (rfClass c) + 1 \<Longrightarrow>
     p = Reading (blankSnap gen) 0 \<or> p = Listing gen \<Longrightarrow>
     refreshStep c ((setProc i p ((rfClass c)\<lparr>csReadGen := gen\<rparr>) c)\<lparr>rfStarts := rfStarts c @ [length (rfHist c) - 1]\<rparr>)"
| statement: "i < length (rfProcs c) \<Longrightarrow> rfProcs c ! i = Reading snap n \<Longrightarrow> n < 6 \<Longrightarrow>
     refreshStep c (setProc i (Reading (readPart n (last (rfHist c)) snap) (Suc n)) (rfClass c) c)"
| failed: "i < length (rfProcs c) \<Longrightarrow> rfProcs c ! i = Reading snap n \<Longrightarrow> n < 6 \<Longrightarrow>
     refreshStep c (setProc i (Noting (snGen snap) False) (rfClass c) c)"
| listed: "i < length (rfProcs c) \<Longrightarrow> rfProcs c ! i = Listing gen \<Longrightarrow>
     refreshStep c (setProc i RIdle (noteStoreRead gen ok now (rfClass c)) c)"
| publish: "i < length (rfProcs c) \<Longrightarrow> rfProcs c ! i = Reading snap 6 \<Longrightarrow> snap' = snap\<lparr>snReadAt := now\<rparr> \<Longrightarrow>
     publishClasses snap' (rfClass c) = (ok, s) \<Longrightarrow>
     refreshStep c (setProc i (if ok then Published snap' else Noting (snGen snap') True) s c)"
| write_file: "i < length (rfProcs c) \<Longrightarrow> rfProcs c ! i = Published snap \<Longrightarrow>
     refreshStep c (setProc i (Noting (snGen snap) True) (writeClassLKGIfCurrent fileOk snap (rfClass c)) c)"
| note_read: "i < length (rfProcs c) \<Longrightarrow> rfProcs c ! i = Noting gen ok \<Longrightarrow>
     refreshStep c (setProc i (Finished gen ok) (noteStoreRead gen ok now (rfClass c)) c)"
| load: "refreshStep c (c\<lparr>rfClass := snd (loadClassLKG (rfClass c))\<rparr>)"

inductive refreshReach :: "refreshers \<Rightarrow> bool" where
  start: "refreshReach \<lparr>rfProcs = replicate n RIdle, rfClass = newClassState dir disk, rfHist = [db], rfStarts = []\<rparr>"
| step: "refreshReach c \<Longrightarrow> refreshStep c c' \<Longrightarrow> refreshReach c'"

text \<open>Part \<open>n\<close> of a snapshot is what the tables held at the time \<open>start\<close> or later.\<close>

definition partSince :: "keyDb list \<Rightarrow> nat \<Rightarrow> ClassSnapshot \<Rightarrow> nat \<Rightarrow> bool" where
  "partSince hist start snap n \<longleftrightarrow> (\<exists>i. start \<le> i \<and> i < length hist \<and> readPart n (hist ! i) snap = snap)"

text \<open>What the refreshers keep.\<close>

definition startOf :: "refreshers \<Rightarrow> int \<Rightarrow> nat" where
  "startOf c gen = rfStarts c ! nat (gen - 1)"

definition genOk :: "refreshers \<Rightarrow> int \<Rightarrow> bool" where
  "genOk c gen \<longleftrightarrow> 1 \<le> gen \<and> gen \<le> int (length (rfStarts c))"

definition readUpTo :: "refreshers \<Rightarrow> ClassSnapshot \<Rightarrow> nat \<Rightarrow> bool" where
  "readUpTo c snap k \<longleftrightarrow> genOk c (snGen snap) \<and> snSource snap = AIClassSourceStore \<and>
     (\<forall>n<k. partSince (rfHist c) (startOf c (snGen snap)) snap n)"

definition inForceGen :: "refreshers \<Rightarrow> int \<Rightarrow> bool" where
  "inForceGen c gen \<longleftrightarrow> (\<exists>snap. csSnap (rfClass c) = Some snap \<and> snSource snap = AIClassSourceStore \<and> gen \<le> snGen snap)"

fun procOk :: "refreshers \<Rightarrow> refresher \<Rightarrow> bool" where
  "procOk c (Reading snap n) = (n \<le> 6 \<and> readUpTo c snap n)"
| "procOk c (Published snap) = (readUpTo c snap 6 \<and> inForceGen c (snGen snap))"
| "procOk c (Noting gen ok) = (ok \<longrightarrow> genOk c gen \<and> inForceGen c gen)"
| "procOk c (Finished gen ok) = (ok \<longrightarrow> genOk c gen \<and> inForceGen c gen)"
| "procOk c _ = True"

definition refresh_inv :: "refreshers \<Rightarrow> bool" where
  "refresh_inv c \<longleftrightarrow> rfHist c \<noteq> [] \<and> csReadGen (rfClass c) = int (length (rfStarts c)) \<and> sorted (rfStarts c) \<and>
     (\<forall>s \<in> set (rfStarts c). s < length (rfHist c)) \<and> (\<forall>p \<in> set (rfProcs c). procOk c p) \<and>
     (\<forall>snap. csSnap (rfClass c) = Some snap \<longrightarrow> snSource snap = AIClassSourceStore \<longrightarrow> readUpTo c snap 6) \<and>
     sorted_wrt (<) (map snGen (filter (\<lambda>s. snSource s = AIClassSourceStore) (csHook (rfClass c)))) \<and>
     (\<forall>s \<in> set (csHook (rfClass c)). snSource s = AIClassSourceStore \<longrightarrow> inForceGen c (snGen s))"

section \<open>Lemmas\<close>

subsection \<open>Parts of a read\<close>

lemma readPart_fields [simp]:
  "snGen (readPart n db s) = snGen s" "snSource (readPart n db s) = snSource s" "snReadAt (readPart n db s) = snReadAt s"
  by (simp_all add: readPart_def Let_def)

lemma readPart_idem [simp]: "readPart n db (readPart n db s) = readPart n db s"
  by (simp add: readPart_def Let_def)

lemma less_six: "n < 6 \<Longrightarrow> n = 0 \<or> n = 1 \<or> n = 2 \<or> n = 3 \<or> n = 4 \<or> n = (5::nat)"
  by auto

lemma readPart_commute: "n < 6 \<Longrightarrow> m < 6 \<Longrightarrow> n \<noteq> m \<Longrightarrow> readPart n db (readPart m db' s) = readPart m db' (readPart n db s)"
  by (drule less_six, drule less_six, elim disjE) (simp_all add: readPart_def Let_def)

lemma readPart_readAt: "readPart n db (s\<lparr>snReadAt := t\<rparr>) = (readPart n db s)\<lparr>snReadAt := t\<rparr>"
  by (simp add: readPart_def Let_def)

lemma partSince_readAt [simp]: "partSince hist start (s\<lparr>snReadAt := t\<rparr>) n \<longleftrightarrow> partSince hist start s n"
proof -
  have "readPart n db (s\<lparr>snReadAt := t\<rparr>) = s\<lparr>snReadAt := t\<rparr> \<longleftrightarrow> readPart n db s = s" for db
  proof
    assume "readPart n db (s\<lparr>snReadAt := t\<rparr>) = s\<lparr>snReadAt := t\<rparr>"
    then have "(readPart n db s)\<lparr>snReadAt := t\<rparr>\<lparr>snReadAt := snReadAt s\<rparr> = s\<lparr>snReadAt := t\<rparr>\<lparr>snReadAt := snReadAt s\<rparr>"
      by (simp add: readPart_readAt)
    then show "readPart n db s = s" by (metis ClassSnapshot.surjective ClassSnapshot.update_convs(4) readPart_fields(3))
  qed (simp add: readPart_readAt)
  then show ?thesis by (simp add: partSince_def)
qed

lemma partSince_next:
  assumes "partSince hist start s n" and "n < m" and "m < 6"
  shows "partSince hist start (readPart m db s) n"
proof -
  obtain i where "start \<le> i" "i < length hist" "readPart n (hist ! i) s = s" using assms(1) by (auto simp: partSince_def)
  then show ?thesis using readPart_commute [of n m "hist ! i" db s] assms(2,3) by (auto simp: partSince_def)
qed

lemma partSince_now: "hist \<noteq> [] \<Longrightarrow> start < length hist \<Longrightarrow> partSince hist start (readPart n (last hist) s) n"
  by (auto simp: partSince_def last_conv_nth intro!: exI [of _ "length hist - 1"])

lemma partSince_hist: "partSince hist start s n \<Longrightarrow> partSince (hist @ h) start s n"
  by (auto simp: partSince_def nth_append intro: less_imp_le)

lemma partSince_mono: "partSince hist start s n \<Longrightarrow> start' \<le> start \<Longrightarrow> partSince hist start' s n"
  unfolding partSince_def by (meson le_trans)

subsection \<open>Steps only add\<close>

definition extends :: "refreshers \<Rightarrow> refreshers \<Rightarrow> bool" where
  "extends c c' \<longleftrightarrow> (\<exists>h. rfHist c' = rfHist c @ h) \<and> (\<exists>s. rfStarts c' = rfStarts c @ s) \<and> (\<forall>g. inForceGen c g \<longrightarrow> inForceGen c' g)"

lemma genOk_extends: "extends c c' \<Longrightarrow> genOk c g \<Longrightarrow> genOk c' g \<and> startOf c' g = startOf c g"
  by (auto simp: extends_def genOk_def startOf_def nth_append)

lemma readUpTo_extends: "extends c c' \<Longrightarrow> readUpTo c s k \<Longrightarrow> readUpTo c' s k"
  using genOk_extends [of c c' "snGen s"] by (auto simp: readUpTo_def extends_def partSince_hist)

lemma procOk_extends: "extends c c' \<Longrightarrow> procOk c p \<Longrightarrow> procOk c' p"
  using readUpTo_extends [of c c'] genOk_extends [of c c'] by (cases p) (auto simp: extends_def)

lemma class_simps [simp]:
  "csSnap (noteStoreRead g ok now s) = csSnap s" "csReadGen (noteStoreRead g ok now s) = csReadGen s"
  "csHook (noteStoreRead g ok now s) = csHook s" "csDisk (noteStoreRead g ok now s) = csDisk s"
  "csSnap (writeClassLKGIfCurrent f snap s) = csSnap s" "csReadGen (writeClassLKGIfCurrent f snap s) = csReadGen s"
  "csHook (writeClassLKGIfCurrent f snap s) = csHook s" "csLkgLimits (noteStoreRead g ok now s) = csLkgLimits s"
  "csLkgLimits (writeClassLKGIfCurrent f snap s) = csLkgLimits s"
  by (simp_all add: noteStoreRead_def writeClassLKGIfCurrent_def writeClassLKG_def Let_def)

lemma setProc_simps [simp]:
  "rfClass (setProc i p s c) = s" "rfHist (setProc i p s c) = rfHist c" "rfStarts (setProc i p s c) = rfStarts c"
  "rfProcs (setProc i p s c) = (rfProcs c)[i := p]"
  by (simp_all add: setProc_def)

text \<open>A step that leaves the snapshot and the tickets alone and moves one refresher.\<close>

lemma refresh_inv_move:
  assumes "refresh_inv c" and "csSnap s = csSnap (rfClass c)" and "csReadGen s = csReadGen (rfClass c)" and "csHook s = csHook (rfClass c)"
    and "procOk c p"
  shows "refresh_inv (setProc i p s c)"
proof -
  have F: "inForceGen (setProc i p s c) = inForceGen c" using assms(2) by (simp add: fun_eq_iff inForceGen_def)
  have "extends c (setProc i p s c)" by (simp add: extends_def F)
  note E = procOk_extends [OF this] readUpTo_extends [OF this]
  have "\<forall>q \<in> set ((rfProcs c)[i := p]). procOk (setProc i p s c) q"
    using assms(1,5) E(1) by (auto simp: refresh_inv_def dest!: set_update_subset_insert [THEN subsetD])
  then show ?thesis using assms E(2) unfolding refresh_inv_def F by (simp add: setProc_def)
qed

lemma publishClasses_force:
  assumes "publishClasses snap s = (ok, s')"
  shows "csReadGen s' = csReadGen s"
    and "\<not> ok \<Longrightarrow> s' = s \<and> (\<exists>cur. csSnap s = Some cur \<and> snSource cur = AIClassSourceStore \<and> snGen snap \<le> snGen cur)"
    and "ok \<Longrightarrow> csSnap s' = Some snap \<and> csHook s' = csHook s @ [snap] \<and> csLkgLimits s' = None \<and>
           (\<forall>cur. csSnap s = Some cur \<longrightarrow> snSource cur = AIClassSourceStore \<longrightarrow> snGen cur < snGen snap)"
  using assms by (auto simp: publishClasses_def split: if_splits option.splits)

lemma refresh_inv_publish:
  assumes I: "refresh_inv c" and R: "readUpTo c snap 6" and P: "publishClasses snap (rfClass c) = (ok, s)"
  shows "refresh_inv (setProc i (if ok then Published snap else Noting (snGen snap) True) s c)" (is "refresh_inv ?c")
proof (cases ok)
  case False
  note Q = publishClasses_force(2) [OF P False]
  then show ?thesis
    using False R I by (auto intro!: refresh_inv_move simp: inForceGen_def readUpTo_def)
next
  case True
  note Q = publishClasses_force(3) [OF P True] and S = R [unfolded readUpTo_def]
  have F: "inForceGen ?c g \<longleftrightarrow> g \<le> snGen snap" for g using Q S by (auto simp: inForceGen_def)
  have old: "g < snGen snap" if "inForceGen c g" for g using Q that by (auto simp: inForceGen_def)
  have ex: "extends c ?c" using old F by (auto simp: extends_def dest: less_imp_le)
  note E = procOk_extends [OF ex] readUpTo_extends [OF ex]
  have "\<forall>q \<in> set ((rfProcs c)[i := Published snap]). procOk ?c q"
    using I E(1) E(2) [OF R] F [of "snGen snap"] by (auto simp: refresh_inv_def dest!: set_update_subset_insert [THEN subsetD])
  moreover have "\<forall>t \<in> set (csHook (rfClass c)). snSource t = AIClassSourceStore \<longrightarrow> snGen t < snGen snap"
    using I old by (auto simp: refresh_inv_def)
  ultimately show ?thesis
    using I Q E(2) [OF R] True S F publishClasses_force(1) [OF P]
    by (auto simp: refresh_inv_def sorted_wrt_append less_imp_le)
qed

lemma refresh_inv_ticket:
  assumes I: "refresh_inv c" and g: "gen = csReadGen (rfClass c) + 1" and p: "p = Reading (blankSnap gen) 0 \<or> p = Listing gen"
  shows "refresh_inv ((setProc i p ((rfClass c)\<lparr>csReadGen := gen\<rparr>) c)\<lparr>rfStarts := rfStarts c @ [length (rfHist c) - 1]\<rparr>)" (is "refresh_inv ?c")
proof -
  have F: "inForceGen ?c = inForceGen c" by (simp add: fun_eq_iff inForceGen_def)
  have "extends c ?c" by (auto simp: extends_def inForceGen_def)
  note E = procOk_extends [OF this] readUpTo_extends [OF this]
  have "procOk ?c p" using p I g by (auto simp: readUpTo_def genOk_def blankSnap_def refresh_inv_def)
  then have "\<forall>q \<in> set ((rfProcs c)[i := p]). procOk ?c q"
    using I E(1) by (auto simp: refresh_inv_def dest!: set_update_subset_insert [THEN subsetD])
  moreover have "sorted (rfStarts c @ [length (rfHist c) - 1])" "\<forall>s \<in> set (rfStarts c @ [length (rfHist c) - 1]). s < length (rfHist c)"
    using I by (auto simp: refresh_inv_def sorted_append)
  ultimately show ?thesis using I E(2) g unfolding refresh_inv_def F by auto
qed

lemma loadClassLKG_cases:
  obtains "snd (loadClassLKG s) = s"
  | snap where "csSnap s = None" and "csSnap (snd (loadClassLKG s)) = Some snap" and "snSource snap = AIClassSourceLKG"
      and "csReadGen (snd (loadClassLKG s)) = csReadGen s" and "csHook (snd (loadClassLKG s)) = csHook s @ [snap]"
proof (cases "csSnap s = None \<and> csDir s \<noteq> '''' \<and> (\<exists>f. csDisk s = LkgFile f \<and> lf_version f \<in> {1, 2})")
  case True
  then obtain f where "csSnap s = None" "csDir s \<noteq> ''''" "csDisk s = LkgFile f" "lf_version f \<in> {1, 2}" by blast
  then show ?thesis by (intro that(2) [of "lkgSnapshot f"]) (auto simp: loadClassLKG_def Let_def lkgSnapshot_def)
next
  case False
  then show ?thesis by (intro that(1)) (auto simp: loadClassLKG_def split: lkgDisk.split)
qed

lemma refresh_inv_load:
  assumes I: "refresh_inv c"
  shows "refresh_inv (c\<lparr>rfClass := snd (loadClassLKG (rfClass c))\<rparr>)" (is "refresh_inv ?c")
proof (cases rule: loadClassLKG_cases [of "rfClass c"])
  case (2 snap)
  have F: "\<not> inForceGen c g" for g using 2 by (auto simp: inForceGen_def)
  have ex: "extends c ?c" using F by (auto simp: extends_def)
  show ?thesis using I 2 F procOk_extends [OF ex] by (auto simp: refresh_inv_def)
qed (use I in simp)

lemma refreshStep_inv: "refreshStep c c' \<Longrightarrow> refresh_inv c \<Longrightarrow> refresh_inv c'"
proof (induction rule: refreshStep.induct)
  case (tables c db)
  let ?c = "c\<lparr>rfHist := rfHist c @ [db]\<rparr>"
  have F: "inForceGen ?c = inForceGen c" by (simp add: fun_eq_iff inForceGen_def)
  have "extends c ?c" by (simp add: extends_def F)
  then show ?case
    using tables procOk_extends [of c ?c] readUpTo_extends [of c ?c] unfolding refresh_inv_def F by (auto simp: less_Suc_eq)
next
  case (ticket i c gen p)
  then show ?case by (intro refresh_inv_ticket)
next
  case (statement i c snap n)
  have "procOk c (Reading snap n)" using statement by (metis nth_mem refresh_inv_def)
  moreover have "startOf c (snGen snap) < length (rfHist c)" if "genOk c (snGen snap)"
    using statement(4) that by (auto simp: refresh_inv_def startOf_def genOk_def)
  ultimately have "procOk c (Reading (readPart n (last (rfHist c)) snap) (Suc n))"
    using statement(3,4) partSince_now [of "rfHist c" "startOf c (snGen snap)"]
    by (auto simp: readUpTo_def less_Suc_eq refresh_inv_def intro: partSince_next)
  with statement(4) show ?case by (intro refresh_inv_move) auto
next
  case (failed i c snap n)
  then show ?case by (intro refresh_inv_move) auto
next
  case (listed i c gen ok now)
  then show ?case by (intro refresh_inv_move) auto
next
  case (publish i c snap snap' now ok s)
  have "procOk c (Reading snap 6)" using publish by (metis nth_mem refresh_inv_def)
  then have "readUpTo c snap' 6" using publish(3) by (simp add: readUpTo_def)
  then show ?case using publish by (intro refresh_inv_publish)
next
  case (write_file i c snap fileOk)
  have "procOk c (Published snap)" using write_file by (metis nth_mem refresh_inv_def)
  then show ?case using write_file by (intro refresh_inv_move) (auto simp: readUpTo_def)
next
  case (note_read i c gen ok now)
  have "procOk c (Noting gen ok)" using note_read by (metis nth_mem refresh_inv_def)
  then show ?case using note_read by (intro refresh_inv_move) auto
next
  case (load c)
  then show ?case by (rule refresh_inv_load)
qed

lemma refreshReach_inv: "refreshReach c \<Longrightarrow> refresh_inv c"
proof (induction rule: refreshReach.induct)
  case (start n dir disk db)
  then show ?case by (auto simp: refresh_inv_def newClassState_def)
qed (rule refreshStep_inv)

lemma startOf_mono:
  assumes "refresh_inv c" and "genOk c g" and "genOk c g'" and "g \<le> g'"
  shows "startOf c g \<le> startOf c g'"
  using assms by (auto simp: refresh_inv_def startOf_def genOk_def intro: sorted_nth_mono)

subsection \<open>The file read back\<close>

lemma fold_upd_in:
  "distinct (map k rows) \<Longrightarrow> r \<in> set rows \<Longrightarrow> fold (\<lambda>r m. m(k r \<mapsto> v r)) rows m (k r) = Some (v r)"
proof (induction rows rule: rev_induct)
  case (snoc x xs)
  show ?case
  proof (cases "r = x")
    case False
    then have "r \<in> set xs" "k r \<noteq> k x" using snoc.prems by (auto simp: image_iff)
    then show ?thesis using snoc by simp
  qed simp
qed simp

lemma fold_upd_out: "x \<notin> k ` set rows \<Longrightarrow> fold (\<lambda>r m. m(k r \<mapsto> v r)) rows m x = m x"
  by (induction rows arbitrary: m) auto

lemma fold_upd_sort:
  assumes "distinct (map k rows)" and "set rows' = set rows" and "distinct (map k rows')"
  shows "fold (\<lambda>r m. m(k r \<mapsto> v r)) rows' m = fold (\<lambda>r m. m(k r \<mapsto> v r)) rows m"
proof
  fix x
  show "fold (\<lambda>r m. m(k r \<mapsto> v r)) rows' m x = fold (\<lambda>r m. m(k r \<mapsto> v r)) rows m x"
  proof (cases "x \<in> k ` set rows")
    case True
    then obtain r where "r \<in> set rows" "x = k r" by blast
    then show ?thesis using fold_upd_in [OF assms(1), of r v m] fold_upd_in [OF assms(3), of r v m] assms(2) by simp
  next
    case False
    then show ?thesis using fold_upd_out [of x k rows v m] fold_upd_out [of x k rows' v m] assms(2) by simp
  qed
qed

lemma distinct_map_sort: "distinct (map f (sort_key g xs)) \<longleftrightarrow> distinct (map f xs)"
  by (simp add: distinct_map)

lemma map_of_fold_update: "map_of (fold (\<lambda>r m. AList.update (k r) (v r) m) rows al) = fold (\<lambda>r m. m(k r \<mapsto> v r)) rows (map_of al)"
  by (induction rows arbitrary: al) (simp_all add: update_conv')

lemma keys_fold_update:
  "distinct (map fst al) \<Longrightarrow> distinct (map fst (fold (\<lambda>r m. AList.update (k r) (v r) m) rows al))"
  by (induction rows arbitrary: al) (simp_all add: distinct_update)

lemma map_of_sort:
  assumes "distinct (map fst xs)"
  shows "map_of (sort_key fst xs) = map_of (xs :: ('a::linorder \<times> 'b) list)"
proof
  fix x
  have "map_of (sort_key fst xs) x = Some v \<longleftrightarrow> map_of xs x = Some v" for v
    using assms by (simp add: map_of_eq_Some_iff distinct_map_sort)
  then show "map_of (sort_key fst xs) x = map_of xs x" by (metis option.exhaust)
qed

lemma classRows_keys: "distinct (map fst (classRows rows))"
proof -
  have "classRows rows = fold (\<lambda>r m. AList.update (fst r) (case r of (i, pc, def, allowed) \<Rightarrow>
      \<lparr>PriorityClass = pc, DefaultObjective = def, AllowedObjectives = splitList allowed\<rparr>) m)
     (filter (\<lambda>(i, pc, def, allowed). pc \<noteq> '''' \<or> def \<noteq> '''' \<or> allowed \<noteq> '''') rows) []"
    unfolding classRows_def by (rule arg_cong [of _ _ "\<lambda>f. fold f _ _"]) (auto simp: fun_eq_iff)
  then show ?thesis by (simp add: keys_fold_update)
qed

lemma entries_fold_update:
  assumes "\<And>r. P (k r) (v r)"
  shows "\<forall>p \<in> set al. P (fst p) (snd p) \<Longrightarrow> \<forall>p \<in> set (fold (\<lambda>r m. AList.update (k r) (v r) m) rows al). P (fst p) (snd p)"
proof (induction rows arbitrary: al)
  case (Cons r rows)
  have "set (AList.update (k r) (v r) al) \<subseteq> insert (k r, v r) (set al)" by (induction al) auto
  then have "\<forall>p \<in> set (AList.update (k r) (v r) al). P (fst p) (snd p)" using Cons.prems assms by auto
  then show ?case using Cons.IH by simp
qed simp

lemma readObjectives_entries: "(n, e) \<in> set (readObjectives db) \<Longrightarrow> ObjName e = n"
proof -
  have "\<forall>p \<in> set (readObjectives db). ObjName (snd p) = fst p"
    unfolding readObjectives_def by (rule entries_fold_update [where P = "\<lambda>n e. ObjName e = n"]) simp_all
  then show "(n, e) \<in> set (readObjectives db) \<Longrightarrow> ObjName e = n" by auto
qed

lemma readObjectives_keys: "distinct (map fst (readObjectives db))"
  by (simp add: readObjectives_def keys_fold_update)

text \<open>Rebuilding the objective map from the sorted list gives the same map.\<close>

lemma objectives_back:
  "map_of (fold (\<lambda>o' m. AList.update (ObjName o') o' m) (sort_key ObjName (map snd (readObjectives db))) []) = map_of (readObjectives db)"
proof -
  let ?m = "readObjectives db"
  have names: "map ObjName (map snd ?m) = map fst ?m" using readObjectives_entries by fastforce
  have d: "distinct (map ObjName (map snd ?m))" unfolding names by (rule readObjectives_keys)
  have "fold (\<lambda>o' m. m(ObjName o' \<mapsto> o')) (map snd ?m) Map.empty x = map_of ?m x" for x
  proof (cases "map_of ?m x")
    case None
    then have "x \<notin> ObjName ` set (map snd ?m)" using names by (metis list.set_map map_of_eq_None_iff)
    then show ?thesis using None fold_upd_out [of x ObjName "map snd ?m" "\<lambda>o'. o'" Map.empty] by simp
  next
    case (Some e)
    then have "(x, e) \<in> set ?m" by (rule map_of_SomeD)
    then have "ObjName e = x" "e \<in> set (map snd ?m)" using readObjectives_entries by force+
    then show ?thesis using fold_upd_in [OF d, of e "\<lambda>o'. o'" Map.empty] Some by simp
  qed
  moreover have "fold (\<lambda>o' m. m(ObjName o' \<mapsto> o')) (sort_key ObjName (map snd ?m)) Map.empty
      = fold (\<lambda>o' m. m(ObjName o' \<mapsto> o')) (map snd ?m) Map.empty"
    using d by (intro fold_upd_sort) (simp_all add: distinct_map_sort)
  ultimately show ?thesis by (simp add: map_of_fold_update fun_eq_iff)
qed

subsection \<open>Cache keys\<close>

lemma cacheKey_neq [simp]:
  "cacheKeyForTenant t \<noteq> cacheKeyForModel t' m" "cacheKeyForModel t' m \<noteq> cacheKeyForTenant t"
  "cacheKeyForHash h \<noteq> cacheKeyForID k" "cacheKeyForID k \<noteq> cacheKeyForHash h"
  "cacheKeyForHash h \<noteq> cacheKeyForTenant t" "cacheKeyForTenant t \<noteq> cacheKeyForHash h"
  "cacheKeyForHash h \<noteq> cacheKeyForModel t m" "cacheKeyForModel t m \<noteq> cacheKeyForHash h"
  "cacheKeyForID k \<noteq> cacheKeyForTenant t" "cacheKeyForTenant t \<noteq> cacheKeyForID k"
  "cacheKeyForID k \<noteq> cacheKeyForModel t m" "cacheKeyForModel t m \<noteq> cacheKeyForID k"
  by (simp_all add: cacheKeyForTenant_def cacheKeyForModel_def cacheKeyForHash_def cacheKeyForID_def)

lemma cacheKey_inj [simp]:
  "cacheKeyForTenant t = cacheKeyForTenant t' \<longleftrightarrow> t = t'" "cacheKeyForHash t = cacheKeyForHash t' \<longleftrightarrow> t = t'"
  "cacheKeyForID t = cacheKeyForID t' \<longleftrightarrow> t = t'"
  by (simp_all add: cacheKeyForTenant_def cacheKeyForHash_def cacheKeyForID_def)

lemma cacheKeyForModel_inj:
  assumes "CHR ''|'' \<notin> set t" and "CHR ''|'' \<notin> set t'"
  shows "cacheKeyForModel t m = cacheKeyForModel t' m' \<longleftrightarrow> t = t' \<and> m = m'"
proof -
  have "t @ CHR ''|'' # m = t' @ CHR ''|'' # m' \<longleftrightarrow> t = t' \<and> m = m'"
    using assms by (auto simp: append_eq_append_conv2 append_eq_Cons_conv Cons_eq_append_conv)
  then show ?thesis by (simp add: cacheKeyForModel_def)
qed

subsection \<open>A refresh with every statement answered\<close>

definition snapOf :: "int \<Rightarrow> int \<Rightarrow> keyDb \<Rightarrow> ClassSnapshot" where
  "snapOf gen now db = \<lparr>snObjectives = readObjectives db, snTenants = readTenantClasses db, snKeys = readKeyClasses db, snReadAt = now,
     snSource = AIClassSourceStore, snGen = gen,
     snLimits = Some (limitRowsSort \<lparr>lr_tenants = tenantLimitRows db, lr_models = tenantModelLimitRows db, lr_defaults = rate_limit_defaults db\<rparr>)\<rparr>"

lemma query_Answered [simp]: "query Answered q db = Inr (q db)"
  by (simp add: query_def)

lemma refresh_answered:
  "refreshClasses True (\<lambda>_. Answered) now fileOk gen db s =
     (case publishClasses (snapOf gen now db) s of
        (False, s) \<Rightarrow> (None, s) | (True, s) \<Rightarrow> (None, writeClassLKGIfCurrent fileOk (snapOf gen now db) s))"
  by (simp add: refreshClasses_def readLimitRows_def snapOf_def Let_def split: prod.split bool.split)

text \<open>The six statements of a refresher on one content of the tables build the same snapshot.\<close>

lemma parts_snapOf:
  "(fold (\<lambda>n. readPart n db) [0, 1, 2, 3, 4, 5] (blankSnap gen))\<lparr>snReadAt := now\<rparr> = snapOf gen now db"
  by (simp add: readPart_def blankSnap_def snapOf_def emptyRows_def limitRowsSort_def Let_def)

lemma refresh_failed: "fst (refreshClasses b f now ok gen db s) = Some e \<Longrightarrow> snd (refreshClasses b f now ok gen db s) = s"
  by (auto simp: refreshClasses_def Let_def split: if_splits sum.splits prod.splits bool.splits)

lemma failed_tick:
  assumes "fst (RefreshClasses b f now ok db s) = Some e"
  shows "snd (RefreshClasses b f now ok db s) = noteStoreRead (csReadGen s + 1) False now (s\<lparr>csReadGen := csReadGen s + 1\<rparr>)"
proof -
  obtain err s' where R: "refreshClasses b f now ok (csReadGen s + 1) db (s\<lparr>csReadGen := csReadGen s + 1\<rparr>) = (err, s')" by force
  have "err = Some e" using assms by (simp add: RefreshClasses_def Let_def R)
  then show ?thesis using refresh_failed [of b f now ok "csReadGen s + 1" db "s\<lparr>csReadGen := csReadGen s + 1\<rparr>" e]
    by (simp add: RefreshClasses_def Let_def R)
qed

lemma first_tick_disk:
  assumes "dir \<noteq> ''''"
  shows "csDisk (classTick True (\<lambda>_. Answered) now True db (newClassState dir disk)) = LkgFile ((lkgContent (snapOf 1 now db))\<lparr>lf_timestamp := now\<rparr>)"
proof -
  let ?s = "newClassState dir disk"
  have "publishClasses (snapOf 1 now db) (?s\<lparr>csReadGen := 1\<rparr>) =
      (True, ?s\<lparr>csReadGen := 1, csSnap := Some (snapOf 1 now db), csLkgLimits := None, csHook := [snapOf 1 now db]\<rparr>)"
    by (simp add: publishClasses_def newClassState_def)
  then show ?thesis
    using assms by (simp add: classTick_def RefreshClasses_def refresh_answered Let_def writeClassLKGIfCurrent_def writeClassLKG_def
      noteStoreRead_def newClassState_def) (simp add: snapOf_def)
qed

lemma restart_state:
  assumes "dir \<noteq> ''''" and "fst (RefreshClasses b f now ok db (newClassState dir (LkgFile x))) = Some e" and "lf_version x = 2"
  shows "csSnap (classTick b f now ok db (newClassState dir (LkgFile x))) = Some (lkgSnapshot x)"
    and "csLkgLimits (classTick b f now ok db (newClassState dir (LkgFile x))) =
       Some (newLKGLimitSet (limitRowsSort \<lparr>lr_tenants = lf_tenant_limits x, lr_models = lf_model_limits x, lr_defaults = lf_defaults x\<rparr>))"
proof -
  let ?s = "newClassState dir (LkgFile x)"
  obtain r where r: "RefreshClasses b f now ok db ?s = (Some e, r)" using assms(2) by (metis prod.collapse)
  have rs: "r = noteStoreRead 1 False now (?s\<lparr>csReadGen := 1\<rparr>)"
    using failed_tick [OF assms(2)] r by (simp add: newClassState_def)
  have "csSnap r = None" "csDir r = dir" "csDisk r = LkgFile x" by (simp_all add: rs noteStoreRead_def newClassState_def)
  then show "csSnap (classTick b f now ok db ?s) = Some (lkgSnapshot x)"
    "csLkgLimits (classTick b f now ok db ?s) =
       Some (newLKGLimitSet (limitRowsSort \<lparr>lr_tenants = lf_tenant_limits x, lr_models = lf_model_limits x, lr_defaults = lf_defaults x\<rparr>))"
    using assms(1,3) by (simp_all add: classTick_def r loadClassLKG_def Let_def lkgSnapshot_def)
qed

lemma limitRowsSort_idem [simp]: "limitRowsSort (limitRowsSort l) = limitRowsSort l"
  by (simp add: limitRowsSort_def sort_key_id_if_sorted)

lemma content_limits:
  "limitRowsSort \<lparr>lr_tenants = lf_tenant_limits (lkgContent (snapOf g now db)), lr_models = lf_model_limits (lkgContent (snapOf g now db)),
      lr_defaults = lf_defaults (lkgContent (snapOf g now db))\<rparr> =
   limitRowsSort \<lparr>lr_tenants = tenantLimitRows db, lr_models = tenantModelLimitRows db, lr_defaults = rate_limit_defaults db\<rparr>"
  by (simp add: lkgContent_def snapOf_def limitRowsSort_def sort_key_id_if_sorted)

lemma lkg_limits_tenant:
  assumes "distinct (map tl_tenant (tenant_rate_limits db))"
    and ls_def: "ls = ls_limits (newLKGLimitSet (limitRowsSort \<lparr>lr_tenants = tenantLimitRows db, lr_models = ms, lr_defaults = ds\<rparr>))"
  shows "r \<in> set (tenant_rate_limits db) \<Longrightarrow>
      ls (cacheKeyForTenant (tl_tenant r)) = Some \<lparr>rl_rps = tl_rps r, rl_tpm = tl_tpm r, rl_burst_pct = tl_burst_pct r\<rparr>"
    and "t \<notin> tl_tenant ` set (tenant_rate_limits db) \<Longrightarrow> ls (cacheKeyForTenant t) = None"
proof -
  let ?k = "\<lambda>r. cacheKeyForTenant (lt_tenant r)" and ?v = "\<lambda>r. \<lparr>rl_rps = lt_rps r, rl_tpm = lt_tpm r, rl_burst_pct = lt_burst_pct r\<rparr>"
  let ?rows = "sort_key lt_tenant (tenantLimitRows db)"
  have ls: "ls (cacheKeyForTenant t) = fold (\<lambda>r m. m(?k r \<mapsto> ?v r)) ?rows Map.empty (cacheKeyForTenant t)" for t
    by (auto simp: ls_def newLKGLimitSet_def limitRowsSort_def intro!: fold_upd_out)
  have "distinct (map tl_tenant (tenant_rate_limits db)) = distinct (map ?k (tenantLimitRows db))"
    by (auto simp: tenantLimitRows_def distinct_map inj_on_def comp_def)
  then have d: "distinct (map ?k ?rows)" using assms(1) by (simp add: distinct_map_sort)
  show "ls (cacheKeyForTenant (tl_tenant r)) = Some \<lparr>rl_rps = tl_rps r, rl_tpm = tl_tpm r, rl_burst_pct = tl_burst_pct r\<rparr>"
    if "r \<in> set (tenant_rate_limits db)"
    using fold_upd_in [OF d, of "\<lparr>lt_tenant = tl_tenant r, lt_rps = tl_rps r, lt_tpm = tl_tpm r, lt_burst_pct = tl_burst_pct r\<rparr>" ?v Map.empty] that
    by (simp add: ls tenantLimitRows_def)
  show "ls (cacheKeyForTenant t) = None" if "t \<notin> tl_tenant ` set (tenant_rate_limits db)"
    using fold_upd_out [of "cacheKeyForTenant t" ?k ?rows ?v Map.empty] that by (auto simp: ls tenantLimitRows_def image_iff)
qed

lemma lkg_limits_model:
  assumes "distinct (map (\<lambda>r. (tm_tenant r, tm_model r)) (tenant_model_rate_limits db))"
    and "\<forall>r \<in> set (tenant_model_rate_limits db). CHR ''|'' \<notin> set (tm_tenant r)"
    and ls_def: "ls = ls_limits (newLKGLimitSet (limitRowsSort \<lparr>lr_tenants = ts, lr_models = tenantModelLimitRows db, lr_defaults = ds\<rparr>))"
  shows "r \<in> set (tenant_model_rate_limits db) \<Longrightarrow>
      ls (cacheKeyForModel (tm_tenant r) (tm_model r)) = Some \<lparr>rl_rps = 0, rl_tpm = tm_tpm r, rl_burst_pct = 0\<rparr>"
    and "CHR ''|'' \<notin> set t \<Longrightarrow> (t, m) \<notin> (\<lambda>r. (tm_tenant r, tm_model r)) ` set (tenant_model_rate_limits db) \<Longrightarrow> ls (cacheKeyForModel t m) = None"
proof -
  let ?k = "\<lambda>r. cacheKeyForModel (lm_tenant r) (lm_model r)" and ?v = "\<lambda>r. \<lparr>rl_rps = 0, rl_tpm = lm_tpm r, rl_burst_pct = 0\<rparr>"
  let ?rows = "sort_key (\<lambda>r. (lm_tenant r, lm_model r)) (tenantModelLimitRows db)"
  define base where "base = fold (\<lambda>r m. m(cacheKeyForTenant (lt_tenant r) \<mapsto> \<lparr>rl_rps = lt_rps r, rl_tpm = lt_tpm r, rl_burst_pct = lt_burst_pct r\<rparr>))
    (sort_key lt_tenant ts) (Map.empty :: string \<rightharpoonup> rateLimitCacheEntry)"
  have ls: "ls = fold (\<lambda>r m. m(?k r \<mapsto> ?v r)) ?rows base"
    by (simp add: ls_def base_def newLKGLimitSet_def limitRowsSort_def)
  have base: "base (cacheKeyForModel t m) = None" for t m unfolding base_def by (subst fold_upd_out) auto
  have "distinct (map ?k (tenantModelLimitRows db))"
    using assms(1,2) by (auto simp: tenantModelLimitRows_def distinct_map inj_on_def comp_def cacheKeyForModel_inj)
  then have d: "distinct (map ?k ?rows)" by (simp add: distinct_map_sort)
  show "ls (cacheKeyForModel (tm_tenant r) (tm_model r)) = Some \<lparr>rl_rps = 0, rl_tpm = tm_tpm r, rl_burst_pct = 0\<rparr>"
    if "r \<in> set (tenant_model_rate_limits db)"
    using fold_upd_in [OF d, of "\<lparr>lm_tenant = tm_tenant r, lm_model = tm_model r, lm_tpm = tm_tpm r\<rparr>" ?v base] that
    by (simp add: ls tenantModelLimitRows_def)
  show "ls (cacheKeyForModel t m) = None"
    if "CHR ''|'' \<notin> set t" "(t, m) \<notin> (\<lambda>r. (tm_tenant r, tm_model r)) ` set (tenant_model_rate_limits db)"
    using fold_upd_out [of "cacheKeyForModel t m" ?k ?rows ?v base] that assms(2)
    by (auto simp: ls base tenantModelLimitRows_def cacheKeyForModel_inj image_iff)
qed

section \<open>Properties\<close>

text \<open>
  C8. Reading one's own writes. Refreshers run side by side, statement by statement, while the
  tables change. Once a refresh has finished without an error, whether it published its snapshot
  or found a newer one in place, the snapshot in force was read from the store, and each of its
  parts is a content the tables had when that refresh took its ticket or later. So a write that
  committed before its refresh started is in what requests are decided with, and no older read
  that finishes late takes it back. The change hook is told of snapshots in the order of their
  tickets.
\<close>

theorem refresh_reads_own_writes:
  assumes "refreshReach c" and "Finished gen True \<in> set (rfProcs c)"
  shows "(\<exists>snap. csSnap (rfClass c) = Some snap \<and> snSource snap = AIClassSourceStore \<and> gen \<le> snGen snap \<and>
            (\<forall>n<6. partSince (rfHist c) (startOf c gen) snap n)) \<and>
         sorted_wrt (<) (map snGen (filter (\<lambda>s. snSource s = AIClassSourceStore) (csHook (rfClass c))))"
proof -
  note I = refreshReach_inv [OF assms(1)]
  have "procOk c (Finished gen True)" using I assms(2) by (auto simp: refresh_inv_def)
  then obtain snap where s: "csSnap (rfClass c) = Some snap" "snSource snap = AIClassSourceStore" "gen \<le> snGen snap" and g: "genOk c gen"
    by (auto simp: inForceGen_def)
  have r: "readUpTo c snap 6" using I s by (simp add: refresh_inv_def)
  then have "startOf c gen \<le> startOf c (snGen snap)" using startOf_mono [OF I g _ s(3)] by (simp add: readUpTo_def)
  then have "\<forall>n<6. partSince (rfHist c) (startOf c gen) snap n" using r by (auto simp: readUpTo_def intro: partSince_mono)
  with s I show ?thesis by (auto simp: refresh_inv_def)
qed

text \<open>
  C19. Starting while the store is away. After a first refresh interval in which the store answered,
  the file holds what it answered; a gateway that starts later on that file while the store fails
  serves the same objectives and classes, and answers the limit of every tenant and every tenant
  and model with the row the store had, or with \<open>no limit\<close> where it had none. From the first
  interval the store answers, the file's limits are served no more.
\<close>

theorem lkg_restart_roundtrip:
  assumes "db_ok db" and "\<forall>r \<in> set (tenant_model_rate_limits db). CHR ''|'' \<notin> set (tm_tenant r)" and "dir \<noteq> ''''"
    and disk: "disk = csDisk (classTick True (\<lambda>_. Answered) now True db (newClassState dir disk0))"
    and fails: "fst (RefreshClasses connected fates now2 fileOk db2 (newClassState dir disk)) = Some e"
    and s: "s = classTick connected fates now2 fileOk db2 (newClassState dir disk)"
  shows "(\<exists>snap. csSnap s = Some snap \<and> snSource snap = AIClassSourceLKG \<and> snReadAt snap = now \<and>
            map_of (snObjectives snap) = map_of (readObjectives db) \<and> map_of (snTenants snap) = map_of (readTenantClasses db) \<and>
            map_of (snKeys snap) = map_of (readKeyClasses db)) \<and>
         (r \<in> set (tenant_rate_limits db) \<longrightarrow>
            lkgRateLimit (cacheKeyForTenant (tl_tenant r)) s = Some \<lparr>rl_rps = tl_rps r, rl_tpm = tl_tpm r, rl_burst_pct = tl_burst_pct r\<rparr>) \<and>
         (t \<notin> tl_tenant ` set (tenant_rate_limits db) \<longrightarrow> lkgRateLimit (cacheKeyForTenant t) s = Some noLimit) \<and>
         (q \<in> set (tenant_model_rate_limits db) \<longrightarrow>
            lkgRateLimit (cacheKeyForModel (tm_tenant q) (tm_model q)) s = Some \<lparr>rl_rps = 0, rl_tpm = tm_tpm q, rl_burst_pct = 0\<rparr>) \<and>
         (CHR ''|'' \<notin> set t \<longrightarrow> (t, m) \<notin> (\<lambda>r. (tm_tenant r, tm_model r)) ` set (tenant_model_rate_limits db) \<longrightarrow>
            lkgRateLimit (cacheKeyForModel t m) s = Some noLimit) \<and>
         lkgRateLimit k (classTick True (\<lambda>_. Answered) now3 fileOk db3 s) = None"
proof -
  define x where "x = (lkgContent (snapOf 1 now db))\<lparr>lf_timestamp := now\<rparr>"
  have dx: "disk = LkgFile x" using first_tick_disk [OF assms(3)] disk by (simp add: x_def)
  have v: "lf_version x = 2" by (simp add: x_def lkgContent_def)
  note R = restart_state [OF assms(3) fails [unfolded dx] v, folded dx, folded s]
  have L: "csLkgLimits s = Some (newLKGLimitSet (limitRowsSort \<lparr>lr_tenants = tenantLimitRows db, lr_models = tenantModelLimitRows db,
      lr_defaults = rate_limit_defaults db\<rparr>))"
    using R(2) content_limits [of 1 now db] by (simp add: x_def)
  have "map_of (snObjectives (lkgSnapshot x)) = map_of (readObjectives db)"
    using objectives_back [of db] by (simp add: lkgSnapshot_def x_def lkgContent_def snapOf_def)
  moreover have "map_of (snTenants (lkgSnapshot x)) = map_of (readTenantClasses db)" "map_of (snKeys (lkgSnapshot x)) = map_of (readKeyClasses db)"
    using map_of_sort [OF classRows_keys] by (simp_all add: lkgSnapshot_def x_def lkgContent_def snapOf_def readTenantClasses_def readKeyClasses_def)
  moreover have "snSource (lkgSnapshot x) = AIClassSourceLKG" "snReadAt (lkgSnapshot x) = now" by (simp_all add: lkgSnapshot_def x_def)
  moreover have "csLkgLimits (classTick True (\<lambda>_. Answered) now3 fileOk db3 s) = None"
    using R(1) by (simp add: classTick_def RefreshClasses_def refresh_answered publishClasses_def lkgSnapshot_def snapOf_def Let_def)
  ultimately show ?thesis
    using R(1) lkg_limits_tenant [OF _ refl, of db] lkg_limits_model [OF _ assms(2) refl] assms(1)
    by (auto simp: lkgRateLimit_def L db_ok_def)
qed

definition exDb :: keyDb where
  "exDb = \<lparr>api_keys = [], tenant_rate_limits = [], tenant_model_rate_limits = [], rate_limit_defaults = [], objectives = []\<rparr>"

definition exDb2 :: keyDb where
  "exDb2 = exDb\<lparr>tenant_rate_limits := [\<lparr>tl_tenant = ''acme'', tl_rps = 5, tl_tpm = 1000, tl_burst_pct = 150, tl_updated_at = 1,
       tl_priority_class = ''critical'', tl_default_objective = '''', tl_allowed_objectives = ''''\<rparr>],
     tenant_model_rate_limits := [\<lparr>tm_tenant = ''acme'', tm_model = ''m'', tm_tpm = 70, tm_updated_at = 1\<rparr>],
     objectives := [\<lparr>ob_name = ''gold'', ob_services = '''', ob_priority = 10, ob_updated_at = 1\<rparr>]\<rparr>"

text \<open>A refresher goes from any number of parts read to all of them.\<close>

lemma reach_statements:
  "refreshReach c \<Longrightarrow> rfProcs c = [Reading snap n] \<Longrightarrow> n + k = 6 \<Longrightarrow> refreshReach (c\<lparr>rfProcs := [Reading (fold (\<lambda>m. readPart m (last (rfHist c))) [n..<6] snap) 6]\<rparr>)"
proof (induction k arbitrary: c snap n)
  case 0
  then have "c\<lparr>rfProcs := [Reading snap 6]\<rparr> = c" by (cases c rule: refreshers.cases) simp
  then have "refreshReach (c\<lparr>rfProcs := [Reading snap 6]\<rparr>)" using 0(1) by (simp only:)
  with 0 show ?case by simp
next
  case (Suc k)
  let ?c = "setProc 0 (Reading (readPart n (last (rfHist c)) snap) (Suc n)) (rfClass c) c"
  have "refreshReach ?c" using Suc.prems by (intro refreshReach.step [OF Suc.prems(1)] refreshStep.statement) auto
  from Suc.IH [OF this] Suc.prems have
    "refreshReach (?c\<lparr>rfProcs := [Reading (fold (\<lambda>m. readPart m (last (rfHist c))) [Suc n..<6] (readPart n (last (rfHist c)) snap)) 6]\<rparr>)" by simp
  moreover have "[n..<6] = n # [Suc n..<6]" using Suc.prems by (simp add: upt_conv_Cons)
  moreover have "?c\<lparr>rfProcs := p\<rparr> = c\<lparr>rfProcs := p\<rparr>" for p by (simp add: setProc_def)
  ultimately show ?case by simp
qed

lemma exRefresh:
  "\<exists>c. refreshReach c \<and> rfProcs c = [Finished 1 True] \<and> rfHist c = [exDb, exDb2] \<and> rfStarts c = [1]"
proof -
  let ?c0 = "\<lparr>rfProcs = [RIdle], rfClass = newClassState '''' LkgMissing, rfHist = [exDb], rfStarts = []\<rparr>"
  let ?s1 = "(newClassState '''' LkgMissing)\<lparr>csReadGen := 1\<rparr>"
  let ?c2 = "\<lparr>rfProcs = [Reading (blankSnap 1) 0], rfClass = ?s1, rfHist = [exDb, exDb2], rfStarts = [1]\<rparr>"
  define snap where "snap = fold (\<lambda>m. readPart m exDb2) [0..<6] (blankSnap 1)"
  let ?s3 = "?s1\<lparr>csSnap := Some (snap\<lparr>snReadAt := 3\<rparr>), csLkgLimits := None, csHook := [snap\<lparr>snReadAt := 3\<rparr>]\<rparr>"
  have gen: "snGen snap = 1" by (simp add: snap_def upt_rec blankSnap_def)
  have c0: "refreshReach ?c0" using refreshReach.start [of 1] by simp
  have "refreshReach (?c0\<lparr>rfHist := [exDb, exDb2]\<rparr>)" using refreshReach.step [OF c0 refreshStep.tables [of ?c0 exDb2]] by simp
  from refreshReach.step [OF this refreshStep.ticket [of 0 _ 1 "Reading (blankSnap 1) 0"]]
  have "refreshReach ?c2" by (simp add: newClassState_def setProc_def)
  from reach_statements [OF this, of "blankSnap 1" 0 6]
  have "refreshReach (?c2\<lparr>rfProcs := [Reading snap 6]\<rparr>)" by (simp add: snap_def [symmetric])
  from refreshReach.step [OF this refreshStep.publish [of 0 _ snap "snap\<lparr>snReadAt := 3\<rparr>" 3 True ?s3]]
  have "refreshReach (?c2\<lparr>rfProcs := [Published (snap\<lparr>snReadAt := 3\<rparr>)], rfClass := ?s3\<rparr>)"
    by (simp add: publishClasses_def newClassState_def setProc_def)
  from refreshReach.step [OF this refreshStep.write_file [of 0 _ "snap\<lparr>snReadAt := 3\<rparr>" True]] gen
  have "refreshReach (?c2\<lparr>rfProcs := [Noting 1 True], rfClass := ?s3\<rparr>)"
    by (simp add: setProc_def writeClassLKGIfCurrent_def writeClassLKG_def newClassState_def)
  from refreshReach.step [OF this refreshStep.note_read [of 0 _ 1 True 4]]
  have "refreshReach (?c2\<lparr>rfProcs := [Finished 1 True], rfClass := noteStoreRead 1 True 4 ?s3\<rparr>)" by (simp add: setProc_def)
  then show ?thesis by (intro exI conjI) (assumption | simp)+
qed

theorem refresh_reads_own_writes_witness:
  "\<exists>c snap. refreshReach c \<and> rfHist c = [exDb, exDb2] \<and> csSnap (rfClass c) = Some snap \<and> snGen snap \<ge> 1 \<and> readPart 0 exDb2 snap = snap"
proof -
  obtain c where c: "refreshReach c" "rfProcs c = [Finished 1 True]" "rfHist c = [exDb, exDb2]" "rfStarts c = [1]" using exRefresh by blast
  obtain snap where s: "csSnap (rfClass c) = Some snap" "1 \<le> snGen snap" "partSince (rfHist c) (startOf c 1) snap 0"
    using refresh_reads_own_writes [OF c(1), of 1] c(2) by auto
  have "startOf c 1 = 1" using c(4) by (simp add: startOf_def)
  with s(3) c(3) have "readPart 0 exDb2 snap = snap" by (auto simp: partSince_def less_Suc_eq numeral_2_eq_2)
  with c(1,3) s(1,2) show ?thesis by blast
qed

theorem lkg_restart_roundtrip_witness:
  "let disk = csDisk (classTick True (\<lambda>_. Answered) 10 True exDb2 (newClassState ''/etc'' LkgMissing));
       s = classTick False (\<lambda>_. Answered) 20 True exDb (newClassState ''/etc'' disk)
   in lkgRateLimit (cacheKeyForTenant ''acme'') s = Some \<lparr>rl_rps = 5, rl_tpm = 1000, rl_burst_pct = 150\<rparr> \<and>
      lkgRateLimit (cacheKeyForTenant ''other'') s = Some noLimit"
proof -
  have "db_ok exDb2" "\<forall>r \<in> set (tenant_model_rate_limits exDb2). CHR ''|'' \<notin> set (tm_tenant r)" "''/etc'' \<noteq> ''''"
    by (simp_all add: db_ok_def exDb2_def exDb_def)
  note T = lkg_restart_roundtrip [OF this refl _ refl, of False "\<lambda>_. Answered" 20 True exDb 10 LkgMissing errStoreUnavailable]
  have "fst (RefreshClasses False f now ok db s) = Some errStoreUnavailable" for f now ok db s
    by (simp add: RefreshClasses_def refreshClasses_def Let_def)
  from T [OF this] show ?thesis
    by (auto simp: Let_def exDb2_def exDb_def)
qed

end
