(* ===== verification/Lookup_Guard.thy ===== *)
theory Lookup_Guard
  imports Gw_Prelude
begin

text \<open>
  The guard in front of the key store (src/pkg/aikey/lookup_guard.go): the bound on reads in
  flight, the circuit that stops asking a store that does not answer, and the cache of key hashes
  the store said do not exist. The guard is shared by the proxy workers, so its steps are put
  into a step relation over a list of workers, each idle, waiting for a slot, or on the store.
  Times and durations are in nanoseconds; the generation counter is taken as unbounded (it would
  need \<open>2^64\<close> transitions to wrap). Statements, errors and deadlines come from the database driver:
  they are the arguments of a step.
\<close>

section \<open>Definitions\<close>

subsection \<open>Configuration\<close>

record lookupGuardConfig =
  maxInflight :: int
  cfgFailures :: int
  cooldown :: int
  negativeTTL :: int
  negativeCap :: int

text \<open>\<open>Getenv\<close> reads a variable of the environment; \<open>strconv.Atoi\<close> is \<open>ParseInt\<close> on a 64-bit platform.\<close>

definition intFromEnv :: "(string \<Rightarrow> string) \<Rightarrow> string \<Rightarrow> int \<Rightarrow> int \<Rightarrow> int" where
  "intFromEnv Getenv env def floor' =
     (let raw = Getenv env;
          v = (if raw \<noteq> '''' then (case ParseInt raw of Some n \<Rightarrow> n | None \<Rightarrow> def) else def)
      in if v < floor' then floor' else v)"

definition readLookupGuardConfig :: "(string \<Rightarrow> string) \<Rightarrow> lookupGuardConfig" where
  "readLookupGuardConfig Getenv =
     \<lparr>maxInflight = intFromEnv Getenv ''LLB_AI_KEY_LOOKUP_MAX_INFLIGHT'' 2 1,
      cfgFailures = intFromEnv Getenv ''LLB_AI_KEY_LOOKUP_CIRCUIT_FAILURES'' 3 0,
      cooldown = i64 (intFromEnv Getenv ''LLB_AI_KEY_LOOKUP_CIRCUIT_COOLDOWN_MS'' 5000 100 * 1000000),
      negativeTTL = i64 (intFromEnv Getenv ''LLB_AI_KEY_NEGATIVE_CACHE_MS'' 2000 0 * 1000000),
      negativeCap = intFromEnv Getenv ''LLB_AI_KEY_NEGATIVE_CACHE_CAP'' 4096 1\<rparr>"

subsection \<open>The guard\<close>

datatype circuitState = circuitClosed | circuitOpen | circuitHalfOpen

datatype lookupResult = resultMissFound | resultMissInvalid | resultTimeout | resultRefusedCircuit
  | resultRefusedInflight | resultUnavailable

text \<open>
  The bounds of the histogram in nanoseconds. \<open>Seconds()\<close> rounds a quotient correctly, so comparing
  it with a bound is comparing the nanoseconds.
\<close>

definition LookupBucketBounds :: "int list" where
  "LookupBucketBounds = [1000000, 5000000, 10000000, 25000000, 50000000, 100000000, 200000000, 300000000, 500000000, 1000000000]"

record lookupStat =
  statCount :: int
  statSumNs :: int
  statBuckets :: "int list"

text \<open>\<open>sem\<close> is the number of slots taken.\<close>

record lookupGuard =
  cfg :: lookupGuardConfig
  sem :: int
  state :: circuitState
  gen :: int
  failures :: int
  openedAt :: int
  probeTaken :: bool
  stats :: "lookupResult \<Rightarrow> lookupStat"

record lookupToken =
  tokGen :: int
  probe :: bool
  slot :: bool

definition newGuard :: "lookupGuardConfig \<Rightarrow> lookupGuard" where
  "newGuard c = \<lparr>cfg = c, sem = 0, state = circuitClosed, gen = 0, failures = 0, openedAt = 0, probeTaken = False,
     stats = (\<lambda>_. \<lparr>statCount = 0, statSumNs = 0, statBuckets = map (\<lambda>_. 0) LookupBucketBounds\<rparr>)\<rparr>"

definition observe :: "lookupResult \<Rightarrow> int \<Rightarrow> lookupGuard \<Rightarrow> lookupGuard" where
  "observe res took g =
     (let st = stats g res
      in g\<lparr>stats := (stats g)(res :=
            \<lparr>statCount = statCount st + 1, statSumNs = i64 (statSumNs st + took),
             statBuckets = map2 (\<lambda>bound n. if took \<le> bound then n + 1 else n) LookupBucketBounds (statBuckets st)\<rparr>)\<rparr>)"

definition guardPass :: "int \<Rightarrow> lookupGuard \<Rightarrow> lookupToken option \<times> lookupGuard" where
  "guardPass now g =
     (case state g of
        circuitClosed \<Rightarrow> (Some \<lparr>tokGen = gen g, probe = False, slot = False\<rparr>, g)
      | circuitOpen \<Rightarrow>
          if now - openedAt g < cooldown (cfg g) then (None, g)
          else let g = g\<lparr>state := circuitHalfOpen, gen := gen g + 1, probeTaken := True\<rparr>
               in (Some \<lparr>tokGen = gen g, probe = True, slot = False\<rparr>, g)
      | circuitHalfOpen \<Rightarrow>
          if probeTaken g then (None, g)
          else (Some \<lparr>tokGen = gen g, probe = True, slot = False\<rparr>, g\<lparr>probeTaken := True\<rparr>))"

text \<open>The two arms of the \<open>select\<close> in \<open>admit\<close>: a slot, or the budget is spent.\<close>

definition takeSlot :: "lookupToken \<Rightarrow> lookupGuard \<Rightarrow> lookupToken \<times> lookupGuard" where
  "takeSlot tok g = (tok\<lparr>slot := True\<rparr>, g\<lparr>sem := sem g + 1\<rparr>)"

definition giveUp :: "lookupToken \<Rightarrow> lookupGuard \<Rightarrow> lookupGuard" where
  "giveUp tok g =
     (if probe tok \<and> state g = circuitHalfOpen \<and> gen g = tokGen tok then g\<lparr>probeTaken := False\<rparr> else g)"

text \<open>
  \<open>admit\<close>: \<open>free\<close> says whether a slot became free before the budget was spent.
\<close>

definition admit :: "int \<Rightarrow> bool \<Rightarrow> lookupGuard \<Rightarrow> (lookupResult + lookupToken) \<times> lookupGuard" where
  "admit now free g =
     (case guardPass now g of
        (None, g) \<Rightarrow> (Inl resultRefusedCircuit, g)
      | (Some tok, g) \<Rightarrow>
          if free then (case takeSlot tok g of (tok, g) \<Rightarrow> (Inr tok, g))
          else (Inl resultRefusedInflight, giveUp tok g))"

definition reportLookup :: "int \<Rightarrow> lookupToken \<Rightarrow> lookupResult \<Rightarrow> bool \<Rightarrow> int \<Rightarrow> lookupGuard \<Rightarrow> lookupGuard" where
  "reportLookup now tok res failure took g =
     (let g = (if slot tok then g\<lparr>sem := sem g - 1\<rparr> else g);
          g = observe res took g
      in if tokGen tok \<noteq> gen g then g
         else case state g of
                circuitClosed \<Rightarrow>
                  if \<not> failure then g\<lparr>failures := 0\<rparr>
                  else let g = g\<lparr>failures := failures g + 1\<rparr>
                       in if cfgFailures (cfg g) > 0 \<and> failures g \<ge> cfgFailures (cfg g)
                          then g\<lparr>state := circuitOpen, openedAt := now, gen := gen g + 1\<rparr> else g
              | circuitOpen \<Rightarrow> g
              | circuitHalfOpen \<Rightarrow>
                  if \<not> probe tok then g
                  else let g = g\<lparr>probeTaken := False, gen := gen g + 1\<rparr>
                       in if failure then g\<lparr>state := circuitOpen, openedAt := now\<rparr>
                          else g\<lparr>state := circuitClosed, failures := 0\<rparr>)"

subsection \<open>A guarded read\<close>

text \<open>
  What a statement can return: a row, no row, a deadline, an error the driver classifies as the
  store being unavailable, or an error the server answered with.
\<close>

datatype stmtError = StmtOk | ErrNoRows | DeadlineExceeded | StoreGone | ServerError

definition classifyLookup :: "bool \<Rightarrow> stmtError \<Rightarrow> lookupResult" where
  "classifyLookup ctxDone err =
     (case err of
        StmtOk \<Rightarrow> resultMissFound
      | ErrNoRows \<Rightarrow> resultMissInvalid
      | DeadlineExceeded \<Rightarrow> resultTimeout
      | StoreGone \<Rightarrow> if ctxDone then resultTimeout else resultUnavailable
      | ServerError \<Rightarrow> if ctxDone then resultTimeout else resultUnavailable)"

definition circuitFailure :: "lookupResult \<Rightarrow> stmtError \<Rightarrow> bool" where
  "circuitFailure res err =
     (case res of resultTimeout \<Rightarrow> True | resultUnavailable \<Rightarrow> err = StoreGone | _ \<Rightarrow> False)"

datatype readAnswer = ReadUnavailable | ReadStmt stmtError

text \<open>
  \<open>dataPathRead\<close>, for one worker: whether the store is connected, the clock at the start, at the
  refusal and at the end, whether a slot came free, and what the statement returned.
\<close>

definition dataPathRead :: "bool \<Rightarrow> int \<Rightarrow> int \<Rightarrow> bool \<Rightarrow> bool \<Rightarrow> stmtError \<Rightarrow> lookupGuard \<Rightarrow> readAnswer \<times> lookupGuard" where
  "dataPathRead connected start finish free ctxDone err g =
     (if \<not> connected then (ReadUnavailable, observe resultUnavailable 0 g)
      else case admit start free g of
             (Inl refusal, g) \<Rightarrow> (ReadUnavailable, observe refusal (finish - start) g)
           | (Inr tok, g) \<Rightarrow>
               let res = classifyLookup ctxDone err
               in (ReadStmt err, reportLookup finish tok res (circuitFailure res err) (finish - start) g))"

subsection \<open>Workers\<close>

datatype worker = Idle | Waiting lookupToken | OnStore lookupToken

inductive guardStep :: "worker list \<times> lookupGuard \<Rightarrow> worker list \<times> lookupGuard \<Rightarrow> bool" where
  refused: "i < length ws \<Longrightarrow> ws ! i = Idle \<Longrightarrow> guardPass now g = (None, g') \<Longrightarrow>
     guardStep (ws, g) (ws, observe resultRefusedCircuit took g')"
| passed: "i < length ws \<Longrightarrow> ws ! i = Idle \<Longrightarrow> guardPass now g = (Some tok, g') \<Longrightarrow>
     guardStep (ws, g) (ws[i := Waiting tok], g')"
| slotted: "i < length ws \<Longrightarrow> ws ! i = Waiting tok \<Longrightarrow> sem g < maxInflight (cfg g) \<Longrightarrow> takeSlot tok g = (tok', g') \<Longrightarrow>
     guardStep (ws, g) (ws[i := OnStore tok'], g')"
| gaveUp: "i < length ws \<Longrightarrow> ws ! i = Waiting tok \<Longrightarrow>
     guardStep (ws, g) (ws[i := Idle], observe resultRefusedInflight took (giveUp tok g))"
| reported: "i < length ws \<Longrightarrow> ws ! i = OnStore tok \<Longrightarrow>
     guardStep (ws, g) (ws[i := Idle], reportLookup now tok res failure took g)"

inductive_cases guardStepE: "guardStep (ws, g) s'"

text \<open>The configurations a fresh guard with \<open>n\<close> workers can reach.\<close>

inductive guardReach :: "lookupGuardConfig \<Rightarrow> nat \<Rightarrow> worker list \<times> lookupGuard \<Rightarrow> bool" for c n where
  start: "guardReach c n (replicate n Idle, newGuard c)"
| step: "guardReach c n s \<Longrightarrow> guardStep s s' \<Longrightarrow> guardReach c n s'"

text \<open>The token a worker holds, and what its tokens say.\<close>

fun tokenOf :: "worker \<Rightarrow> lookupToken option" where
  "tokenOf Idle = None"
| "tokenOf (Waiting t) = Some t"
| "tokenOf (OnStore t) = Some t"

fun onStore :: "worker \<Rightarrow> bool" where
  "onStore (OnStore t) = True"
| "onStore _ = False"

definition liveProbe :: "lookupGuard \<Rightarrow> worker \<Rightarrow> bool" where
  "liveProbe g w = (case tokenOf w of None \<Rightarrow> False | Some t \<Rightarrow> probe t \<and> tokGen t = gen g)"

definition livePlain :: "lookupGuard \<Rightarrow> worker \<Rightarrow> bool" where
  "livePlain g w = (case tokenOf w of None \<Rightarrow> False | Some t \<Rightarrow> \<not> probe t \<and> tokGen t = gen g)"

definition count :: "('a \<Rightarrow> bool) \<Rightarrow> 'a list \<Rightarrow> int" where
  "count P xs = int (length (filter P xs))"

subsection \<open>The negative cache\<close>

text \<open>The order is oldest first; the map gives the expiry.\<close>

record negativeKeyCache =
  negEntries :: "string \<rightharpoonup> int"
  negOrder :: "string list"

definition emptyNegative :: negativeKeyCache where
  "emptyNegative = \<lparr>negEntries = Map.empty, negOrder = []\<rparr>"

definition negDrop :: "string \<Rightarrow> negativeKeyCache \<Rightarrow> negativeKeyCache" where
  "negDrop hash n =
     (case negEntries n hash of
        None \<Rightarrow> n
      | Some _ \<Rightarrow> n\<lparr>negEntries := (negEntries n)(hash := None), negOrder := remove1 hash (negOrder n)\<rparr>)"

definition negativeHit :: "lookupGuardConfig \<Rightarrow> int \<Rightarrow> string \<Rightarrow> negativeKeyCache \<Rightarrow> bool \<times> negativeKeyCache" where
  "negativeHit c now hash n =
     (if negativeTTL c \<le> 0 then (False, n)
      else case negEntries n hash of
             None \<Rightarrow> (False, n)
           | Some ex \<Rightarrow> if now > ex then (False, negDrop hash n) else (True, n))"

text \<open>The eviction loop of \<open>rememberNegative\<close>.\<close>

fun negEvict :: "int \<Rightarrow> string list \<Rightarrow> (string \<rightharpoonup> int) \<Rightarrow> string list \<times> (string \<rightharpoonup> int)" where
  "negEvict cap [] m = ([], m)"
| "negEvict cap (h # hs) m = (if int (length (h # hs)) \<ge> cap then negEvict cap hs (m(h := None)) else (h # hs, m))"

definition rememberNegative :: "lookupGuardConfig \<Rightarrow> int \<Rightarrow> string \<Rightarrow> negativeKeyCache \<Rightarrow> negativeKeyCache" where
  "rememberNegative c now hash n =
     (if negativeTTL c \<le> 0 then n
      else let (order, m) = (case negEntries n hash of
                               None \<Rightarrow> (case negEvict (negativeCap c) (negOrder n) (negEntries n) of (o', m) \<Rightarrow> (o' @ [hash], m))
                             | Some _ \<Rightarrow> (negOrder n, negEntries n))
           in \<lparr>negEntries = m(hash \<mapsto> now + negativeTTL c), negOrder = order\<rparr>)"

definition forgetNegative :: "string \<Rightarrow> negativeKeyCache \<Rightarrow> negativeKeyCache" where
  "forgetNegative hash n = negDrop hash n"

text \<open>The map and the order name the same hashes, each once, and never more than the cap.\<close>

definition neg_ok :: "lookupGuardConfig \<Rightarrow> negativeKeyCache \<Rightarrow> bool" where
  "neg_ok c n \<longleftrightarrow> distinct (negOrder n) \<and> set (negOrder n) = dom (negEntries n) \<and> int (length (negOrder n)) \<le> max 1 (negativeCap c)"

text \<open>
  What the guard keeps: the slots are the workers on the store, at most as many as configured; at
  most one worker holds the probe of the present generation, and it does exactly while the circuit
  is half-open with its probe taken; while the circuit is not closed nobody else holds a token of
  the present generation.
\<close>

definition guard_inv :: "lookupGuardConfig \<Rightarrow> worker list \<times> lookupGuard \<Rightarrow> bool" where
  "guard_inv c = (\<lambda>(ws, g). cfg g = c \<and> sem g = count onStore ws \<and> sem g \<le> max 0 (maxInflight c) \<and>
     (\<forall>w \<in> set ws. \<forall>t. tokenOf w = Some t \<longrightarrow> tokGen t \<le> gen g) \<and> (\<forall>t. OnStore t \<in> set ws \<longrightarrow> slot t) \<and>
     count (liveProbe g) ws = of_bool (state g = circuitHalfOpen \<and> probeTaken g) \<and>
     (state g \<noteq> circuitClosed \<longrightarrow> count (livePlain g) ws = 0))"

text \<open>A run of reads that all time out, one after the other.\<close>

definition timeouts :: "(int \<times> int) list \<Rightarrow> lookupGuard \<Rightarrow> lookupGuard" where
  "timeouts ts g = fold (\<lambda>(start, finish) g. snd (dataPathRead True start finish True True DeadlineExceeded g)) ts g"

text \<open>The calls on the negative cache, in the order the cache serves them.\<close>

datatype negOp = NegHit int string | NegRemember int string | NegForget string

fun negStep :: "lookupGuardConfig \<Rightarrow> negOp \<Rightarrow> negativeKeyCache \<Rightarrow> negativeKeyCache" where
  "negStep c (NegHit now h) n = snd (negativeHit c now h n)"
| "negStep c (NegRemember now h) n = rememberNegative c now h n"
| "negStep c (NegForget h) n = forgetNegative h n"

definition negRun :: "lookupGuardConfig \<Rightarrow> negOp list \<Rightarrow> negativeKeyCache" where
  "negRun c ops = fold (negStep c) ops emptyNegative"

section \<open>Lemmas\<close>

subsection \<open>Counting\<close>

lemma count_Cons [simp]: "count P (x # xs) = of_bool (P x) + count P xs" and count_Nil [simp]: "count P [] = 0"
  by (simp_all add: count_def)

lemma count_nonneg [simp]: "0 \<le> count P xs"
  by (simp add: count_def)

lemma count_update: "i < length xs \<Longrightarrow> count P (xs[i := x]) = count P xs - of_bool (P (xs ! i)) + of_bool (P x)"
proof (induction xs arbitrary: i)
  case (Cons y xs)
  then show ?case by (cases i) auto
qed simp

lemma count_zero: "(\<forall>x \<in> set xs. \<not> P x) \<Longrightarrow> count P xs = 0"
  by (induction xs) auto

lemma count_pos: "x \<in> set xs \<Longrightarrow> P x \<Longrightarrow> 0 < count P xs"
  by (induction xs) (auto intro: add_pos_nonneg)

lemma count_zero_iff: "count P xs = 0 \<longleftrightarrow> (\<forall>x \<in> set xs. \<not> P x)"
  using count_zero [of xs P] count_pos [of _ xs P] by fastforce

lemma count_replicate [simp]: "count P (replicate n x) = (if P x then int n else 0)"
  by (induction n) auto

lemma set_updateD: "w \<in> set (ws[i := x]) \<Longrightarrow> w = x \<or> w \<in> set ws"
  using set_update_subset_insert [of ws i x] by blast

subsection \<open>The circuit\<close>

lemma observe_simps [simp]:
  "cfg (observe r t g) = cfg g" "sem (observe r t g) = sem g" "state (observe r t g) = state g"
  "gen (observe r t g) = gen g" "failures (observe r t g) = failures g" "openedAt (observe r t g) = openedAt g"
  "probeTaken (observe r t g) = probeTaken g"
  by (simp_all add: observe_def Let_def)

lemma live_cong [simp]:
  "liveProbe (observe r t g) = liveProbe g" "livePlain (observe r t g) = livePlain g"
  by (simp_all add: fun_eq_iff liveProbe_def livePlain_def split: option.split)

lemma live_gen: "gen g' = gen g \<Longrightarrow> liveProbe g' = liveProbe g \<and> livePlain g' = livePlain g"
  by (simp add: fun_eq_iff liveProbe_def livePlain_def split: option.split)

text \<open>A new generation makes every outstanding token stale.\<close>

lemma stale_count:
  assumes "\<forall>w \<in> set ws. \<forall>t. tokenOf w = Some t \<longrightarrow> tokGen t \<le> gen g" and "gen g < gen g'"
  shows "count (liveProbe g') ws = 0" and "count (livePlain g') ws = 0"
  using assms by (auto intro!: count_zero simp: liveProbe_def livePlain_def split: option.splits)

lemma guard_inv_start: "guard_inv c (replicate n Idle, newGuard c)"
  by (auto simp: guard_inv_def newGuard_def liveProbe_def livePlain_def)

text \<open>What a step that changes one worker and the guard has to show.\<close>

lemma guard_inv_update:
  assumes "guard_inv c (ws, g)" and "i < length ws" and "cfg g' = cfg g" and "gen g \<le> gen g'"
    and "sem g' = sem g - of_bool (onStore (ws ! i)) + of_bool (onStore x)" and "sem g' \<le> max 0 (maxInflight c)"
    and "\<And>t. tokenOf x = Some t \<Longrightarrow> tokGen t \<le> gen g'" and "\<And>t. x = OnStore t \<Longrightarrow> slot t"
    and "count (liveProbe g') (ws[i := x]) = of_bool (state g' = circuitHalfOpen \<and> probeTaken g')"
    and "state g' \<noteq> circuitClosed \<Longrightarrow> count (livePlain g') (ws[i := x]) = 0"
  shows "guard_inv c (ws[i := x], g')"
proof -
  note I = assms(1) [unfolded guard_inv_def split_conv]
  have "sem g' = count onStore (ws[i := x])" using I assms(5) count_update [OF assms(2), of onStore x] by simp
  moreover have "\<forall>w \<in> set (ws[i := x]). \<forall>t. tokenOf w = Some t \<longrightarrow> tokGen t \<le> gen g'"
    using I assms(4,7) by (fastforce dest!: set_updateD)
  moreover have "\<forall>t. OnStore t \<in> set (ws[i := x]) \<longrightarrow> slot t"
    using I assms(8) by (fastforce dest!: set_updateD)
  ultimately show ?thesis using I assms(3,6,9,10) by (simp add: guard_inv_def)
qed

lemma guard_invD:
  assumes "guard_inv c (ws, g)"
  shows "cfg g = c" "sem g = count onStore ws" "sem g \<le> max 0 (maxInflight c)"
    "\<And>w t. w \<in> set ws \<Longrightarrow> tokenOf w = Some t \<Longrightarrow> tokGen t \<le> gen g" "\<And>t. OnStore t \<in> set ws \<Longrightarrow> slot t"
    "count (liveProbe g) ws = of_bool (state g = circuitHalfOpen \<and> probeTaken g)"
    "state g \<noteq> circuitClosed \<Longrightarrow> count (livePlain g) ws = 0"
  using assms by (auto simp: guard_inv_def)

lemma stale_inv:
  assumes "guard_inv c (ws, g)" and "gen g < gen g'"
  shows "count (liveProbe g') ws = 0" and "count (livePlain g') ws = 0"
  using stale_count [of ws g g'] guard_invD(4) [OF assms(1)] assms(2) by auto

lemma live_token [simp]:
  "liveProbe g (Waiting t) = (probe t \<and> tokGen t = gen g)" "liveProbe g (OnStore t) = (probe t \<and> tokGen t = gen g)"
  "livePlain g (Waiting t) = (\<not> probe t \<and> tokGen t = gen g)" "livePlain g (OnStore t) = (\<not> probe t \<and> tokGen t = gen g)"
  "liveProbe g Idle = False" "livePlain g Idle = False"
  by (simp_all add: liveProbe_def livePlain_def)

lemma pass_cases:
  assumes "guardPass now g = (Some tok, g')"
  shows "cfg g' = cfg g" and "sem g' = sem g" and "gen g \<le> gen g'" and "tokGen tok = gen g'"
    and "g' = g \<and> state g = circuitClosed \<and> \<not> probe tok \<or>
         probe tok \<and> state g' = circuitHalfOpen \<and> probeTaken g' \<and>
           (gen g < gen g' \<or> gen g' = gen g \<and> state g = circuitHalfOpen \<and> \<not> probeTaken g)"
  using assms by (auto simp: guardPass_def Let_def split: circuitState.splits if_splits)

lemma pass_inv:
  assumes "guard_inv c (ws, g)" and "i < length ws" and "ws ! i = Idle" and "guardPass now g = (Some tok, g')"
  shows "guard_inv c (ws[i := Waiting tok], g')"
proof (rule guard_inv_update [OF assms(1,2)])
  note D = guard_invD [OF assms(1)] and U = count_update [OF assms(2)] and P = pass_cases [OF assms(4)]
  have old: "count (liveProbe g') ws = 0 \<and> count (livePlain g') ws = 0" if "g' \<noteq> g"
  proof (cases "gen g < gen g'")
    case True
    then show ?thesis using stale_inv [OF assms(1)] by simp
  next
    case False
    then have "gen g' = gen g" "state g = circuitHalfOpen" "\<not> probeTaken g" using P(5) that by auto
    then show ?thesis using live_gen [of g' g] D(6,7) by simp
  qed
  show "count (liveProbe g') (ws[i := Waiting tok]) = of_bool (state g' = circuitHalfOpen \<and> probeTaken g')"
    using P(5) old D(6) P(4) by (cases "g' = g") (auto simp: U assms(3))
  show "count (livePlain g') (ws[i := Waiting tok]) = 0" if "state g' \<noteq> circuitClosed"
    using P(5) old that by (cases "g' = g") (auto simp: U assms(3))
qed (use assms(3) pass_cases [OF assms(4)] guard_invD(3) [OF assms(1)] in auto)

lemma slot_inv:
  assumes "guard_inv c (ws, g)" and "i < length ws" and "ws ! i = Waiting tok" and "sem g < maxInflight (cfg g)"
    and "takeSlot tok g = (tok', g')"
  shows "guard_inv c (ws[i := OnStore tok'], g')"
proof (rule guard_inv_update [OF assms(1,2)])
  note D = guard_invD [OF assms(1)] and U = count_update [OF assms(2)]
  have E: "tok' = tok\<lparr>slot := True\<rparr>" "g' = g\<lparr>sem := sem g + 1\<rparr>" using assms(5) by (simp_all add: takeSlot_def)
  have in_ws: "Waiting tok \<in> set ws" using assms(2,3) by (metis nth_mem)
  have L: "liveProbe g' = liveProbe g" "livePlain g' = livePlain g" using live_gen [of g' g] by (simp_all add: E)
  show "tokGen t \<le> gen g'" if "tokenOf (OnStore tok') = Some t" for t
    using D(4) [OF in_ws] that by (auto simp: E)
  show "count (liveProbe g') (ws[i := OnStore tok']) = of_bool (state g' = circuitHalfOpen \<and> probeTaken g')"
    unfolding U L assms(3) using D(6) by (simp add: E)
  show "count (livePlain g') (ws[i := OnStore tok']) = 0" if "state g' \<noteq> circuitClosed"
    unfolding U L assms(3) using D(7) that by (simp add: E)
  show "sem g' \<le> max 0 (maxInflight c)" using assms(4) D(1) by (simp add: E)
qed (use assms(3,5) in \<open>auto simp: takeSlot_def\<close>)

text \<open>A worker that gives its token back leaves one token less; only a live probe matters.\<close>

lemma drop_inv:
  assumes "guard_inv c (ws, g)" and "i < length ws" and "tokenOf (ws ! i) = Some tok"
    and "cfg g' = cfg g" and "gen g' = gen g" and "state g' = state g"
    and "sem g' = sem g - of_bool (onStore (ws ! i))"
    and "probeTaken g' = (probeTaken g \<and> \<not> (probe tok \<and> tokGen tok = gen g \<and> state g = circuitHalfOpen))"
  shows "guard_inv c (ws[i := Idle], g')"
proof (rule guard_inv_update [OF assms(1,2)])
  note D = guard_invD [OF assms(1)] and U = count_update [OF assms(2)]
  have w: "ws ! i \<in> set ws" using assms(2) by simp
  have L: "liveProbe g' = liveProbe g" "livePlain g' = livePlain g" using live_gen [OF assms(5)] by simp_all
  have lp: "liveProbe g (ws ! i) = (probe tok \<and> tokGen tok = gen g)" using assms(3) by (simp add: liveProbe_def)
  have half: "state g = circuitHalfOpen \<and> probeTaken g" if "liveProbe g (ws ! i)"
    using count_pos [of "ws ! i" ws "liveProbe g", OF w that] unfolding D(6) by (simp add: of_bool_def split: if_splits)
  show "count (liveProbe g') (ws[i := Idle]) = of_bool (state g' = circuitHalfOpen \<and> probeTaken g')"
  proof (cases "liveProbe g (ws ! i)")
    case True
    then have "state g = circuitHalfOpen" "probeTaken g" "probe tok" "tokGen tok = gen g" using half lp by auto
    then show ?thesis using True by (simp add: U L D(6) assms(6,8))
  next
    case False
    then have "\<not> (probe tok \<and> tokGen tok = gen g)" using lp by simp
    then show ?thesis using False by (auto simp: U L D(6) assms(6,8))
  qed
  show "count (livePlain g') (ws[i := Idle]) = 0" if "state g' \<noteq> circuitClosed"
  proof -
    have "\<not> livePlain g (ws ! i)" using count_zero_iff [of "livePlain g" ws] D(7) w that assms(6) by simp
    then show ?thesis unfolding U L live_token using D(7) that assms(6) by simp
  qed
  show "sem g' \<le> max 0 (maxInflight c)" using D(3) assms(7) by simp
qed (use assms(4-7) in simp_all)

lemma gaveUp_inv:
  assumes "guard_inv c (ws, g)" and "i < length ws" and "ws ! i = Waiting tok"
  shows "guard_inv c (ws[i := Idle], observe resultRefusedInflight took (giveUp tok g))"
  by (rule drop_inv [OF assms(1,2), where tok = tok]) (use assms(3) in \<open>auto simp: giveUp_def\<close>)

text \<open>The cases of a report: the circuit is left as it is, a closed circuit only counts, or it moves on.\<close>

lemma report_cases:
  assumes "slot tok" and "g2 = reportLookup now tok res failure took g"
  shows "cfg g2 = cfg g" and "sem g2 = sem g - 1"
    and "gen g2 = gen g \<and> state g2 = state g \<and> probeTaken g2 = probeTaken g \<and>
           \<not> (probe tok \<and> tokGen tok = gen g \<and> state g = circuitHalfOpen) \<or>
         gen g2 = gen g + 1 \<and> state g2 \<noteq> circuitHalfOpen"
  using assms by (auto simp: reportLookup_def Let_def split: circuitState.splits)

lemma report_inv:
  assumes "guard_inv c (ws, g)" and "i < length ws" and "ws ! i = OnStore tok"
  shows "guard_inv c (ws[i := Idle], reportLookup now tok res failure took g)"
proof -
  note D = guard_invD [OF assms(1)]
  define g2 where "g2 = reportLookup now tok res failure took g"
  have "slot tok" using D(5) assms(2,3) by (metis nth_mem)
  note R = report_cases [OF this g2_def]
  show ?thesis unfolding g2_def [symmetric]
  proof (cases "gen g2 = gen g")
    case True
    then show "guard_inv c (ws[i := Idle], g2)"
      using R assms(3) by (intro drop_inv [OF assms(1,2), where tok = tok]) auto
  next
    case False
    with R(3) have g2: "gen g < gen g2" "state g2 \<noteq> circuitHalfOpen" by auto
    have "count (liveProbe g2) (ws[i := Idle]) = 0" "count (livePlain g2) (ws[i := Idle]) = 0"
      using stale_inv [OF assms(1) g2(1)] assms(2) by (auto simp: count_zero_iff dest!: set_updateD)
    then show "guard_inv c (ws[i := Idle], g2)"
      using g2 R(1,2) D(3) assms(3) by (intro guard_inv_update [OF assms(1,2)]) auto
  qed
qed

lemma guardStep_inv:
  assumes "guardStep s s'" and "guard_inv c s"
  shows "guard_inv c s'"
  using assms
proof (cases rule: guardStep.cases)
  case (refused i ws now g g' took)
  then have "g' = g" by (auto simp: guardPass_def Let_def split: circuitState.splits if_splits)
  with refused assms(2) show ?thesis by (simp add: guard_inv_def)
next
  case (passed i ws now g tok g')
  then show ?thesis using pass_inv assms(2) by simp
next
  case (slotted i ws tok g tok' g')
  then show ?thesis using slot_inv assms(2) by simp
next
  case (gaveUp i ws tok g took)
  then show ?thesis using gaveUp_inv assms(2) by simp
next
  case (reported i ws tok g now res failure took)
  then show ?thesis using report_inv assms(2) by simp
qed

lemma guardReach_inv: "guardReach c n s \<Longrightarrow> guard_inv c s"
  by (induction rule: guardReach.induct) (auto intro: guard_inv_start guardStep_inv)

subsection \<open>Reads one after the other\<close>

lemma pass_open:
  "state g = circuitOpen \<Longrightarrow> now - openedAt g < cooldown (cfg g) \<Longrightarrow> guardPass now g = (None, g)"
  by (simp add: guardPass_def)

lemma read_closed_failure:
  assumes "state g = circuitClosed" and "circuitFailure (classifyLookup ctxDone err) err"
  shows "snd (dataPathRead True start finish True ctxDone err g) =
     (let g' = observe (classifyLookup ctxDone err) (finish - start) g
      in if cfgFailures (cfg g) > 0 \<and> failures g + 1 \<ge> cfgFailures (cfg g)
         then g'\<lparr>failures := failures g + 1, state := circuitOpen, openedAt := finish, gen := gen g + 1\<rparr>
         else g'\<lparr>failures := failures g + 1\<rparr>)"
  using assms by (simp add: dataPathRead_def admit_def guardPass_def takeSlot_def reportLookup_def Let_def observe_def)

lemma timeout_failure: "circuitFailure (classifyLookup True DeadlineExceeded) DeadlineExceeded"
  by (simp add: circuitFailure_def classifyLookup_def)

lemma timeouts_closed:
  "state g = circuitClosed \<Longrightarrow> failures g + int (length ts) < cfgFailures (cfg g) \<Longrightarrow>
   state (timeouts ts g) = circuitClosed \<and> failures (timeouts ts g) = failures g + int (length ts) \<and>
   cfg (timeouts ts g) = cfg g \<and> openedAt (timeouts ts g) = openedAt g"
proof (induction ts arbitrary: g)
  case (Cons p ts)
  obtain a b where p: "p = (a, b)" by (cases p)
  let ?g = "snd (dataPathRead True a b True True DeadlineExceeded g)"
  have g: "state ?g = circuitClosed" "failures ?g = failures g + 1" "cfg ?g = cfg g" "openedAt ?g = openedAt g"
    using Cons.prems by (simp_all add: read_closed_failure [OF _ timeout_failure] Let_def)
  show ?case using Cons.IH [of ?g] Cons.prems g by (simp add: timeouts_def p)
qed (simp add: timeouts_def)

lemma timeouts_open:
  assumes "state g = circuitClosed" and "failures g + int (length ts) + 1 = cfgFailures (cfg g)" and "failures g \<ge> 0"
  shows "state (timeouts (ts @ [(a, b)]) g) = circuitOpen" and "openedAt (timeouts (ts @ [(a, b)]) g) = b"
    and "cfg (timeouts (ts @ [(a, b)]) g) = cfg g"
proof -
  have c: "state (timeouts ts g) = circuitClosed" "failures (timeouts ts g) = failures g + int (length ts)"
    "cfg (timeouts ts g) = cfg g"
    using timeouts_closed [of g ts] assms by auto
  then have "timeouts (ts @ [(a, b)]) g = snd (dataPathRead True a b True True DeadlineExceeded (timeouts ts g))"
    by (simp add: timeouts_def)
  then show "state (timeouts (ts @ [(a, b)]) g) = circuitOpen" "openedAt (timeouts (ts @ [(a, b)]) g) = b"
    "cfg (timeouts (ts @ [(a, b)]) g) = cfg g"
    using c assms(2,3) by (simp_all add: read_closed_failure [OF _ timeout_failure] Let_def)
qed

text \<open>What a read does to an open circuit.\<close>

lemma open_refuses:
  assumes "state g = circuitOpen" and "start - openedAt g < cooldown (cfg g)"
  shows "dataPathRead True start finish free ctxDone err g = (ReadUnavailable, observe resultRefusedCircuit (finish - start) g)"
  by (simp add: dataPathRead_def admit_def pass_open [OF assms])

lemma open_probes:
  assumes "state g = circuitOpen" and "\<not> start - openedAt g < cooldown (cfg g)"
    and "failed = circuitFailure (classifyLookup ctxDone err) err"
  shows "fst (dataPathRead True start finish True ctxDone err g) = ReadStmt err"
    and "state (snd (dataPathRead True start finish True ctxDone err g)) = (if failed then circuitOpen else circuitClosed)"
    and "openedAt (snd (dataPathRead True start finish True ctxDone err g)) = (if failed then finish else openedAt g)"
    and "\<not> failed \<Longrightarrow> failures (snd (dataPathRead True start finish True ctxDone err g)) = 0"
  using assms by (simp_all add: dataPathRead_def admit_def guardPass_def takeSlot_def reportLookup_def Let_def)

subsection \<open>The negative cache\<close>

lemma negDrop_ok: "neg_ok c n \<Longrightarrow> neg_ok c (negDrop h n)"
  using length_remove1 [of h "negOrder n"]
  by (auto simp: neg_ok_def negDrop_def distinct_remove1 set_remove1_eq split: option.splits)

lemma negEvict_spec:
  assumes "negEvict cap hs m = (hs', m')" and "distinct hs" and "set hs = dom m"
  shows "distinct hs'" and "set hs' = dom m'" and "cap > 0 \<Longrightarrow> int (length hs') < cap" and "m' h = Some e \<Longrightarrow> m h = Some e"
proof -
  have "distinct hs' \<and> set hs' = dom m' \<and> (cap > 0 \<longrightarrow> int (length hs') < cap) \<and> (m' h = Some e \<longrightarrow> m h = Some e)"
    using assms
  proof (induction cap hs m rule: negEvict.induct)
    case (2 cap x hs m)
    show ?case
    proof (cases "int (length (x # hs)) \<ge> cap")
      case True
      have "distinct hs" and "set hs = dom (m(x := None))" using "2.prems"(2,3) by auto
      moreover have "negEvict cap hs (m(x := None)) = (hs', m')" using "2.prems"(1) True by simp
      ultimately have "distinct hs' \<and> set hs' = dom m' \<and> (cap > 0 \<longrightarrow> int (length hs') < cap) \<and>
          (m' h = Some e \<longrightarrow> (m(x := None)) h = Some e)"
        by (rule "2.IH" [OF True, rotated 1])
      then show ?thesis by (auto split: if_splits)
    qed (use "2.prems" in auto)
  qed auto
  then show "distinct hs'" "set hs' = dom m'" "cap > 0 \<Longrightarrow> int (length hs') < cap" "m' h = Some e \<Longrightarrow> m h = Some e" by auto
qed

lemma rememberNegative_ok:
  assumes "neg_ok c n" and "negativeCap c \<ge> 1"
  shows "neg_ok c (rememberNegative c now h n)"
proof (cases "negEntries n h")
  case None
  obtain hs m where E: "negEvict (negativeCap c) (negOrder n) (negEntries n) = (hs, m)" by force
  note S = negEvict_spec [OF E] assms(1) [unfolded neg_ok_def]
  have "h \<notin> dom m" using S(4) [of h] None S(5) by (metis domD option.distinct(1))
  then show ?thesis
    using S(1,2,3,5) assms None by (auto simp: neg_ok_def rememberNegative_def E Let_def)
next
  case (Some e)
  then show ?thesis using assms by (auto simp: neg_ok_def rememberNegative_def Let_def)
qed

text \<open>What an operation leaves remembered of a hash.\<close>

lemma rememberNegative_get:
  assumes "neg_ok c n" and "negEntries (rememberNegative c now h n) k = Some e"
  shows "k = h \<and> e = now + negativeTTL c \<or> negEntries n k = Some e"
proof (cases "negEntries n h")
  case None
  obtain hs m where E: "negEvict (negativeCap c) (negOrder n) (negEntries n) = (hs, m)" by force
  show ?thesis
    using negEvict_spec(4) [OF E, of k e] assms None
    by (auto simp: neg_ok_def rememberNegative_def E Let_def split: if_splits)
next
  case (Some e')
  then show ?thesis using assms by (auto simp: rememberNegative_def Let_def split: if_splits)
qed

lemma negDrop_get: "negEntries (negDrop h n) k = (if k = h then None else negEntries n k)"
  by (simp add: negDrop_def split: option.split)

lemma negStep_ok: "neg_ok c n \<Longrightarrow> negativeCap c \<ge> 1 \<Longrightarrow> neg_ok c (negStep c op n)"
  by (cases op) (auto simp: negativeHit_def forgetNegative_def rememberNegative_ok negDrop_ok split: option.split)

lemma negRun_ok: "negativeCap c \<ge> 1 \<Longrightarrow> neg_ok c (negRun c ops)"
  by (induction ops rule: rev_induct) (auto simp: negRun_def negStep_ok, simp add: neg_ok_def emptyNegative_def)

lemma negRun_get:
  "negativeCap c \<ge> 1 \<Longrightarrow> negEntries (negRun c ops) h = Some e \<Longrightarrow>
   \<exists>pre t post. ops = pre @ NegRemember t h # post \<and> NegForget h \<notin> set post \<and> e = t + negativeTTL c"
proof (induction ops rule: rev_induct)
  case (snoc op ops)
  let ?n = "negRun c ops"
  have run: "negRun c (ops @ [op]) = negStep c op ?n" by (simp add: negRun_def)
  show ?case
  proof (cases "\<exists>t. op = NegRemember t h \<and> e = t + negativeTTL c")
    case False
    then have "negEntries ?n h = Some e" and "op \<noteq> NegForget h"
      using snoc.prems(2) rememberNegative_get [OF negRun_ok [OF snoc.prems(1)], of _ _ ops h e]
      unfolding run by (cases op; auto simp: negativeHit_def forgetNegative_def negDrop_get split: option.splits if_splits)+
    with snoc.IH [OF snoc.prems(1)] obtain pre t post where
      "ops = pre @ NegRemember t h # post" "NegForget h \<notin> set post" "e = t + negativeTTL c" by blast
    with \<open>op \<noteq> NegForget h\<close> show ?thesis by (intro exI [of _ pre] exI [of _ t] exI [of _ "post @ [op]"]) simp
  qed (auto intro: exI [of _ ops])
qed (simp add: negRun_def emptyNegative_def)

section \<open>Properties\<close>

definition exCfg :: lookupGuardConfig where
  "exCfg = \<lparr>maxInflight = 1, cfgFailures = 1, cooldown = 100, negativeTTL = 50, negativeCap = 2\<rparr>"

text \<open>
  C10. Proxy workers that share the guard, in every interleaving: no more round trips are on the
  store than configured, the slot count is the number of workers on the store, a half-open circuit
  whose probe is taken has exactly one outstanding probe and any other state has none, and while
  the circuit is open or half-open no worker but the probe holds a token that can move it.
\<close>

theorem lookup_guard_interleaved:
  assumes "guardReach c n (ws, g)"
  shows "sem g = count onStore ws \<and> count onStore ws \<le> max 0 (maxInflight c) \<and>
         count (liveProbe g) ws = (if state g = circuitHalfOpen \<and> probeTaken g then 1 else 0) \<and>
         (state g \<noteq> circuitClosed \<longrightarrow> (\<forall>w \<in> set ws. \<forall>t. tokenOf w = Some t \<longrightarrow> tokGen t = gen g \<longrightarrow> probe t))"
proof -
  note D = guard_invD [OF guardReach_inv [OF assms]]
  have "probe t" if "state g \<noteq> circuitClosed" "w \<in> set ws" "tokenOf w = Some t" "tokGen t = gen g" for w t
    using D(7) [OF that(1)] that by (auto simp: count_zero_iff livePlain_def)
  with D(2,3,6) show ?thesis by auto
qed

lemma exReach: "\<exists>g. guardReach exCfg 2 ([OnStore \<lparr>tokGen = 2, probe = True, slot = True\<rparr>, Waiting \<lparr>tokGen = 0, probe = False, slot = False\<rparr>], g) \<and>
    state g = circuitHalfOpen \<and> probeTaken g \<and> gen g = 2"
proof -
  let ?t0 = "\<lparr>tokGen = 0, probe = False, slot = False\<rparr>" and ?p = "\<lparr>tokGen = 2, probe = True, slot = False\<rparr>"
  let ?g0 = "newGuard exCfg" and ?o = "OnStore (\<lparr>tokGen = 0, probe = False, slot = True\<rparr>)"
  let ?g1 = "?g0\<lparr>sem := 1\<rparr>"
  let ?g2 = "reportLookup 10 \<lparr>tokGen = 0, probe = False, slot = True\<rparr> resultTimeout True 5 ?g1"
  let ?g3 = "?g2\<lparr>state := circuitHalfOpen, gen := 2, probeTaken := True\<rparr>"
  note S = guardReach.step [of exCfg 2]
  have r0: "guardReach exCfg 2 ([Idle, Idle], ?g0)" using guardReach.start [of exCfg 2] by (simp add: numeral_2_eq_2)
  have r1: "guardReach exCfg 2 ([Waiting ?t0, Idle], ?g0)"
    by (rule S [OF r0]) (use guardStep.passed [of 0 "[Idle, Idle]" 0 ?g0 ?t0 ?g0] in \<open>simp add: guardPass_def newGuard_def\<close>)
  have r2: "guardReach exCfg 2 ([Waiting ?t0, Waiting ?t0], ?g0)"
    by (rule S [OF r1]) (use guardStep.passed [of 1 "[Waiting ?t0, Idle]" 0 ?g0 ?t0 ?g0] in \<open>simp add: guardPass_def newGuard_def\<close>)
  have r3: "guardReach exCfg 2 ([?o, Waiting ?t0], ?g1)"
    by (rule S [OF r2]) (use guardStep.slotted [of 0 "[Waiting ?t0, Waiting ?t0]" ?t0 ?g0] in \<open>simp add: takeSlot_def newGuard_def exCfg_def\<close>)
  have r4: "guardReach exCfg 2 ([Idle, Waiting ?t0], ?g2)"
    by (rule S [OF r3]) (use guardStep.reported [of 0 "[?o, Waiting ?t0]"] in simp)
  have g2: "state ?g2 = circuitOpen" "gen ?g2 = 1" "openedAt ?g2 = 10" "cfg ?g2 = exCfg" "sem ?g2 = 0"
    by (simp_all add: reportLookup_def newGuard_def exCfg_def Let_def)
  have r5: "guardReach exCfg 2 ([Waiting ?p, Waiting ?t0], ?g3)"
    by (rule S [OF r4]) (use guardStep.passed [of 0 "[Idle, Waiting ?t0]" 110 ?g2 ?p ?g3] g2 in \<open>simp add: guardPass_def exCfg_def Let_def\<close>)
  have "guardReach exCfg 2 ([OnStore (?p\<lparr>slot := True\<rparr>), Waiting ?t0], ?g3\<lparr>sem := 1\<rparr>)"
    by (rule S [OF r5]) (use guardStep.slotted [of 0 "[Waiting ?p, Waiting ?t0]" ?p ?g3] g2 in \<open>simp add: takeSlot_def exCfg_def\<close>)
  then show ?thesis by (intro exI [of _ "?g3\<lparr>sem := 1\<rparr>"]) simp
qed

theorem lookup_guard_interleaved_witness:
  "\<exists>ws g. guardReach exCfg 2 (ws, g) \<and> state g = circuitHalfOpen \<and> count onStore ws = 1 \<and> sem g = 1 \<and> count (liveProbe g) ws = 1"
proof -
  obtain g where R: "guardReach exCfg 2 ([OnStore \<lparr>tokGen = 2, probe = True, slot = True\<rparr>, Waiting \<lparr>tokGen = 0, probe = False, slot = False\<rparr>], g)"
    and g: "state g = circuitHalfOpen" "probeTaken g" "gen g = 2" using exReach by blast
  show ?thesis using lookup_guard_interleaved [OF R] R g by (intro exI conjI) auto
qed





end
