(* ===== verification/Key_Service.thy ===== *)
theory Key_Service
  imports Class_Snapshot Lookup_Guard
begin

text \<open>
  The API-key service (src/pkg/aikey/service.go, key_patch.go, invalidate.go): creating, validating,
  changing and revoking keys, the tenant limits, the caches in front of the store and what is served
  while the store is away. The TTL cache is the library go-cache and is a parameter with its
  documented laws; the hash of a key (SHA-256) is a parameter too. The store is the tables of theory
  Key_Tables, and every data-path read goes through the guard of theory Lookup_Guard. What other
  goroutines do between two statements of an operation is covered by giving the operations in the
  phases between which that can happen. Times are in nanoseconds.
\<close>

section \<open>Definitions\<close>

subsection \<open>Keys and their views\<close>

record keyEntry =
  ke_id :: string
  ke_hash :: string
  ke_tenant :: string
  ke_name :: string
  ke_models :: "string list"
  ke_rps :: int
  ke_burst :: int
  ke_tpm :: int
  ke_created :: int
  ke_expires :: "int option"
  ke_enabled :: bool
  ke_op_id :: string

record keySummary =
  ks_id :: string
  ks_tenant :: string
  ks_name :: string
  ks_models :: "string list"
  ks_rps :: int
  ks_burst :: int
  ks_tpm :: int
  ks_created :: int
  ks_expires :: "int option"
  ks_enabled :: bool
  ks_op_id :: string

definition modelsOf :: "string \<Rightarrow> string list" where
  "modelsOf m = (if m \<noteq> '''' then Split CHR '','' m else [])"

text \<open>What the by-hash and the by-id reads scan a row into.\<close>

definition entryOfRow :: "apiKeyRow \<Rightarrow> keyEntry" where
  "entryOfRow r =
     \<lparr>ke_id = key_id r, ke_hash = key_hash r, ke_tenant = tenant_id r, ke_name = key_name r, ke_models = modelsOf (allowed_models r),
      ke_rps = rate_limit_rps r, ke_burst = burst_size r, ke_tpm = tokens_per_min r, ke_created = created_at r,
      ke_expires = expires_at r, ke_enabled = enabled r, ke_op_id = (case client_op_id r of None \<Rightarrow> '''' | Some c \<Rightarrow> c)\<rparr>"

definition summaryOfRow :: "apiKeyRow \<Rightarrow> keySummary" where
  "summaryOfRow r =
     \<lparr>ks_id = key_id r, ks_tenant = tenant_id r, ks_name = key_name r, ks_models = modelsOf (allowed_models r),
      ks_rps = rate_limit_rps r, ks_burst = burst_size r, ks_tpm = tokens_per_min r, ks_created = created_at r,
      ks_expires = expires_at r, ks_enabled = enabled r, ks_op_id = (case client_op_id r of None \<Rightarrow> '''' | Some c \<Rightarrow> c)\<rparr>"

definition summaryOfEntry :: "keyEntry \<Rightarrow> keySummary" where
  "summaryOfEntry e =
     \<lparr>ks_id = ke_id e, ks_tenant = ke_tenant e, ks_name = ke_name e, ks_models = ke_models e,
      ks_rps = ke_rps e, ks_burst = ke_burst e, ks_tpm = ke_tpm e, ks_created = ke_created e,
      ks_expires = ke_expires e, ks_enabled = ke_enabled e, ks_op_id = ''''\<rparr>"

subsection \<open>The cache\<close>

datatype cacheVal = VEntry keyEntry | VSummary keySummary | VLimit rateLimitCacheEntry

text \<open>\<open>Get\<close>, \<open>Set\<close> and \<open>Delete\<close> of the library; the first argument of the first two is the clock.\<close>

record 'c cacheLib =
  cacheGet :: "int \<Rightarrow> string \<Rightarrow> 'c \<Rightarrow> cacheVal option"
  cacheSet :: "int \<Rightarrow> string \<Rightarrow> cacheVal \<Rightarrow> int \<Rightarrow> 'c \<Rightarrow> 'c"
  cacheDelete :: "string \<Rightarrow> 'c \<Rightarrow> 'c"

definition cache_laws :: "'c cacheLib \<Rightarrow> bool" where
  "cache_laws lib \<longleftrightarrow>
     (\<forall>now k c. cacheGet lib now k (cacheDelete lib k c) = None) \<and>
     (\<forall>now k k' c. k' \<noteq> k \<longrightarrow> cacheGet lib now k' (cacheDelete lib k c) = cacheGet lib now k' c) \<and>
     (\<forall>now t k v ttl c. 0 < ttl \<longrightarrow> cacheGet lib now k (cacheSet lib t k v ttl c) = (if now \<le> t + ttl then Some v else None)) \<and>
     (\<forall>now t k k' v ttl c. k' \<noteq> k \<longrightarrow> cacheGet lib now k' (cacheSet lib t k v ttl c) = cacheGet lib now k' c)"

definition cacheTTL :: int where "cacheTTL = 5 * 60 * 1000000000"

subsection \<open>The service\<close>

record KeyInvalidation =
  invKeyHash :: string
  invKeyID :: string

text \<open>
  \<open>svcConnected\<close>: a pool is attached. \<open>svcSink\<close>: the fan-out is installed, and \<open>svcSent\<close> is what it
  was called with. \<open>svcMarks\<close> are the first uses being recorded in the background.
\<close>

record 'c keyService =
  svcConnected :: bool
  svcCache :: 'c
  svcLastKnown :: "string \<rightharpoonup> cacheVal"
  svcGuard :: lookupGuard
  svcNegative :: negativeKeyCache
  svcClass :: classState
  svcSink :: bool
  svcSent :: "KeyInvalidation list"
  svcMarks :: "string list"

datatype svcErr = EInvalidKey | EKeyNotFound | EAlreadyDelivered string | EValidation string | EConflict | ERandom | EStore drvErr

definition rememberRateLimit :: "'c cacheLib \<Rightarrow> int \<Rightarrow> string \<Rightarrow> rateLimitCacheEntry \<Rightarrow> 'c keyService \<Rightarrow> 'c keyService" where
  "rememberRateLimit lib now k e s =
     s\<lparr>svcCache := cacheSet lib now k (VLimit e) cacheTTL (svcCache s), svcLastKnown := (svcLastKnown s)(k \<mapsto> VLimit e)\<rparr>"

definition lastKnownRateLimit :: "string \<Rightarrow> 'c keyService \<Rightarrow> rateLimitCacheEntry option" where
  "lastKnownRateLimit k s =
     (case svcLastKnown s k of Some (VLimit e) \<Rightarrow> Some e | _ \<Rightarrow> lkgRateLimit k (svcClass s))"

definition rememberKeySummary :: "'c cacheLib \<Rightarrow> int \<Rightarrow> string \<Rightarrow> keySummary \<Rightarrow> 'c keyService \<Rightarrow> 'c keyService" where
  "rememberKeySummary lib now kid k s =
     s\<lparr>svcCache := cacheSet lib now (cacheKeyForID kid) (VSummary k) cacheTTL (svcCache s),
       svcLastKnown := (svcLastKnown s)(cacheKeyForID kid \<mapsto> VSummary k)\<rparr>"

definition lastKnownKeySummary :: "string \<Rightarrow> 'c keyService \<Rightarrow> keySummary option" where
  "lastKnownKeySummary kid s = (case svcLastKnown s (cacheKeyForID kid) of Some (VSummary k) \<Rightarrow> Some k | _ \<Rightarrow> None)"

definition forgetKeySummary :: "string \<Rightarrow> 'c keyService \<Rightarrow> 'c keyService" where
  "forgetKeySummary kid s = s\<lparr>svcLastKnown := (svcLastKnown s)(cacheKeyForID kid := None)\<rparr>"

subsection \<open>Invalidation\<close>

definition evict :: "'c cacheLib \<Rightarrow> KeyInvalidation \<Rightarrow> 'c keyService \<Rightarrow> 'c keyService" where
  "evict lib ki s =
     (let s = (if invKeyHash ki \<noteq> ''''
               then s\<lparr>svcCache := cacheDelete lib (cacheKeyForHash (invKeyHash ki)) (svcCache s),
                      svcNegative := forgetNegative (invKeyHash ki) (svcNegative s)\<rparr>
               else s)
      in if invKeyID ki \<noteq> ''''
         then forgetKeySummary (invKeyID ki) (s\<lparr>svcCache := cacheDelete lib (cacheKeyForID (invKeyID ki)) (svcCache s)\<rparr>)
         else s)"

definition evictAndFanOut :: "'c cacheLib \<Rightarrow> KeyInvalidation \<Rightarrow> 'c keyService \<Rightarrow> 'c keyService" where
  "evictAndFanOut lib ki s =
     (let s = evict lib ki s in if svcSink s then s\<lparr>svcSent := svcSent s @ [ki]\<rparr> else s)"

definition ApplyInvalidation :: "'c cacheLib \<Rightarrow> KeyInvalidation \<Rightarrow> 'c keyService \<Rightarrow> 'c keyService" where
  "ApplyInvalidation lib ki s = evict lib ki s"

subsection \<open>Reads through the guard\<close>

text \<open>What the environment does during a guarded read: the clock, the slot, the deadline, the fate of the statement.\<close>

record readEnv =
  reStart :: int
  reFinish :: int
  reFree :: bool
  reDone :: bool
  reFate :: stmtFate

definition stmtErrOf :: "drvErr + 'a \<Rightarrow> stmtError" where
  "stmtErrOf res =
     (case res of
        Inr _ \<Rightarrow> StmtOk
      | Inl e \<Rightarrow> if isNoRows e then ErrNoRows else if isDeadline e then DeadlineExceeded
                 else if isDBUnavailable (readErr e) then StoreGone else ServerError)"

definition guardedRead :: "readEnv \<Rightarrow> (keyDb \<Rightarrow> 'a option) \<Rightarrow> keyDb \<Rightarrow> 'c keyService \<Rightarrow> (drvErr + 'a) \<times> 'c keyService" where
  "guardedRead env q db s =
     (let res = queryRow (reFate env) q db
      in case dataPathRead (svcConnected s) (reStart env) (reFinish env) (reFree env) (reDone env) (stmtErrOf res) (svcGuard s) of
           (ReadUnavailable, g) \<Rightarrow> (Inl errStoreUnavailable, s\<lparr>svcGuard := g\<rparr>)
         | (ReadStmt _, g) \<Rightarrow> (res, s\<lparr>svcGuard := g\<rparr>))"

subsection \<open>Validation\<close>

text \<open>Phase 1 of \<open>ValidateAPIKey\<close>: the cache, then the negative cache; None is a miss.\<close>

definition validateCached :: "'c cacheLib \<Rightarrow> int \<Rightarrow> string \<Rightarrow> 'c keyService \<Rightarrow> (svcErr + keyEntry) option \<times> 'c keyService" where
  "validateCached lib now keyHash s =
     (case cacheGet lib now (cacheKeyForHash keyHash) (svcCache s) of
        Some (VEntry e) \<Rightarrow> (Some (Inr e), s)
      | _ \<Rightarrow>
          (case negativeHit (cfg (svcGuard s)) now keyHash (svcNegative s) of
             (True, n) \<Rightarrow> (Some (Inl EInvalidKey), s\<lparr>svcNegative := n\<rparr>)
           | (False, n) \<Rightarrow> (None, s\<lparr>svcNegative := n\<rparr>)))"

text \<open>Phase 3: what is made of the answer of the store.\<close>

definition validateAnswer :: "'c cacheLib \<Rightarrow> int \<Rightarrow> string \<Rightarrow> drvErr + apiKeyRow \<Rightarrow> 'c keyService \<Rightarrow> (svcErr + keyEntry) \<times> 'c keyService" where
  "validateAnswer lib now keyHash answer s =
     (case answer of
        Inl e \<Rightarrow>
          if isNoRows e then (Inl EInvalidKey, s\<lparr>svcNegative := rememberNegative (cfg (svcGuard s)) now keyHash (svcNegative s)\<rparr>)
          else if isDBUnavailable e then (Inl (EStore e), s)
          else (Inl (EStore (readErr e)), s)
      | Inr row \<Rightarrow>
          let entry = entryOfRow row;
              s = s\<lparr>svcCache := cacheSet lib now (cacheKeyForHash keyHash) (VEntry entry) cacheTTL (svcCache s)\<rparr>;
              s = rememberKeySummary lib now (ke_id entry) (summaryOfEntry entry) s;
              s = (if client_op_id row \<noteq> None \<and> first_used_at row = None then s\<lparr>svcMarks := svcMarks s @ [ke_id entry]\<rparr> else s)
          in (Inr entry, s))"

definition ValidateAPIKey :: "'c cacheLib \<Rightarrow> (string \<Rightarrow> string) \<Rightarrow> int \<Rightarrow> readEnv \<Rightarrow> string \<Rightarrow> keyDb \<Rightarrow> 'c keyService \<Rightarrow>
    (svcErr + keyEntry) \<times> 'c keyService" where
  "ValidateAPIKey lib hashKey now env rawKey db s =
     (case validateCached lib now (hashKey rawKey) s of
        (Some res, s) \<Rightarrow> (res, s)
      | (None, s) \<Rightarrow>
          (case guardedRead env (sqlSelectAPIKeyByHash (hashKey rawKey)) db s of
             (answer, s) \<Rightarrow> validateAnswer lib (reFinish env) (hashKey rawKey) answer s))"

text \<open>The background write of a first use.\<close>

definition markFirstUse :: "stmtFate \<Rightarrow> int \<Rightarrow> string \<Rightarrow> keyDb \<Rightarrow> 'c keyService \<Rightarrow> keyDb" where
  "markFirstUse fate now kid db s =
     (if svcConnected s then snd (execStmt fate (\<lambda>db. Inr (sqlMarkAPIKeyFirstUse now kid db)) db) else db)"

definition svcGetAPIKeyByID :: "'c cacheLib \<Rightarrow> int \<Rightarrow> readEnv \<Rightarrow> string \<Rightarrow> keyDb \<Rightarrow> 'c keyService \<Rightarrow> (svcErr + keySummary) \<times> 'c keyService" where
  "svcGetAPIKeyByID lib now env kid db s =
     (case cacheGet lib now (cacheKeyForID kid) (svcCache s) of
        Some (VSummary k) \<Rightarrow> (Inr k, s)
      | _ \<Rightarrow>
          (case guardedRead env (sqlSelectAPIKeyByID kid) db s of
             (Inl e, s) \<Rightarrow>
               if isNoRows e then (Inl EKeyNotFound, forgetKeySummary kid s)
               else (case lastKnownKeySummary kid s of
                       Some k \<Rightarrow> (Inr k, s)
                     | None \<Rightarrow> if isDBUnavailable e then (Inl (EStore e), s) else (Inl (EStore (readErr e)), s))
           | (Inr row, s) \<Rightarrow> (Inr (summaryOfRow row), rememberKeySummary lib (reFinish env) kid (summaryOfRow row) s)))"

subsection \<open>Revoking and changing keys\<close>

text \<open>
  Operations answer with their error, the tables they leave, and the service. The fates are those
  of their statements in order.
\<close>

definition keyHashByID :: "stmtFate \<Rightarrow> string \<Rightarrow> keyDb \<Rightarrow> svcErr + string" where
  "keyHashByID fate kid db =
     (case queryRow fate (sqlSelectKeyHashByID kid) db of
        Inr h \<Rightarrow> Inr h
      | Inl e \<Rightarrow> if isNoRows e then Inl EKeyNotFound else Inl (EStore (readErr e)))"

definition RevokeAPIKey :: "'c cacheLib \<Rightarrow> fates \<Rightarrow> string \<Rightarrow> keyDb \<Rightarrow> 'c keyService \<Rightarrow> svcErr option \<times> keyDb \<times> 'c keyService" where
  "RevokeAPIKey lib fates kid db s =
     (if \<not> svcConnected s then (Some (EStore errStoreUnavailable), db, s)
      else case keyHashByID (fates 0) kid db of
             Inl e \<Rightarrow> (Some e, db, s)
           | Inr h \<Rightarrow>
               (case execStmt (fates 1) (\<lambda>db. Inr (sqlUpdateAPIKeyEnabled False kid db)) db of
                  (Some e, db) \<Rightarrow> (Some (EStore (writeErr e)), db, s)
                | (None, db) \<Rightarrow> (None, db, evictAndFanOut lib \<lparr>invKeyHash = h, invKeyID = kid\<rparr> s)))"

definition DeleteAPIKey :: "'c cacheLib \<Rightarrow> fates \<Rightarrow> string \<Rightarrow> keyDb \<Rightarrow> 'c keyService \<Rightarrow> svcErr option \<times> keyDb \<times> 'c keyService" where
  "DeleteAPIKey lib fates kid db s =
     (if \<not> svcConnected s then (Some (EStore errStoreUnavailable), db, s)
      else case keyHashByID (fates 0) kid db of
             Inl e \<Rightarrow> (Some e, db, s)
           | Inr h \<Rightarrow>
               (case execStmt (fates 1) (\<lambda>db. Inr (sqlDeleteAPIKeyByID kid db)) db of
                  (Some e, db) \<Rightarrow> (Some (EStore (writeErr e)), db, s)
                | (None, db) \<Rightarrow> (None, db, evictAndFanOut lib \<lparr>invKeyHash = h, invKeyID = kid\<rparr> s)))"

record ApiKeyPatch =
  ptModels :: "string list option"
  ptEnabled :: "bool option"
  ptRPS :: "int option"
  ptBurst :: "int option"
  ptTPM :: "int option"
  ptClass :: AIClassPatch

definition patchIsZero :: "ApiKeyPatch \<Rightarrow> bool" where
  "patchIsZero p \<longleftrightarrow> ptModels p = None \<and> ptEnabled p = None \<and> ptRPS p = None \<and> ptBurst p = None \<and> ptTPM p = None \<and> classPatchIsZero (ptClass p)"

definition negative :: "int option \<Rightarrow> bool" where
  "negative v = (case v of None \<Rightarrow> False | Some x \<Rightarrow> x < 0)"

text \<open>The statements of a patch in order, one per field it names.\<close>

definition opt_list :: "('a \<Rightarrow> 'b) \<Rightarrow> 'a option \<Rightarrow> 'b list" where
  "opt_list f v = (case v of None \<Rightarrow> [] | Some x \<Rightarrow> [f x])"

definition patchStmts :: "string \<Rightarrow> ApiKeyPatch \<Rightarrow> string option \<times> string option \<times> string option \<Rightarrow> (keyDb \<Rightarrow> keyDb) list" where
  "patchStmts kid p args =
     opt_list (\<lambda>ms. sqlUpdateAPIKeyAllowedModels (joinList ms) kid) (ptModels p) @
     opt_list (\<lambda>b. sqlUpdateAPIKeyEnabled b kid) (ptEnabled p) @
     opt_list (\<lambda>v. sqlUpdateAPIKeyRPS v kid) (ptRPS p) @
     opt_list (\<lambda>v. sqlUpdateAPIKeyBurst v kid) (ptBurst p) @
     opt_list (\<lambda>v. sqlUpdateAPIKeyTPM v kid) (ptTPM p) @
     (if \<not> classPatchIsZero (ptClass p) then [case args of (pc, def, allowed) \<Rightarrow> sqlPatchKeyClass kid pc def allowed] else [])"

fun runStmts :: "fates \<Rightarrow> nat \<Rightarrow> (keyDb \<Rightarrow> keyDb) list \<Rightarrow> keyDb \<Rightarrow> drvErr + keyDb" where
  "runStmts fates i [] db = Inr db"
| "runStmts fates i (f # fs) db =
     (case execStmt (fates i) (\<lambda>db. Inr (f db)) db of
        (Some e, _) \<Rightarrow> Inl (writeErr e)
      | (None, db) \<Rightarrow> runStmts fates (Suc i) fs db)"

text \<open>
  The environment of a refresh that follows a write: the fates of its statements, the clock, and
  whether the file can be written.
\<close>

record refreshEnv =
  rfFates :: fates
  rfNow :: int
  rfFileOk :: bool

definition refreshAfter :: "refreshEnv \<Rightarrow> keyDb \<Rightarrow> 'c keyService \<Rightarrow> 'c keyService" where
  "refreshAfter r db s = s\<lparr>svcClass := refreshClassesAfterWrite (svcConnected s) (rfFates r) (rfNow r) (rfFileOk r) db (svcClass s)\<rparr>"

definition PatchAPIKeyAll :: "'c cacheLib \<Rightarrow> fates \<Rightarrow> refreshEnv \<Rightarrow> string \<Rightarrow> ApiKeyPatch \<Rightarrow> keyDb \<Rightarrow> 'c keyService \<Rightarrow>
    svcErr option \<times> keyDb \<times> 'c keyService" where
  "PatchAPIKeyAll lib fates renv kid p db s =
     (if patchIsZero p then (None, db, s)
      else if negative (ptRPS p) \<or> negative (ptBurst p) \<or> negative (ptTPM p) then (Some (EValidation ''''), db, s)
      else case classPatchArgs (ptClass p) of
             Inl f \<Rightarrow> (Some (EValidation f), db, s)
           | Inr args \<Rightarrow>
               if \<not> svcConnected s then (Some (EStore errStoreUnavailable), db, s)
               else let stmts = patchStmts kid p args
                    in case inTx EStore (fates 0) (fates (2 + length stmts))
                              (\<lambda>db. case keyHashByID (fates 1) kid db of
                                      Inl e \<Rightarrow> Inl e
                                    | Inr h \<Rightarrow> (case runStmts fates 2 stmts db of Inl e \<Rightarrow> Inl (EStore e) | Inr db' \<Rightarrow> Inr (h, db'))) db of
                         (Inl e, db) \<Rightarrow> (Some e, db, s)
                       | (Inr h, db) \<Rightarrow>
                           let s = evictAndFanOut lib \<lparr>invKeyHash = h, invKeyID = kid\<rparr> s
                           in (None, db, if \<not> classPatchIsZero (ptClass p) then refreshAfter renv db s else s))"

subsection \<open>Creating keys\<close>

record createReq =
  crApiKey :: string
  crTenant :: string
  crName :: string
  crModels :: "string list"
  crRPS :: int
  crBurst :: int
  crTPM :: int
  crExpires :: "int option"
  crEnabled :: bool
  crOpID :: string
  crClass :: AIClassPolicy

record ApiKeyCreated =
  acRawKey :: string
  acKeyID :: string
  acReused :: bool

definition headerChar :: "char \<Rightarrow> bool" where
  "headerChar c = (let n = int (of_char c) in \<not> (n < 33 \<or> n > 126))"

definition validateSuppliedKey :: "string \<Rightarrow> bool" where
  "validateSuppliedKey raw \<longleftrightarrow> \<not> (length raw < 16 \<or> length raw > 512) \<and> list_all headerChar raw"

definition validateClientOpID :: "string \<Rightarrow> bool" where
  "validateClientOpID op \<longleftrightarrow> \<not> length op > 128 \<and> list_all headerChar op"

text \<open>
  The body of the transaction: \<open>Inr (created, rotated, inserted)\<close>. Its statements are the look-up
  of the operation, then either the rotation, or the insertion and the class fields.
\<close>

definition createBody :: "fates \<Rightarrow> int \<Rightarrow> createReq \<Rightarrow> AIClassPolicy \<Rightarrow> string \<Rightarrow> string \<Rightarrow> string \<Rightarrow> keyDb \<Rightarrow>
    svcErr + (ApiKeyCreated \<times> string \<times> bool) \<times> keyDb" where
  "createBody fates now req class kid h returned db =
     (let insertRow = (\<lambda>_. 
            (case execStmt (fates 2) (sqlInsertAPIKey
                    \<lparr>key_id = kid, key_hash = h, tenant_id = crTenant req, key_name = crName req, allowed_models = joinList (crModels req),
                     rate_limit_rps = crRPS req, burst_size = crBurst req, tokens_per_min = crTPM req, created_at = now, expires_at = crExpires req,
                     enabled = crEnabled req, client_op_id = (if crOpID req \<noteq> '''' then Some (crOpID req) else None), first_used_at = None,
                     priority_class = '''', default_objective = '''', allowed_objectives = ''''\<rparr>) db of
               (Some e, _) \<Rightarrow>
                 if isPgError e \<and> (crApiKey req \<noteq> '''' \<and> pgConstraint e = ''uq_api_keys_key_hash'' \<or> pgConstraint e = ''uq_api_keys_client_op'')
                 then Inl EConflict else Inl (EStore (writeErr e))
             | (None, db) \<Rightarrow>
                 if \<not> classIsZero class
                 then (case execStmt (fates 3) (\<lambda>db. Inr (sqlUpdateKeyClass kid (PriorityClass class) (DefaultObjective class)
                               (joinList (AllowedObjectives class)) db)) db of
                         (Some e, _) \<Rightarrow> Inl (EStore (writeErr e))
                       | (None, db) \<Rightarrow> Inr ((\<lparr>acRawKey = returned, acKeyID = kid, acReused = False\<rparr>, '''', True), db))
                 else Inr ((\<lparr>acRawKey = returned, acKeyID = kid, acReused = False\<rparr>, '''', True), db)))
      in if crOpID req \<noteq> ''''
         then (case queryRow (fates 1) (sqlSelectAPIKeyByClientOp (crTenant req) (crOpID req)) db of
                 Inr row \<Rightarrow>
                   if first_used_at row \<noteq> None then Inl (EAlreadyDelivered (key_id row))
                   else (case execStmt (fates 2) (sqlRotateAPIKeyHash h now (key_id row)) db of
                           (Some e, _) \<Rightarrow> Inl (EStore (writeErr e))
                         | (None, db) \<Rightarrow> Inr ((\<lparr>acRawKey = returned, acKeyID = key_id row, acReused = True\<rparr>, key_hash row, False), db))
               | Inl e \<Rightarrow> if isNoRows e then insertRow () else Inl (EStore (readErr e)))
         else insertRow ())"

text \<open>\<open>rndID\<close> and \<open>rndSecret\<close> are the hexadecimal strings of the random bytes, None when they cannot be read.\<close>

definition CreateKey :: "'c cacheLib \<Rightarrow> (string \<Rightarrow> string) \<Rightarrow> fates \<Rightarrow> refreshEnv \<Rightarrow> string option \<Rightarrow> string option \<Rightarrow> int \<Rightarrow> createReq \<Rightarrow>
    keyDb \<Rightarrow> 'c keyService \<Rightarrow> (svcErr + ApiKeyCreated) \<times> keyDb \<times> 'c keyService" where
  "CreateKey lib hashKey fates renv rndID rndSecret now req db s =
     (if \<not> ValidateQoSIdentity (crTenant req) then (Inl (EValidation ''tenant_id''), db, s)
      else case ValidateClassPolicy (crClass req) of
             Inl f \<Rightarrow> (Inl (EValidation f), db, s)
           | Inr class \<Rightarrow>
      if crOpID req \<noteq> '''' \<and> \<not> validateClientOpID (crOpID req) then (Inl (EValidation ''client_op_id''), db, s)
      else if crApiKey req \<noteq> '''' \<and> \<not> validateSuppliedKey (crApiKey req) then (Inl (EValidation ''api_key''), db, s)
      else if \<not> svcConnected s then (Inl (EStore errStoreUnavailable), db, s)
      else case rndID of
             None \<Rightarrow> (Inl ERandom, db, s)
           | Some kid \<Rightarrow>
               (case (if crApiKey req \<noteq> '''' then Some (crApiKey req, '''') else map_option (\<lambda>x. (''lxb_'' @ x, ''lxb_'' @ x)) rndSecret) of
                  None \<Rightarrow> (Inl ERandom, db, s)
                | Some (raw, returned) \<Rightarrow>
                    let h = hashKey raw;
                        s = s\<lparr>svcNegative := forgetNegative h (svcNegative s)\<rparr>
                    in case inTx EStore (fates 0) (fates 4) (createBody fates now req class kid h returned) db of
                         (Inl e, db) \<Rightarrow> (Inl e, db, s)
                       | (Inr (out, rotated, inserted), db) \<Rightarrow>
                           let s = (if rotated \<noteq> '''' \<and> rotated \<noteq> h
                                    then evictAndFanOut lib \<lparr>invKeyHash = rotated, invKeyID = acKeyID out\<rparr> s else s);
                               s = (if inserted \<and> \<not> classIsZero class then refreshAfter renv db s else s)
                           in (Inr out, db, s)))"

subsection \<open>Tenant limits\<close>

definition SetTenantRateLimit :: "'c cacheLib \<Rightarrow> stmtFate \<Rightarrow> refreshEnv \<Rightarrow> int \<Rightarrow> string \<Rightarrow> int \<times> int \<times> int \<Rightarrow> keyDb \<Rightarrow> 'c keyService \<Rightarrow>
    svcErr option \<times> keyDb \<times> 'c keyService" where
  "SetTenantRateLimit lib fate renv now t lim db s =
     (case lim of (lrps, ltpm, lpct) \<Rightarrow>
      if \<not> ValidateQoSIdentity t then (Some (EValidation ''tenant_id''), db, s)
      else if t = '''' then (Some (EValidation ''tenant_id''), db, s)
      else if \<not> svcConnected s then (Some (EStore errStoreUnavailable), db, s)
      else case execStmt fate (\<lambda>db. Inr (sqlUpsertTenantRateLimit t lrps ltpm lpct now db)) db of
             (Some e, db) \<Rightarrow> (Some (EStore (writeErr e)), db, s)
           | (None, db) \<Rightarrow>
               (None, db, refreshAfter renv db (rememberRateLimit lib now (cacheKeyForTenant t) \<lparr>rl_rps = lrps, rl_tpm = ltpm, rl_burst_pct = lpct\<rparr> s)))"

text \<open>The three values, or the store cannot be asked.\<close>

definition svcGetTenantRateLimit :: "'c cacheLib \<Rightarrow> int \<Rightarrow> readEnv \<Rightarrow> string \<Rightarrow> keyDb \<Rightarrow> 'c keyService \<Rightarrow>
    (svcErr + int \<times> int \<times> int) \<times> 'c keyService" where
  "svcGetTenantRateLimit lib now env t db s =
     (let k = cacheKeyForTenant t
      in case cacheGet lib now k (svcCache s) of
           Some (VLimit e) \<Rightarrow> (Inr (rl_rps e, rl_tpm e, rl_burst_pct e), s)
         | _ \<Rightarrow>
             (case guardedRead env (sqlSelectTenantRateLimit t) db s of
                (Inl e, s) \<Rightarrow>
                  if isNoRows e then (Inr (0, 0, 0), rememberRateLimit lib (reFinish env) k noLimit s)
                  else (case lastKnownRateLimit k s of
                          Some x \<Rightarrow> (Inr (rl_rps x, rl_tpm x, rl_burst_pct x), s)
                        | None \<Rightarrow> (Inl (EStore errStoreUnavailable), s))
              | (Inr (r, m, b), s) \<Rightarrow>
                  (Inr (r, m, b), rememberRateLimit lib (reFinish env) k \<lparr>rl_rps = r, rl_tpm = m, rl_burst_pct = b\<rparr> s)))"

definition SetTenantModelRateLimit :: "'c cacheLib \<Rightarrow> stmtFate \<Rightarrow> refreshEnv \<Rightarrow> int \<Rightarrow> string \<Rightarrow> string \<Rightarrow> int \<Rightarrow> keyDb \<Rightarrow> 'c keyService \<Rightarrow>
    svcErr option \<times> keyDb \<times> 'c keyService" where
  "SetTenantModelRateLimit lib fate renv now t m v db s =
     (if \<not> ValidateQoSIdentity t then (Some (EValidation ''tenant_id''), db, s)
      else if \<not> ValidateQoSIdentity m then (Some (EValidation ''model''), db, s)
      else if m = '''' then (Some (EValidation ''model''), db, s)
      else if \<not> svcConnected s then (Some (EStore errStoreUnavailable), db, s)
      else let k = cacheKeyForModel t m
           in if v \<le> 0
              then (case execStmt fate (\<lambda>db. Inr (sqlDeleteTenantModelRateLimit t m db)) db of
                      (Some e, db) \<Rightarrow> (Some (EStore (writeErr e)), db, s)
                    | (None, db) \<Rightarrow>
                        let s = rememberRateLimit lib now k noLimit s
                        in (None, db, refreshAfter renv db (s\<lparr>svcCache := cacheDelete lib k (svcCache s)\<rparr>)))
              else (case execStmt fate (\<lambda>db. Inr (sqlUpsertTenantModelRateLimit t m v now db)) db of
                      (Some e, db) \<Rightarrow> (Some (EStore (writeErr e)), db, s)
                    | (None, db) \<Rightarrow>
                        (None, db, refreshAfter renv db (rememberRateLimit lib now k \<lparr>rl_rps = 0, rl_tpm = v, rl_burst_pct = 0\<rparr> s))))"

definition svcGetTenantModelRateLimit :: "'c cacheLib \<Rightarrow> int \<Rightarrow> readEnv \<Rightarrow> string \<Rightarrow> string \<Rightarrow> keyDb \<Rightarrow> 'c keyService \<Rightarrow>
    (svcErr + int) \<times> 'c keyService" where
  "svcGetTenantModelRateLimit lib now env t m db s =
     (if m = '''' then (Inr 0, s)
      else let k = cacheKeyForModel t m
           in case cacheGet lib now k (svcCache s) of
                Some (VLimit e) \<Rightarrow> (Inr (rl_tpm e), s)
              | _ \<Rightarrow>
                  (case guardedRead env (sqlSelectTenantModelRateLimit t m) db s of
                     (Inl e, s) \<Rightarrow>
                       if \<not> isNoRows e
                       then (case lastKnownRateLimit k s of
                               Some x \<Rightarrow> (Inr (rl_tpm x), s)
                             | None \<Rightarrow> (Inl (EStore errStoreUnavailable), s))
                       else (Inr 0, rememberRateLimit lib (reFinish env) k noLimit s)
                   | (Inr v, s) \<Rightarrow> (Inr v, rememberRateLimit lib (reFinish env) k \<lparr>rl_rps = 0, rl_tpm = v, rl_burst_pct = 0\<rparr> s)))"


text \<open>\<open>SetTenantLimits\<close>: the aggregate row and the model rows in one transaction.\<close>

definition modelStmt :: "int \<Rightarrow> string \<Rightarrow> string \<times> int \<Rightarrow> keyDb \<Rightarrow> keyDb" where
  "modelStmt now t ml = (case ml of (m, v) \<Rightarrow>
     if v \<le> 0 then sqlDeleteTenantModelRateLimit t m else sqlUpsertTenantModelRateLimit t m v now)"

definition rememberModel :: "'c cacheLib \<Rightarrow> int \<Rightarrow> string \<Rightarrow> string \<times> int \<Rightarrow> 'c keyService \<Rightarrow> 'c keyService" where
  "rememberModel lib now t ml s = (case ml of (m, v) \<Rightarrow>
     let k = cacheKeyForModel t m
     in if v \<le> 0 then let s = rememberRateLimit lib now k noLimit s in s\<lparr>svcCache := cacheDelete lib k (svcCache s)\<rparr>
        else rememberRateLimit lib now k \<lparr>rl_rps = 0, rl_tpm = v, rl_burst_pct = 0\<rparr> s)"

definition SetTenantLimits :: "'c cacheLib \<Rightarrow> fates \<Rightarrow> refreshEnv \<Rightarrow> int \<Rightarrow> string \<Rightarrow> int \<times> int \<times> int \<Rightarrow> (string \<times> int) list \<Rightarrow> keyDb \<Rightarrow>
    'c keyService \<Rightarrow> svcErr option \<times> keyDb \<times> 'c keyService" where
  "SetTenantLimits lib fates renv now t lim models db s =
     (case lim of (lrps, ltpm, lpct) \<Rightarrow>
      if \<not> ValidateQoSIdentity t then (Some (EValidation ''tenant_id''), db, s)
      else if t = '''' then (Some (EValidation ''tenant_id''), db, s)
      else if \<not> list_all (\<lambda>(m, v). ValidateQoSIdentity m \<and> m \<noteq> '''') models then (Some (EValidation ''model''), db, s)
      else if \<not> svcConnected s then (Some (EStore errStoreUnavailable), db, s)
      else let stmts = sqlUpsertTenantRateLimit t lrps ltpm lpct now # map (modelStmt now t) models
           in case inTx EStore (fates 0) (fates (1 + length stmts))
                     (\<lambda>db. case runStmts fates 1 stmts db of Inl e \<Rightarrow> Inl (EStore e) | Inr db' \<Rightarrow> Inr ((), db')) db of
                (Inl e, db) \<Rightarrow> (Some e, db, s)
              | (Inr _, db) \<Rightarrow>
                  let s = rememberRateLimit lib now (cacheKeyForTenant t) \<lparr>rl_rps = lrps, rl_tpm = ltpm, rl_burst_pct = lpct\<rparr> s
                  in (None, db, refreshAfter renv db (fold (rememberModel lib now t) models s)))"

section \<open>Lemmas\<close>

lemma cache_lawsD:
  assumes "cache_laws lib"
  shows "cacheGet lib now k (cacheDelete lib k c) = None" "k' \<noteq> k \<Longrightarrow> cacheGet lib now k' (cacheDelete lib k c) = cacheGet lib now k' c"
    "0 < ttl \<Longrightarrow> cacheGet lib now k (cacheSet lib t k v ttl c) = (if now \<le> t + ttl then Some v else None)"
    "k' \<noteq> k \<Longrightarrow> cacheGet lib now k' (cacheSet lib t k v ttl c) = cacheGet lib now k' c"
  using assms unfolding cache_laws_def by blast+

lemma cacheTTL_pos [simp]: "0 < cacheTTL"
  by (simp add: cacheTTL_def)

subsection \<open>Reads\<close>

lemma guardedRead_frame:
  assumes "guardedRead env q db s = (res, s')"
  obtains g where "s' = s\<lparr>svcGuard := g\<rparr>"
  using assms by (auto simp: guardedRead_def Let_def split: prod.splits readAnswer.splits)

lemma guardedRead_Inr: "guardedRead env q db s = (Inr x, s') \<Longrightarrow> q db = Some x"
  by (auto simp: guardedRead_def queryRow_def Let_def split: prod.splits readAnswer.splits stmtFate.splits option.splits)

lemma evict_cache:
  assumes "cache_laws lib" and "invKeyHash ki \<noteq> ''''" and "invKeyID ki \<noteq> ''''"
  shows "cacheGet lib now (cacheKeyForHash (invKeyHash ki)) (svcCache (evictAndFanOut lib ki s)) = None"
    and "cacheGet lib now (cacheKeyForID (invKeyID ki)) (svcCache (evictAndFanOut lib ki s)) = None"
    and "svcLastKnown (evictAndFanOut lib ki s) (cacheKeyForID (invKeyID ki)) = None"
  using assms(2,3) cache_lawsD [OF assms(1)]
  by (simp_all add: evictAndFanOut_def evict_def forgetKeySummary_def Let_def)

subsection \<open>A key that no longer validates\<close>

text \<open>Neither the cache nor the tables hold an enabled entry under the hash, nor an enabled view under the id.\<close>

definition shut :: "'c cacheLib \<Rightarrow> string \<Rightarrow> string \<Rightarrow> keyDb \<Rightarrow> 'c keyService \<Rightarrow> bool" where
  "shut lib h kid db s \<longleftrightarrow>
     (\<forall>r \<in> set (api_keys db). (key_hash r = h \<longrightarrow> \<not> enabled r) \<and> (key_id r = kid \<longrightarrow> \<not> enabled r)) \<and>
     (\<forall>now e. cacheGet lib now (cacheKeyForHash h) (svcCache s) \<noteq> Some (VEntry e)) \<and>
     (\<forall>now k. cacheGet lib now (cacheKeyForID kid) (svcCache s) = Some (VSummary k) \<longrightarrow> \<not> ks_enabled k) \<and>
     (\<forall>k. svcLastKnown s (cacheKeyForID kid) = Some (VSummary k) \<longrightarrow> \<not> ks_enabled k)"

lemma shut_frame:
  "shut lib h kid db s \<Longrightarrow> svcCache s' = svcCache s \<Longrightarrow> svcLastKnown s' = svcLastKnown s \<Longrightarrow> shut lib h kid db s'"
  by (simp add: shut_def)

lemma shut_remember:
  assumes "cache_laws lib" and "shut lib h kid db s" and "i = kid \<Longrightarrow> \<not> ks_enabled k"
  shows "shut lib h kid db (rememberKeySummary lib now i k s)"
  using assms cache_lawsD [OF assms(1)] by (auto simp: shut_def rememberKeySummary_def split: if_splits)

lemma shut_fill:
  assumes "cache_laws lib" and "shut lib h kid db s" and "h' \<noteq> h"
  shows "shut lib h kid db (s\<lparr>svcCache := cacheSet lib now (cacheKeyForHash h') (VEntry e) cacheTTL (svcCache s)\<rparr>)"
  using assms cache_lawsD [OF assms(1)] by (auto simp: shut_def)

lemma shut_validate:
  assumes L: "cache_laws lib" and S: "shut lib h kid db s"
  shows "shut lib h kid db (snd (ValidateAPIKey lib hashKey now env raw db s))"
    and "hashKey raw = h \<Longrightarrow> \<exists>e. fst (ValidateAPIKey lib hashKey now env raw db s) = Inl e"
proof -
  obtain c s1 where C: "validateCached lib now (hashKey raw) s = (c, s1)" by force
  have s1: "svcCache s1 = svcCache s" "svcLastKnown s1 = svcLastKnown s"
    using C by (auto simp: validateCached_def split: option.splits cacheVal.splits prod.splits bool.splits)
  have noentry: "\<exists>e. x = Inl e" if "hashKey raw = h" "c = Some x" for x
    using C S that by (auto simp: validateCached_def shut_def split: option.splits cacheVal.splits prod.splits bool.splits)
  obtain ans s2 where G: "guardedRead env (sqlSelectAPIKeyByHash (hashKey raw)) db s1 = (ans, s2)" by force
  obtain g where s2: "s2 = s1\<lparr>svcGuard := g\<rparr>" using guardedRead_frame [OF G] .
  have S2: "shut lib h kid db s2" using shut_frame [OF S] s1 s2 by simp
  have row: "row \<in> set (api_keys db) \<and> key_hash row = hashKey raw \<and> enabled row" if "ans = Inr row" for row
    using guardedRead_Inr G that by (fastforce simp: sqlSelectAPIKeyByHash_def find_Some_iff)
  have V: "ValidateAPIKey lib hashKey now env raw db s = (case c of Some res \<Rightarrow> (res, s1) | None \<Rightarrow> validateAnswer lib (reFinish env) (hashKey raw) ans s2)"
    by (simp add: ValidateAPIKey_def C G split: option.split)
  have A: "shut lib h kid db (snd (validateAnswer lib (reFinish env) (hashKey raw) ans s2))"
  proof (cases ans)
    case (Inl e)
    then show ?thesis using shut_frame [OF S2] by (simp add: validateAnswer_def)
  next
    case (Inr r)
    have r: "hashKey raw \<noteq> h" "key_id r \<noteq> kid" using row [OF Inr] S by (auto simp: shut_def)
    note F = shut_remember [OF L shut_fill [OF L S2 r(1), of "reFinish env" "entryOfRow r"], of "ke_id (entryOfRow r)" "summaryOfEntry (entryOfRow r)" "reFinish env"]
    then show ?thesis using Inr r(2) shut_frame [OF F] by (auto simp: validateAnswer_def Let_def entryOfRow_def)
  qed
  then show "shut lib h kid db (snd (ValidateAPIKey lib hashKey now env raw db s))"
    using shut_frame [OF S s1] by (simp add: V split: option.split)
  have "\<exists>e. ans = Inl e" if "hashKey raw = h" using row S that by (cases ans) (auto simp: shut_def)
  then show "\<exists>e. fst (ValidateAPIKey lib hashKey now env raw db s) = Inl e" if "hashKey raw = h"
    using that noentry by (cases c) (auto simp: V validateAnswer_def)
qed

lemma shut_get:
  assumes L: "cache_laws lib" and S: "shut lib h kid db s"
  shows "shut lib h kid db (snd (svcGetAPIKeyByID lib now env i db s)) \<and>
    (i = kid \<longrightarrow> fst (svcGetAPIKeyByID lib now env i db s) = Inr k \<longrightarrow> \<not> ks_enabled k)"
proof -
  obtain ans s2 where G: "guardedRead env (sqlSelectAPIKeyByID i) db s = (ans, s2)" by force
  obtain g where s2: "s2 = s\<lparr>svcGuard := g\<rparr>" using guardedRead_frame [OF G] .
  have S2: "shut lib h kid db s2" using shut_frame [OF S] s2 by simp
  have F: "shut lib h kid db (forgetKeySummary i s2)" using S2 by (auto simp: shut_def forgetKeySummary_def)
  have LK: "lastKnownKeySummary kid s2 = Some k \<Longrightarrow> \<not> ks_enabled k" for k
    using S2 by (auto simp: shut_def lastKnownKeySummary_def split: option.splits cacheVal.splits)
  have row: "\<not> ks_enabled (summaryOfRow r)" if "ans = Inr r" "i = kid" for r
    using guardedRead_Inr [OF G [unfolded that(1)]] S that(2)
    by (auto simp: sqlSelectAPIKeyByID_def find_Some_iff shut_def summaryOfRow_def)
  have R: "shut lib h kid db (rememberKeySummary lib (reFinish env) i (summaryOfRow r) s2)" if "ans = Inr r" for r
    using shut_remember [OF L S2, of i "summaryOfRow r"] row [OF that] by blast
  show ?thesis
    using S S2 F R row LK G
    by (auto simp: svcGetAPIKeyByID_def shut_def [of lib h kid db s] split: option.splits cacheVal.splits sum.splits if_splits)
qed

text \<open>Calls of the data path on one content of the tables.\<close>

datatype dpCall = CallValidate int readEnv string | CallGetKey int readEnv string

fun dpStep :: "'c cacheLib \<Rightarrow> (string \<Rightarrow> string) \<Rightarrow> keyDb \<Rightarrow> dpCall \<Rightarrow> 'c keyService \<Rightarrow> 'c keyService" where
  "dpStep lib hashKey db (CallValidate now env raw) s = snd (ValidateAPIKey lib hashKey now env raw db s)"
| "dpStep lib hashKey db (CallGetKey now env kid) s = snd (svcGetAPIKeyByID lib now env kid db s)"

lemma shut_calls: "cache_laws lib \<Longrightarrow> shut lib h kid db s \<Longrightarrow> shut lib h kid db (fold (dpStep lib hashKey db) calls s)"
proof (induction calls arbitrary: s)
  case (Cons c calls)
  have "shut lib h kid db (dpStep lib hashKey db c s)"
    using shut_validate(1) [OF Cons.prems] shut_get [OF Cons.prems] by (cases c) auto
  then show ?case using Cons by simp
qed simp

lemma evict_shut:
  assumes "cache_laws lib" and "h \<noteq> ''''" and "kid \<noteq> ''''"
    and "\<forall>r \<in> set (api_keys db). (key_hash r = h \<longrightarrow> \<not> enabled r) \<and> (key_id r = kid \<longrightarrow> \<not> enabled r)"
  shows "shut lib h kid db (evictAndFanOut lib \<lparr>invKeyHash = h, invKeyID = kid\<rparr> s)"
  using evict_cache [of lib "\<lparr>invKeyHash = h, invKeyID = kid\<rparr>"] assms by (simp add: shut_def)

lemma keyHashByID_row:
  assumes "keyHashByID fate kid db = Inr h"
  shows "\<exists>r \<in> set (api_keys db). key_id r = kid \<and> key_hash r = h"
  using assms by (auto simp: keyHashByID_def queryRow_def sqlSelectKeyHashByID_def find_Some_iff
    split: sum.splits stmtFate.splits option.splits if_splits intro!: bexI [OF _ nth_mem])

lemma db_ok_hash: "db_ok db \<Longrightarrow> r \<in> set (api_keys db) \<Longrightarrow> q \<in> set (api_keys db) \<Longrightarrow> key_hash r = key_hash q \<longleftrightarrow> key_id r = key_id q"
  unfolding db_ok_def distinct_map by (auto dest: inj_onD)

lemma execStmt_ok: "execStmt fate (\<lambda>db. Inr (f db)) db = (None, db') \<Longrightarrow> db' = f db"
  by (auto simp: execStmt_def split: stmtFate.splits)

lemma revoke_shut:
  assumes "cache_laws lib" and "db_ok db" and "kid \<noteq> ''''" and "r \<in> set (api_keys db)" and "key_id r = kid" and "key_hash r \<noteq> ''''"
  shows "RevokeAPIKey lib fates kid db s = (None, db', s') \<Longrightarrow> shut lib (key_hash r) kid db' s'"
    and "DeleteAPIKey lib fates kid db s = (None, db', s') \<Longrightarrow> shut lib (key_hash r) kid db' s'"
proof -
  have same: "h = key_hash r" if "keyHashByID (fates 0) kid db = Inr h" for h
    using keyHashByID_row [OF that] db_ok_hash [OF assms(2)] assms(4,5) by auto
  have other: "key_hash q = key_hash r \<longleftrightarrow> key_id q = kid" if "q \<in> set (api_keys db)" for q
    using db_ok_hash [OF assms(2) that assms(4)] assms(5) by simp
  show "shut lib (key_hash r) kid db' s'" if R: "RevokeAPIKey lib fates kid db s = (None, db', s')"
  proof -
    obtain h where h: "keyHashByID (fates 0) kid db = Inr h" "db' = sqlUpdateAPIKeyEnabled False kid db"
      "s' = evictAndFanOut lib \<lparr>invKeyHash = h, invKeyID = kid\<rparr> s"
      using R by (auto simp: RevokeAPIKey_def dest!: execStmt_ok split: if_splits sum.splits prod.splits option.splits)
    have "\<forall>q \<in> set (api_keys db'). (key_hash q = key_hash r \<longrightarrow> \<not> enabled q) \<and> (key_id q = kid \<longrightarrow> \<not> enabled q)"
      unfolding h(2) using other by (auto simp: sqlUpdateAPIKeyEnabled_def updateKey_def)
    then show ?thesis using evict_shut [OF assms(1,6,3)] h same by simp
  qed
  show "shut lib (key_hash r) kid db' s'" if R: "DeleteAPIKey lib fates kid db s = (None, db', s')"
  proof -
    obtain h where h: "keyHashByID (fates 0) kid db = Inr h" "db' = sqlDeleteAPIKeyByID kid db"
      "s' = evictAndFanOut lib \<lparr>invKeyHash = h, invKeyID = kid\<rparr> s"
      using R by (auto simp: DeleteAPIKey_def dest!: execStmt_ok split: if_splits sum.splits prod.splits option.splits)
    have "\<forall>q \<in> set (api_keys db'). (key_hash q = key_hash r \<longrightarrow> \<not> enabled q) \<and> (key_id q = kid \<longrightarrow> \<not> enabled q)"
      unfolding h(2) using other by (auto simp: sqlDeleteAPIKeyByID_def)
    then show ?thesis using evict_shut [OF assms(1,6,3)] h same by simp
  qed
qed

subsection \<open>Outcomes of writes\<close>

text \<open>
  What the driver promises (pgstore/outcome.go): only a statement that was sent and got no answer may
  have been applied although it failed.
\<close>

definition honest :: "fates \<Rightarrow> bool" where
  "honest fates \<longleftrightarrow> (\<forall>i e. fates i = Fails e True \<longrightarrow> \<not> notSent e \<and> \<not> isPgError e \<and> \<not> isNoRows e \<and> \<not> isDBUnavailable e)"

definition outcomeUnknown :: "svcErr \<Rightarrow> bool" where
  "outcomeUnknown err = (case err of EStore e \<Rightarrow> isOutcomeUnknown e | _ \<Rightarrow> False)"

lemma applied_unknown: "honest fates \<Longrightarrow> fates i = Fails e True \<Longrightarrow> isOutcomeUnknown (writeErr e)"
  by (auto simp: honest_def writeErr_def ClassifyWriteErrFor_def)

lemma execStmt_contract:
  assumes "honest fates" and "execStmt (fates i) f db = (Some e, db')" and "\<not> isOutcomeUnknown (writeErr e)"
  shows "db' = db"
  using assms(2,3) applied_unknown [OF assms(1), of i] by (auto simp: execStmt_def split: sum.splits stmtFate.splits if_splits)

lemma inTx_contract:
  assumes "inTx EStore (fates i) (fates j) body db = (Inl e, db')" and "honest fates" and "\<not> outcomeUnknown e"
  shows "db' = db"
proof (rule ccontr)
  assume "db' \<noteq> db"
  then obtain x d where "fates j = Fails d True" "e = EStore (writeErr d)"
    using assms(1) by (auto simp: inTx_def split: stmtFate.splits sum.splits if_splits)
  then show False using applied_unknown [OF assms(2)] assms(3) by (simp add: outcomeUnknown_def)
qed

lemma inTx_atomic: "inTx w bf cf body db = (r, db') \<Longrightarrow> db' = db \<or> (\<exists>x. body db = Inr (x, db'))"
  by (auto simp: inTx_def split: stmtFate.splits sum.splits if_splits)

lemma runStmts_ok: "runStmts fates i fs db = Inr db' \<Longrightarrow> db' = fold (\<lambda>f. f) fs db"
proof (induction fates i fs db rule: runStmts.induct)
  case (2 fates i f fs db)
  then show ?case by (auto dest!: execStmt_ok split: prod.splits option.splits)
qed simp

subsection \<open>Creating\<close>

text \<open>The row a create leaves.\<close>

definition newKeyRow :: "int \<Rightarrow> createReq \<Rightarrow> AIClassPolicy \<Rightarrow> string \<Rightarrow> string \<Rightarrow> apiKeyRow" where
  "newKeyRow now req class kid h = \<lparr>key_id = kid, key_hash = h, tenant_id = crTenant req, key_name = crName req, allowed_models = joinList (crModels req),
     rate_limit_rps = crRPS req, burst_size = crBurst req, tokens_per_min = crTPM req, created_at = now, expires_at = crExpires req,
     enabled = crEnabled req, client_op_id = Some (crOpID req), first_used_at = None,
     priority_class = PriorityClass class, default_objective = DefaultObjective class, allowed_objectives = joinList (AllowedObjectives class)\<rparr>"

lemma createBody_insert:
  assumes "sqlSelectAPIKeyByClientOp (crTenant req) (crOpID req) db = None" and "crOpID req \<noteq> ''''"
    and "kid \<notin> key_id ` set (api_keys db)" and "h \<notin> key_hash ` set (api_keys db)"
  shows "createBody (\<lambda>_. Answered) now req class kid h ret db =
    Inr ((\<lparr>acRawKey = ret, acKeyID = kid, acReused = False\<rparr>, '''', True), db\<lparr>api_keys := api_keys db @ [newKeyRow now req class kid h]\<rparr>)"
proof -
  have "\<not> list_ex (\<lambda>r. key_id r = kid) (api_keys db)" "\<not> list_ex (\<lambda>r. key_hash r = h) (api_keys db)"
    "\<not> list_ex (\<lambda>r. tenant_id r = crTenant req \<and> client_op_id r = Some (crOpID req)) (api_keys db)"
    using assms(1,3,4) by (auto simp: list_ex_iff sqlSelectAPIKeyByClientOp_def find_None_iff)
  moreover have "map (\<lambda>r. if key_id r = kid then f r else r) (api_keys db) = api_keys db" for f
    using assms(3) by (intro map_idI) auto
  ultimately show ?thesis
    using assms(1,2) by (auto simp: createBody_def queryRow_def errNoRows_def plainErr_def execStmt_def sqlInsertAPIKey_def sqlUpdateKeyClass_def
      updateKey_def classIsZero_def newKeyRow_def joinList_def Let_def)
qed

lemma createBody_rotate:
  assumes "sqlSelectAPIKeyByClientOp (crTenant req) (crOpID req) db = Some row" and "crOpID req \<noteq> ''''" and "first_used_at row = None"
    and "h \<notin> key_hash ` set (api_keys db)"
  shows "createBody (\<lambda>_. Answered) now req class kid h ret db =
    Inr ((\<lparr>acRawKey = ret, acKeyID = key_id row, acReused = True\<rparr>, key_hash row, False),
      updateKey (key_id row) (\<lambda>r. r\<lparr>key_hash := h, created_at := now\<rparr>) db)"
  using assms by (auto simp: createBody_def queryRow_def execStmt_def sqlRotateAPIKeyHash_def list_ex_iff Let_def)

lemma createBody_delivered:
  assumes "sqlSelectAPIKeyByClientOp (crTenant req) (crOpID req) db = Some row" and "crOpID req \<noteq> ''''" and "first_used_at row \<noteq> None"
  shows "createBody (\<lambda>_. Answered) now req class kid h ret db = Inl (EAlreadyDelivered (key_id row))"
  using assms by (simp add: createBody_def queryRow_def Let_def)

text \<open>A request that passes validation and reaches the store, with a minted secret.\<close>

definition createOk :: "createReq \<Rightarrow> AIClassPolicy \<Rightarrow> bool" where
  "createOk req class \<longleftrightarrow> ValidateQoSIdentity (crTenant req) \<and> ValidateClassPolicy (crClass req) = Inr class \<and>
     crOpID req \<noteq> '''' \<and> validateClientOpID (crOpID req) \<and> crApiKey req = ''''"

lemma CreateKey_minted:
  assumes "createOk req class" and "svcConnected s"
  shows "CreateKey lib hashKey fates renv (Some kid) (Some sec) now req db s =
     (let h = hashKey (''lxb_'' @ sec); s = s\<lparr>svcNegative := forgetNegative h (svcNegative s)\<rparr>
      in case inTx EStore (fates 0) (fates 4) (createBody fates now req class kid h (''lxb_'' @ sec)) db of
           (Inl e, db) \<Rightarrow> (Inl e, db, s)
         | (Inr (out, rotated, inserted), db) \<Rightarrow>
             (Inr out, db,
              let s = (if rotated \<noteq> '''' \<and> rotated \<noteq> h then evictAndFanOut lib \<lparr>invKeyHash = rotated, invKeyID = acKeyID out\<rparr> s else s)
              in if inserted \<and> \<not> classIsZero class then refreshAfter renv db s else s))"
  using assms by (auto simp: CreateKey_def createOk_def Let_def split: prod.split sum.split)

lemma inTx_Answered [simp]:
  "inTx w Answered Answered body db = (case body db of Inl e \<Rightarrow> (Inl e, db) | Inr (x, db') \<Rightarrow> (Inr x, db'))"
  by (simp add: inTx_def split: sum.split prod.split)

lemma find_append: "List.find P (xs @ ys) = (case List.find P xs of None \<Rightarrow> List.find P ys | Some x \<Rightarrow> Some x)"
  by (induction xs) auto

lemma updateKey_last:
  "key_id r = kid \<Longrightarrow> kid \<notin> key_id ` set (api_keys db) \<Longrightarrow>
   updateKey kid f (db\<lparr>api_keys := api_keys db @ [r]\<rparr>) = db\<lparr>api_keys := api_keys db @ [f r]\<rparr>"
proof -
  assume "key_id r = kid" "kid \<notin> key_id ` set (api_keys db)"
  moreover from this have "map (\<lambda>x. if key_id x = kid then f x else x) (api_keys db) = api_keys db" by (intro map_idI) (auto simp: image_iff)
  ultimately show ?thesis by (simp add: updateKey_def)
qed

lemma validate_refused:
  assumes "\<forall>e. cacheGet lib now (cacheKeyForHash (hashKey raw)) (svcCache s) \<noteq> Some (VEntry e)"
    and "sqlSelectAPIKeyByHash (hashKey raw) db = None"
  shows "\<exists>e. fst (ValidateAPIKey lib hashKey now env raw db s) = Inl e"
proof -
  have "fst (guardedRead env (sqlSelectAPIKeyByHash (hashKey raw)) db s') \<noteq> Inr row" for s' :: "'a keyService" and row
    using guardedRead_Inr [of env "sqlSelectAPIKeyByHash (hashKey raw)" db s' row] assms(2) by (metis option.distinct(1) prod.collapse)
  then have "\<exists>e. fst (guardedRead env (sqlSelectAPIKeyByHash (hashKey raw)) db s') = Inl e" for s' :: "'a keyService"
    by (metis obj_sumE)
  note G = this
  obtain c s1 where C: "validateCached lib now (hashKey raw) s = (c, s1)" by force
  have "\<exists>e. x = Inl e" if "c = Some x" for x
    using C assms(1) that by (auto simp: validateCached_def split: option.splits cacheVal.splits prod.splits bool.splits)
  moreover obtain e s2 where "guardedRead env (sqlSelectAPIKeyByHash (hashKey raw)) db s1 = (Inl e, s2)"
    using G [of s1] by (metis prod.collapse)
  ultimately show ?thesis by (cases c) (auto simp: ValidateAPIKey_def C validateAnswer_def)
qed

lemma guardedRead_closed:
  assumes "svcConnected s" and "state (svcGuard s) = circuitClosed" and "reFree env" and "reFate env = Answered" and "q db = Some x"
  shows "fst (guardedRead env q db s) = Inr x"
  using assms by (simp add: guardedRead_def queryRow_def dataPathRead_def admit_def guardPass_def takeSlot_def Let_def)

lemma validate_found:
  assumes "cacheGet lib now (cacheKeyForHash (hashKey raw)) (svcCache s) = None" and "negEntries (svcNegative s) (hashKey raw) = None"
    and "svcConnected s" and "state (svcGuard s) = circuitClosed" and "reFree env" and "reFate env = Answered"
    and "sqlSelectAPIKeyByHash (hashKey raw) db = Some row"
  shows "fst (ValidateAPIKey lib hashKey now env raw db s) = Inr (entryOfRow row)"
proof -
  have C: "validateCached lib now (hashKey raw) s = (None, s)" using assms(1,2) by (simp add: validateCached_def negativeHit_def)
  obtain ans s' where G: "guardedRead env (sqlSelectAPIKeyByHash (hashKey raw)) db s = (ans, s')" by force
  have "ans = Inr row" using guardedRead_closed [OF assms(3-6), of "sqlSelectAPIKeyByHash (hashKey raw)" db row] assms(7) G by simp
  then show ?thesis by (simp add: ValidateAPIKey_def C G validateAnswer_def Let_def)
qed

lemma evict_frame:
  "svcConnected (evictAndFanOut lib ki s) = svcConnected s" "svcGuard (evictAndFanOut lib ki s) = svcGuard s"
  "svcClass (evictAndFanOut lib ki s) = svcClass s"
  "negEntries (svcNegative s) h = None \<Longrightarrow> negEntries (svcNegative (evictAndFanOut lib ki s)) h = None"
  by (simp_all add: evictAndFanOut_def evict_def forgetKeySummary_def forgetNegative_def negDrop_get Let_def)

lemma evict_other:
  assumes "cache_laws lib" and "k \<noteq> cacheKeyForHash (invKeyHash ki)" and "k \<noteq> cacheKeyForID (invKeyID ki)"
  shows "cacheGet lib now k (svcCache (evictAndFanOut lib ki s)) = cacheGet lib now k (svcCache s)"
    and "svcLastKnown (evictAndFanOut lib ki s) k = svcLastKnown s k"
  using assms(2,3) cache_lawsD [OF assms(1)] by (simp_all add: evictAndFanOut_def evict_def forgetKeySummary_def Let_def)

subsection \<open>Limits while the store is away\<close>

text \<open>Calls on the service, each with the tables as they are then.\<close>

datatype limitCall =
    GetLimit int readEnv string keyDb
  | SetLimit stmtFate refreshEnv int string "int \<times> int \<times> int" keyDb
  | GetModel int readEnv string string keyDb
  | SetModel stmtFate refreshEnv int string string int keyDb
  | KeyCall dpCall keyDb
  | Revoke fates string keyDb

fun limitStep :: "'c cacheLib \<Rightarrow> (string \<Rightarrow> string) \<Rightarrow> limitCall \<Rightarrow> 'c keyService \<Rightarrow> 'c keyService" where
  "limitStep lib hashKey (GetLimit now env t db) s = snd (svcGetTenantRateLimit lib now env t db s)"
| "limitStep lib hashKey (SetLimit fate renv now t lim db) s = snd (snd (SetTenantRateLimit lib fate renv now t lim db s))"
| "limitStep lib hashKey (GetModel now env t m db) s = snd (svcGetTenantModelRateLimit lib now env t m db s)"
| "limitStep lib hashKey (SetModel fate renv now t m v db) s = snd (snd (SetTenantModelRateLimit lib fate renv now t m v db s))"
| "limitStep lib hashKey (KeyCall c db) s = dpStep lib hashKey db c s"
| "limitStep lib hashKey (Revoke fates kid db) s = snd (snd (RevokeAPIKey lib fates kid db s))"

text \<open>What the store confirms about a limit in a call: the row it answered a miss with, or the value it accepted.\<close>

definition cachedLimit :: "'c cacheLib \<Rightarrow> int \<Rightarrow> string \<Rightarrow> 'c keyService \<Rightarrow> bool" where
  "cachedLimit lib now k s = (case cacheGet lib now k (svcCache s) of Some (VLimit _) \<Rightarrow> True | _ \<Rightarrow> False)"

fun confirms :: "'c cacheLib \<Rightarrow> limitCall \<Rightarrow> 'c keyService \<Rightarrow> (string \<times> rateLimitCacheEntry) list" where
  "confirms lib (GetLimit now env t db) s =
     (if cachedLimit lib now (cacheKeyForTenant t) s then []
      else case fst (guardedRead env (sqlSelectTenantRateLimit t) db s) of
             Inr (r, m, b) \<Rightarrow> [(cacheKeyForTenant t, \<lparr>rl_rps = r, rl_tpm = m, rl_burst_pct = b\<rparr>)]
           | Inl e \<Rightarrow> if isNoRows e then [(cacheKeyForTenant t, noLimit)] else [])"
| "confirms lib (SetLimit fate renv now t lim db) s =
     (case (lim, SetTenantRateLimit lib fate renv now t lim db s) of
        ((a, b, c), (None, _)) \<Rightarrow> [(cacheKeyForTenant t, \<lparr>rl_rps = a, rl_tpm = b, rl_burst_pct = c\<rparr>)]
      | _ \<Rightarrow> [])"
| "confirms lib (GetModel now env t m db) s =
     (if m = '''' \<or> cachedLimit lib now (cacheKeyForModel t m) s then []
      else case fst (guardedRead env (sqlSelectTenantModelRateLimit t m) db s) of
             Inr v \<Rightarrow> [(cacheKeyForModel t m, \<lparr>rl_rps = 0, rl_tpm = v, rl_burst_pct = 0\<rparr>)]
           | Inl e \<Rightarrow> if isNoRows e then [(cacheKeyForModel t m, noLimit)] else [])"
| "confirms lib (SetModel fate renv now t m v db) s =
     (case SetTenantModelRateLimit lib fate renv now t m v db s of
        (None, _) \<Rightarrow> [(cacheKeyForModel t m, if v \<le> 0 then noLimit else \<lparr>rl_rps = 0, rl_tpm = v, rl_burst_pct = 0\<rparr>)]
      | _ \<Rightarrow> [])"
| "confirms lib _ s = []"

text \<open>The service after some calls, and what was confirmed in them, the latest first.\<close>

definition limitRun :: "'c cacheLib \<Rightarrow> (string \<Rightarrow> string) \<Rightarrow> limitCall list \<Rightarrow> 'c keyService \<Rightarrow> 'c keyService \<times> (string \<times> rateLimitCacheEntry) list" where
  "limitRun lib hashKey calls s = fold (\<lambda>call (s, hist). (limitStep lib hashKey call s, confirms lib call s @ hist)) calls (s, [])"

definition limitKey :: "string \<Rightarrow> bool" where
  "limitKey k \<longleftrightarrow> (\<exists>t. k = cacheKeyForTenant t) \<or> (\<exists>t m. k = cacheKeyForModel t m)"

definition known_inv :: "'c cacheLib \<Rightarrow> 'c keyService \<Rightarrow> (string \<times> rateLimitCacheEntry) list \<Rightarrow> bool" where
  "known_inv lib s hist \<longleftrightarrow> csLkgLimits (svcClass s) = None \<and>
     (\<forall>k. limitKey k \<longrightarrow> svcLastKnown s k = map_option VLimit (map_of hist k)) \<and>
     (\<forall>k now v. limitKey k \<longrightarrow> cacheGet lib now k (svcCache s) = Some v \<longrightarrow> svcLastKnown s k = Some v)"

lemma limitKey_intros [simp]:
  "limitKey (cacheKeyForTenant t)" "limitKey (cacheKeyForModel t m)" "\<not> limitKey (cacheKeyForHash h)" "\<not> limitKey (cacheKeyForID i)"
  by (auto simp: limitKey_def)

lemma limitKey_neq: "limitKey k \<Longrightarrow> k \<noteq> cacheKeyForHash h \<and> k \<noteq> cacheKeyForID i"
  by (auto simp: limitKey_def)

lemma known_frame:
  assumes "known_inv lib s hist" and "csLkgLimits (svcClass s') = None"
    and "\<And>k. limitKey k \<Longrightarrow> svcLastKnown s' k = svcLastKnown s k"
    and "\<And>k now v. limitKey k \<Longrightarrow> cacheGet lib now k (svcCache s') = Some v \<Longrightarrow> cacheGet lib now k (svcCache s) = Some v"
  shows "known_inv lib s' hist"
  using assms unfolding known_inv_def by metis

lemma known_remember:
  assumes "cache_laws lib" and "known_inv lib s hist" and "limitKey k"
  shows "known_inv lib (rememberRateLimit lib now k e s) ((k, e) # hist)"
  using assms cache_lawsD [OF assms(1)] by (auto simp: known_inv_def rememberRateLimit_def split: if_splits)

lemma refresh_keeps_lkg: "csLkgLimits c = None \<Longrightarrow> csLkgLimits (refreshClassesAfterWrite b f now ok db c) = None"
  by (auto simp: refreshClassesAfterWrite_def RefreshClasses_def refreshClasses_def publishClasses_def Let_def
    split: sum.splits if_splits prod.splits option.splits bool.splits)

lemma known_refresh: "known_inv lib s hist \<Longrightarrow> known_inv lib (refreshAfter renv db s) hist"
  by (rule known_frame, assumption) (auto simp: refreshAfter_def refresh_keeps_lkg known_inv_def)

lemma known_guard: "known_inv lib s hist \<Longrightarrow> known_inv lib (s\<lparr>svcGuard := g\<rparr>) hist"
  by (rule known_frame, assumption) (auto simp: known_inv_def)

lemma known_summary:
  assumes "cache_laws lib" and "known_inv lib s hist"
  shows "known_inv lib (rememberKeySummary lib now kid k s) hist" and "known_inv lib (forgetKeySummary kid s) hist"
    and "known_inv lib (s\<lparr>svcCache := cacheSet lib now (cacheKeyForHash h) e cacheTTL (svcCache s)\<rparr>) hist"
proof -
  note C = cache_lawsD(4) [OF assms(1)] and N = limitKey_neq
  have "csLkgLimits (svcClass s) = None" using assms(2) by (simp add: known_inv_def)
  then show "known_inv lib (rememberKeySummary lib now kid k s) hist" "known_inv lib (forgetKeySummary kid s) hist"
    "known_inv lib (s\<lparr>svcCache := cacheSet lib now (cacheKeyForHash h) e cacheTTL (svcCache s)\<rparr>) hist"
    by (rule_tac known_frame [OF assms(2)]; simp add: rememberKeySummary_def forgetKeySummary_def C N)+
qed

lemma known_evict:
  assumes "cache_laws lib" and "known_inv lib s hist"
  shows "known_inv lib (evictAndFanOut lib ki s) hist"
proof (rule known_frame [OF assms(2)])
  show "csLkgLimits (svcClass (evictAndFanOut lib ki s)) = None" using assms(2) by (simp add: evict_frame known_inv_def)
qed (use evict_other [OF assms(1), of _ ki] limitKey_neq in auto)

lemma known_delete:
  assumes "cache_laws lib" and "known_inv lib s hist"
  shows "known_inv lib (s\<lparr>svcCache := cacheDelete lib k (svcCache s)\<rparr>) hist"
proof (rule known_frame [OF assms(2)])
  show "cacheGet lib now k' (svcCache s) = Some v" if "cacheGet lib now k' (svcCache (s\<lparr>svcCache := cacheDelete lib k (svcCache s)\<rparr>)) = Some v" for k' now v
    using that cache_lawsD(1,2) [OF assms(1)] by (cases "k' = k") auto
qed (use assms(2) in \<open>auto simp: known_inv_def\<close>)

lemma known_negative: "known_inv lib s hist \<Longrightarrow> known_inv lib (s\<lparr>svcNegative := n\<rparr>) hist"
  and known_marks: "known_inv lib s hist \<Longrightarrow> known_inv lib (s\<lparr>svcMarks := ms\<rparr>) hist"
  by (auto simp: known_inv_def)

lemma known_key_calls:
  assumes L: "cache_laws lib" and I: "known_inv lib s hist"
  shows "known_inv lib (dpStep lib hashKey db c s) hist"
proof (cases c)
  case (CallValidate now env raw)
  obtain r s1 where C: "validateCached lib now (hashKey raw) s = (r, s1)" by force
  have I1: "known_inv lib s1 hist"
    using C I known_negative [OF I] by (auto simp: validateCached_def split: option.splits cacheVal.splits prod.splits bool.splits)
  obtain ans s2 where G: "guardedRead env (sqlSelectAPIKeyByHash (hashKey raw)) db s1 = (ans, s2)" by force
  have I2: "known_inv lib s2 hist" using guardedRead_frame [OF G] known_guard [OF I1] by metis
  have "known_inv lib (snd (validateAnswer lib (reFinish env) (hashKey raw) ans s2)) hist"
    using I2 known_negative [OF I2] by (auto simp: validateAnswer_def Let_def intro!: known_marks known_summary [OF L] split: sum.split)
  then show ?thesis using CallValidate I1 by (simp add: ValidateAPIKey_def C G split: option.split)
next
  case (CallGetKey now env kid)
  obtain ans s2 where G: "guardedRead env (sqlSelectAPIKeyByID kid) db s = (ans, s2)" by force
  have "known_inv lib s2 hist" using guardedRead_frame [OF G] known_guard [OF I] by metis
  then show ?thesis
    using CallGetKey I by (auto simp: svcGetAPIKeyByID_def G intro!: known_summary [OF L] split: option.splits cacheVal.splits sum.splits)
qed

lemma known_limit_reads:
  assumes L: "cache_laws lib" and I: "known_inv lib s hist"
  shows "known_inv lib (snd (svcGetTenantRateLimit lib now env t db s)) (confirms lib (GetLimit now env t db) s @ hist)"
    and "known_inv lib (snd (svcGetTenantModelRateLimit lib now env t m db s)) (confirms lib (GetModel now env t m db) s @ hist)"
proof -
  obtain ans s2 where G: "guardedRead env (sqlSelectTenantRateLimit t) db s = (ans, s2)" by force
  have "known_inv lib s2 hist" using guardedRead_frame [OF G] known_guard [OF I] by metis
  then show "known_inv lib (snd (svcGetTenantRateLimit lib now env t db s)) (confirms lib (GetLimit now env t db) s @ hist)"
    using I by (auto simp: svcGetTenantRateLimit_def cachedLimit_def G Let_def intro!: known_remember [OF L] split: option.splits cacheVal.splits sum.splits)
  obtain ans s2 where G: "guardedRead env (sqlSelectTenantModelRateLimit t m) db s = (ans, s2)" by force
  have "known_inv lib s2 hist" using guardedRead_frame [OF G] known_guard [OF I] by metis
  then show "known_inv lib (snd (svcGetTenantModelRateLimit lib now env t m db s)) (confirms lib (GetModel now env t m db) s @ hist)"
    using I by (auto simp: svcGetTenantModelRateLimit_def cachedLimit_def G Let_def intro!: known_remember [OF L] split: option.splits cacheVal.splits sum.splits)
qed

lemma known_step:
  assumes L: "cache_laws lib" and I: "known_inv lib s hist"
  shows "known_inv lib (limitStep lib hashKey call s) (confirms lib call s @ hist)"
proof (cases call)
  case (GetLimit now env t db)
  then show ?thesis using known_limit_reads(1) [OF L I] by simp
next
  case (GetModel now env t m db)
  then show ?thesis using known_limit_reads(2) [OF L I] by simp
next
  case (SetLimit fate renv now t lim db)
  show ?thesis unfolding SetLimit using I
    by (auto simp: SetTenantRateLimit_def intro!: known_refresh known_remember [OF L] split: prod.splits option.splits if_splits)
next
  case (SetModel fate renv now t m v db)
  show ?thesis unfolding SetModel using I
    by (auto simp: SetTenantModelRateLimit_def Let_def intro!: known_refresh known_delete [OF L] known_remember [OF L] split: prod.splits option.splits if_splits)
next
  case (KeyCall c db)
  then show ?thesis using known_key_calls [OF L I] by simp
next
  case (Revoke fates kid db)
  then show ?thesis using known_evict [OF L I] I
    by (auto simp: RevokeAPIKey_def split: if_splits sum.splits prod.splits option.splits)
qed

lemma known_run:
  assumes L: "cache_laws lib" and "known_inv lib s hist"
  shows "case fold (\<lambda>call (s, hist). (limitStep lib hashKey call s, confirms lib call s @ hist)) calls (s, hist) of (s', hist') \<Rightarrow> known_inv lib s' hist'"
  using assms(2)
proof (induction calls arbitrary: s hist)
  case (Cons c calls)
  then show ?case using known_step [OF L] by simp
qed simp

lemma guardedRead_fails:
  assumes "reFate env = Fails e ap" and "\<not> isNoRows e"
  obtains e' g where "guardedRead env q db s = (Inl e', s\<lparr>svcGuard := g\<rparr>)" and "\<not> isNoRows e'"
proof -
  obtain a g where D: "dataPathRead (svcConnected s) (reStart env) (reFinish env) (reFree env) (reDone env) (stmtErrOf (Inl e :: drvErr + 'a)) (svcGuard s) = (a, g)"
    by force
  show ?thesis
    using that [of "case a of ReadUnavailable \<Rightarrow> errStoreUnavailable | ReadStmt _ \<Rightarrow> e" g] assms D
    by (cases a) (simp_all add: guardedRead_def queryRow_def errStoreUnavailable_def plainErr_def)
qed

section \<open>Properties\<close>

text \<open>A cache and tables for the examples: a map with expiry times, and SHA-256 replaced by a tag.\<close>

definition exCache :: "(string \<rightharpoonup> cacheVal \<times> int) cacheLib" where
  "exCache = \<lparr>cacheGet = (\<lambda>now k c. case c k of None \<Rightarrow> None | Some (v, t) \<Rightarrow> if now \<le> t then Some v else None),
     cacheSet = (\<lambda>now k v ttl c. c(k \<mapsto> (v, now + ttl))), cacheDelete = (\<lambda>k c. c(k := None))\<rparr>"

lemma exCache_laws: "cache_laws exCache"
  by (simp add: cache_laws_def exCache_def)

definition exHash :: "string \<Rightarrow> string" where "exHash raw = ''h'' @ raw"

definition exKeyRow :: apiKeyRow where
  "exKeyRow = \<lparr>key_id = ''k1'', key_hash = ''hsecret'', tenant_id = ''acme'', key_name = '''', allowed_models = ''a,b'', rate_limit_rps = 5,
     burst_size = 0, tokens_per_min = 0, created_at = 0, expires_at = None, enabled = True, client_op_id = Some ''op'', first_used_at = None,
     priority_class = '''', default_objective = '''', allowed_objectives = ''''\<rparr>"

definition exKeyDb :: keyDb where "exKeyDb = exDb\<lparr>api_keys := [exKeyRow]\<rparr>"

definition exService :: "(string \<rightharpoonup> cacheVal \<times> int) keyService" where
  "exService = \<lparr>svcConnected = True, svcCache = Map.empty, svcLastKnown = Map.empty, svcGuard = newGuard exCfg, svcNegative = emptyNegative,
     svcClass = newClassState '''' LkgMissing, svcSink = True, svcSent = [], svcMarks = []\<rparr>"

definition exRead :: readEnv where
  "exRead = \<lparr>reStart = 0, reFinish = 1, reFree = True, reDone = False, reFate = Answered\<rparr>"



text \<open>
  C30. The window left open by a revocation. \<open>evictAndFanOut\<close> removes what is cached at that moment,
  but a validation that read its row just before the revocation fills the cache just after it. From
  then on the revoked key validates on the very gateway that revoked it, until the cached entry
  expires after five minutes; the same answer by id says the key is enabled.
\<close>

theorem revocation_refilled:
  assumes "cache_laws lib" and "r \<in> set (api_keys db)" and "enabled r" and "key_hash r = hashKey raw" and "db_ok db"
    and miss: "validateCached lib now (hashKey raw) s = (None, s1)"
    and read: "guardedRead env (sqlSelectAPIKeyByHash (hashKey raw)) db s1 = (Inr row, s2)"
    and revoke: "RevokeAPIKey lib fates (key_id r) db s2 = (None, db', s3)"
    and fill: "validateAnswer lib (reFinish env) (hashKey raw) (Inr row) s3 = (res, s4)"
    and "later \<le> reFinish env + cacheTTL"
  shows "fst (ValidateAPIKey lib hashKey later env' raw db' s4) = Inr (entryOfRow r) \<and>
         fst (svcGetAPIKeyByID lib later env' (key_id r) db' s4) = Inr (summaryOfEntry (entryOfRow r)) \<and>
         (\<forall>q \<in> set (api_keys db'). key_id q = key_id r \<longrightarrow> \<not> enabled q)"
proof -
  have "row \<in> set (api_keys db)" "key_hash row = hashKey raw"
    using guardedRead_Inr [OF read] by (auto simp: sqlSelectAPIKeyByHash_def find_Some_iff)
  then have "row = r" using assms(2,4,5) inj_onD [of key_hash "set (api_keys db)" row r] by (simp add: db_ok_def distinct_map)
  then have "cacheGet lib later (cacheKeyForHash (hashKey raw)) (svcCache s4) = Some (VEntry (entryOfRow r))"
    "cacheGet lib later (cacheKeyForID (key_id r)) (svcCache s4) = Some (VSummary (summaryOfEntry (entryOfRow r)))"
    using fill assms(10) cache_lawsD [OF assms(1)]
    by (auto simp: validateAnswer_def rememberKeySummary_def Let_def entryOfRow_def split: if_splits)
  moreover have "db' = sqlUpdateAPIKeyEnabled False (key_id r) db"
    using revoke by (auto simp: RevokeAPIKey_def dest!: execStmt_ok split: if_splits sum.splits prod.splits option.splits)
  ultimately show ?thesis
    by (auto simp: ValidateAPIKey_def validateCached_def svcGetAPIKeyByID_def sqlUpdateAPIKeyEnabled_def updateKey_def)
qed

theorem revocation_refilled_witness:
  "\<exists>s2 db' s3 s4. snd (guardedRead exRead (sqlSelectAPIKeyByHash (exHash ''secret'')) exKeyDb exService) = s2 \<and>
     RevokeAPIKey exCache (\<lambda>_. Answered) ''k1'' exKeyDb s2 = (None, db', s3) \<and>
     snd (validateAnswer exCache 1 (exHash ''secret'') (Inr exKeyRow) s3) = s4 \<and>
     fst (ValidateAPIKey exCache exHash 99 exRead ''secret'' db' s4) = Inr (entryOfRow exKeyRow)"
proof -
  have D: "exKeyRow \<in> set (api_keys exKeyDb)" "enabled exKeyRow" "key_hash exKeyRow = exHash ''secret''" "db_ok exKeyDb" "key_id exKeyRow = ''k1''"
    by (simp_all add: db_ok_def exKeyDb_def exDb_def exKeyRow_def exHash_def)
  have miss: "validateCached exCache 0 (exHash ''secret'') exService = (None, exService)"
    by (simp add: validateCached_def exService_def exCache_def negativeHit_def newGuard_def exCfg_def emptyNegative_def)
  obtain s2 where read: "guardedRead exRead (sqlSelectAPIKeyByHash (exHash ''secret'')) exKeyDb exService = (Inr exKeyRow, s2)" and "svcConnected s2"
    by (simp add: guardedRead_def exRead_def exService_def queryRow_def sqlSelectAPIKeyByHash_def exKeyDb_def exDb_def exKeyRow_def exHash_def
      dataPathRead_def admit_def guardPass_def newGuard_def takeSlot_def Let_def)
  then obtain db' s3 where R: "RevokeAPIKey exCache (\<lambda>_. Answered) ''k1'' exKeyDb s2 = (None, db', s3)"
    by (simp add: RevokeAPIKey_def keyHashByID_def queryRow_def sqlSelectKeyHashByID_def exKeyDb_def exDb_def exKeyRow_def execStmt_def)
  obtain res s4 where F: "validateAnswer exCache (reFinish exRead) (exHash ''secret'') (Inr exKeyRow) s3 = (res, s4)" by force
  have "(99::int) \<le> reFinish exRead + cacheTTL" by (simp add: exRead_def cacheTTL_def)
  from revocation_refilled [of exCache exKeyRow exKeyDb exHash "''secret''" 0 exService exService exRead exKeyRow s2 "\<lambda>_. Answered" db' s3 res s4 99 exRead,
      OF exCache_laws D(1-4) miss read R [folded D(5)] F this]
  show ?thesis using read R F by (auto simp: exRead_def)
qed

text \<open>
  C16. A create that carries an operation id converges. The first request makes the row; its answer
  may be lost. The same request sent again, to this or to any other gateway and with a new secret,
  answers with the same key id and says the row is reused; on the gateway that answered it the
  first secret no longer validates and the new one does, as the key that was asked for. Once a use
  of the key has been recorded, a further retry is refused with the key id and changes nothing.
\<close>

theorem create_retry_converges:
  assumes L: "cache_laws lib" and req: "createOk req class" "crEnabled req" and conn: "svcConnected s" "svcConnected t"
    and fresh: "sqlSelectAPIKeyByClientOp (crTenant req) (crOpID req) db = None" "kid \<notin> key_id ` set (api_keys db)" "kid \<noteq> ''''"
      "hashKey (''lxb_'' @ sec1) \<notin> key_hash ` set (api_keys db)" "hashKey (''lxb_'' @ sec2) \<notin> key_hash ` set (api_keys db)"
      "hashKey (''lxb_'' @ sec1) \<noteq> hashKey (''lxb_'' @ sec2)" "hashKey (''lxb_'' @ sec1) \<noteq> ''''"
    and first: "CreateKey lib hashKey (\<lambda>_. Answered) renv (Some kid) (Some sec1) now1 req db s = (r1, db1, s1)"
    and second: "CreateKey lib hashKey (\<lambda>_. Answered) renv (Some kid2) (Some sec2) now2 req db1 t = (r2, db2, t2)"
  shows "r1 = Inr \<lparr>acRawKey = ''lxb_'' @ sec1, acKeyID = kid, acReused = False\<rparr> \<and>
     r2 = Inr \<lparr>acRawKey = ''lxb_'' @ sec2, acKeyID = kid, acReused = True\<rparr> \<and>
     (\<exists>e. fst (ValidateAPIKey lib hashKey now env (''lxb_'' @ sec1) db2 t2) = Inl e) \<and>
     (state (svcGuard t) = circuitClosed \<and> reFree env \<and> reFate env = Answered \<and>
      cacheGet lib now (cacheKeyForHash (hashKey (''lxb_'' @ sec2))) (svcCache t) = None \<longrightarrow>
        fst (ValidateAPIKey lib hashKey now env (''lxb_'' @ sec2) db2 t2) =
          Inr (entryOfRow (newKeyRow now2 req class kid (hashKey (''lxb_'' @ sec2))))) \<and>
     fst (CreateKey lib hashKey (\<lambda>_. Answered) renv (Some kid3) (Some sec3) now3 req (markFirstUse Answered used kid db1 s) t)
       = Inl (EAlreadyDelivered kid) \<and>
     fst (snd (CreateKey lib hashKey (\<lambda>_. Answered) renv (Some kid3) (Some sec3) now3 req (markFirstUse Answered used kid db1 s) t))
       = markFirstUse Answered used kid db1 s"
proof -
  let ?h1 = "hashKey (''lxb_'' @ sec1)" and ?h2 = "hashKey (''lxb_'' @ sec2)"
  let ?row = "newKeyRow now1 req class kid ?h1"
  let ?row2 = "newKeyRow now2 req class kid ?h2"
  have op: "crOpID req \<noteq> ''''" using req(1) by (simp add: createOk_def)
  have one: "r1 = Inr \<lparr>acRawKey = ''lxb_'' @ sec1, acKeyID = kid, acReused = False\<rparr>" "db1 = db\<lparr>api_keys := api_keys db @ [?row]\<rparr>"
    using first createBody_insert [OF fresh(1) op fresh(2,4), of now1 "class"] by (simp_all add: CreateKey_minted [OF req(1) conn(1)] Let_def)
  have rowf: "tenant_id ?row = crTenant req" "client_op_id ?row = Some (crOpID req)" "first_used_at ?row = None" "key_id ?row = kid"
    "key_hash ?row = ?h1" "enabled ?row" using req(2) by (simp_all add: newKeyRow_def)
  have find1: "sqlSelectAPIKeyByClientOp (crTenant req) (crOpID req) (db\<lparr>api_keys := api_keys db @ [r]\<rparr>) = Some r"
    if "tenant_id r = crTenant req" "client_op_id r = Some (crOpID req)" for r
    using fresh(1) that by (simp add: sqlSelectAPIKeyByClientOp_def find_append)
  have "?h2 \<notin> key_hash ` set (api_keys db1)" using fresh(5,6) rowf by (simp add: one)
  note B = createBody_rotate [OF find1 [OF rowf(1,2), folded one(2)] op rowf(3) this]
  have up: "updateKey kid (\<lambda>r. r\<lparr>key_hash := ?h2, created_at := now2\<rparr>) db1 = db\<lparr>api_keys := api_keys db @ [?row2]\<rparr>"
    using updateKey_last [OF rowf(4) fresh(2)] by (simp add: one newKeyRow_def)
  have two: "r2 = Inr \<lparr>acRawKey = ''lxb_'' @ sec2, acKeyID = kid, acReused = True\<rparr>" "db2 = db\<lparr>api_keys := api_keys db @ [?row2]\<rparr>"
    "t2 = evictAndFanOut lib \<lparr>invKeyHash = ?h1, invKeyID = kid\<rparr> (t\<lparr>svcNegative := forgetNegative ?h2 (svcNegative t)\<rparr>)"
    using second B [of now2 "class" kid2 "''lxb_'' @ sec2"] up fresh(6,7) rowf by (simp_all add: CreateKey_minted [OF req(1) conn(2)] Let_def)
  have "sqlSelectAPIKeyByHash ?h1 db2 = None"
    using fresh(4,6) by (auto simp: two sqlSelectAPIKeyByHash_def find_None_iff newKeyRow_def image_iff)
  with evict_cache(1) [OF L, of "\<lparr>invKeyHash = ?h1, invKeyID = kid\<rparr>"] fresh(3,7)
  have old: "\<exists>e. fst (ValidateAPIKey lib hashKey now env (''lxb_'' @ sec1) db2 t2) = Inl e" by (intro validate_refused) (simp_all add: two)
  have sel: "sqlSelectAPIKeyByHash ?h2 db2 = Some ?row2"
  proof -
    have "List.find (\<lambda>r. key_hash r = ?h2 \<and> enabled r) (api_keys db) = None" using fresh(5) by (auto simp: find_None_iff image_iff)
    then show ?thesis using req(2) by (simp add: two sqlSelectAPIKeyByHash_def find_append newKeyRow_def)
  qed
  have new: "fst (ValidateAPIKey lib hashKey now env (''lxb_'' @ sec2) db2 t2) = Inr (entryOfRow ?row2)"
    if "state (svcGuard t) = circuitClosed" "reFree env" "reFate env = Answered" "cacheGet lib now (cacheKeyForHash ?h2) (svcCache t) = None"
  proof (rule validate_found [where hashKey = hashKey and raw = "''lxb_'' @ sec2", OF _ _ _ _ that(2,3) sel])
    show "cacheGet lib now (cacheKeyForHash ?h2) (svcCache t2) = None"
      unfolding two(3) using that(4) fresh(6) by (subst evict_other(1) [OF L]) auto
    show "negEntries (svcNegative t2) ?h2 = None" unfolding two(3) by (rule evict_frame(4)) (simp add: forgetNegative_def negDrop_get)
    show "svcConnected t2" "state (svcGuard t2) = circuitClosed" using that(1) conn(2) by (simp_all add: two(3) evict_frame)
  qed
  let ?db = "markFirstUse Answered used kid db1 s"
  have mark: "?db = db\<lparr>api_keys := api_keys db @ [?row\<lparr>first_used_at := Some used\<rparr>]\<rparr>"
    using updateKey_last [OF rowf(4) fresh(2)] conn(1) rowf(3) by (simp add: markFirstUse_def sqlMarkAPIKeyFirstUse_def execStmt_def one)
  have "sqlSelectAPIKeyByClientOp (crTenant req) (crOpID req) ?db = Some (?row\<lparr>first_used_at := Some used\<rparr>)"
    unfolding mark by (rule find1) (simp_all add: newKeyRow_def)
  from createBody_delivered [OF this op] rowf(4)
  have "CreateKey lib hashKey (\<lambda>_. Answered) renv (Some kid3) (Some sec3) now3 req ?db t =
      (Inl (EAlreadyDelivered kid), ?db, t\<lparr>svcNegative := forgetNegative (hashKey (''lxb_'' @ sec3)) (svcNegative t)\<rparr>)"
    by (simp add: CreateKey_minted [OF req(1) conn(2)] Let_def)
  with one two old new show ?thesis by simp
qed

definition exReq :: createReq where
  "exReq = \<lparr>crApiKey = '''', crTenant = ''acme'', crName = '''', crModels = [''a''], crRPS = 5, crBurst = 0, crTPM = 100, crExpires = None,
     crEnabled = True, crOpID = ''op-7'', crClass = \<lparr>PriorityClass = '''', DefaultObjective = '''', AllowedObjectives = []\<rparr>\<rparr>"

definition exRefreshEnv :: refreshEnv where
  "exRefreshEnv = \<lparr>rfFates = \<lambda>_. Answered, rfNow = 0, rfFileOk = True\<rparr>"

theorem create_retry_converges_witness:
  "\<exists>r1 db1 s1 r2 db2 t2 e. CreateKey exCache exHash (\<lambda>_. Answered) exRefreshEnv (Some ''k9'') (Some ''one'') 1 exReq exKeyDb exService = (r1, db1, s1) \<and>
     CreateKey exCache exHash (\<lambda>_. Answered) exRefreshEnv (Some ''k10'') (Some ''two'') 2 exReq db1 exService = (r2, db2, t2) \<and>
     r2 = Inr \<lparr>acRawKey = ''lxb_two'', acKeyID = ''k9'', acReused = True\<rparr> \<and>
     fst (ValidateAPIKey exCache exHash 3 exRead ''lxb_one'' db2 t2) = Inl e \<and>
     fst (ValidateAPIKey exCache exHash 3 exRead ''lxb_two'' db2 t2) =
       Inr (entryOfRow (newKeyRow 2 exReq (crClass exReq) ''k9'' (exHash ''lxb_two'')))"
proof -
  obtain r1 db1 s1 where one: "CreateKey exCache exHash (\<lambda>_. Answered) exRefreshEnv (Some ''k9'') (Some ''one'') 1 exReq exKeyDb exService = (r1, db1, s1)"
    by (metis prod_cases3)
  obtain r2 db2 t2 where two: "CreateKey exCache exHash (\<lambda>_. Answered) exRefreshEnv (Some ''k10'') (Some ''two'') 2 exReq db1 exService = (r2, db2, t2)"
    by (metis prod_cases3)
  have ok: "createOk exReq (crClass exReq)"
    by (simp add: createOk_def exReq_def ValidateQoSIdentity_def HasReservedScopePrefix_def ValidateClassPolicy_def validateClientOpID_def
      headerChar_def HasPrefix_def ReservedIdentityScopePrefixes_def)
  have F: "crEnabled exReq" "svcConnected exService" "sqlSelectAPIKeyByClientOp (crTenant exReq) (crOpID exReq) exKeyDb = None"
    "''k9'' \<notin> key_id ` set (api_keys exKeyDb)" "''k9'' \<noteq> ''''"
    "exHash (''lxb_'' @ ''one'') \<notin> key_hash ` set (api_keys exKeyDb)" "exHash (''lxb_'' @ ''two'') \<notin> key_hash ` set (api_keys exKeyDb)"
    "exHash (''lxb_'' @ ''one'') \<noteq> exHash (''lxb_'' @ ''two'')" "exHash (''lxb_'' @ ''one'') \<noteq> ''''"
    by (simp_all add: exReq_def exService_def exKeyDb_def exDb_def exKeyRow_def exHash_def sqlSelectAPIKeyByClientOp_def)
  have G: "state (svcGuard exService) = circuitClosed" "reFree exRead" "reFate exRead = Answered"
    "cacheGet exCache 3 (cacheKeyForHash (exHash ''lxb_two'')) (svcCache exService) = None"
    by (simp_all add: exService_def exRead_def newGuard_def exCache_def)
  show ?thesis
    using create_retry_converges [OF exCache_laws ok F(1,2,2,3-9) one two, of 3 exRead] one two G by auto
qed

text \<open>
  Two views of one key. The by-id view written by a validation and the one written by the by-id
  read disagree: after a key that was created with an operation id validates, reading it by id
  answers, as long as the cached view lives, that it has none, while the row and the by-id read of
  the row have it.
\<close>

theorem validated_view_drops_op_id:
  assumes "cache_laws lib" and "client_op_id row = Some c"
    and "validateAnswer lib now h (Inr row) s = (res, s')" and "later \<le> now + cacheTTL"
  shows "fst (svcGetAPIKeyByID lib later env (key_id row) db s') = Inr ((summaryOfRow row)\<lparr>ks_op_id := ''''\<rparr>) \<and>
         ks_op_id (summaryOfRow row) = c"
proof -
  have "cacheGet lib later (cacheKeyForID (key_id row)) (svcCache s') = Some (VSummary (summaryOfEntry (entryOfRow row)))"
    using assms(3,4) cache_lawsD [OF assms(1)] by (auto simp: validateAnswer_def rememberKeySummary_def Let_def entryOfRow_def split: if_splits)
  then show ?thesis using assms(2) by (simp add: svcGetAPIKeyByID_def summaryOfEntry_def entryOfRow_def summaryOfRow_def)
qed

theorem validated_view_drops_op_id_witness:
  "\<exists>res s'. validateAnswer exCache 1 (exHash ''secret'') (Inr exKeyRow) exService = (res, s') \<and>
     fst (svcGetAPIKeyByID exCache 2 exRead ''k1'' exKeyDb s') = Inr ((summaryOfRow exKeyRow)\<lparr>ks_op_id := ''''\<rparr>) \<and>
     ks_op_id (summaryOfRow exKeyRow) = ''op''"
proof -
  obtain res s' where V: "validateAnswer exCache 1 (exHash ''secret'') (Inr exKeyRow) exService = (res, s')" by force
  have "client_op_id exKeyRow = Some ''op''" "key_id exKeyRow = ''k1''" "(2::int) \<le> 1 + cacheTTL" by (simp_all add: exKeyRow_def cacheTTL_def)
  then show ?thesis
    using validated_view_drops_op_id [OF exCache_laws _ V, of "''op''" 2 exRead exKeyDb] V by auto
qed

text \<open>
  C20. What an error of a write means. Under a driver that keeps its promise, an error of a
  revocation, a deletion, a patch or a create that does not say the outcome is unknown leaves the
  tables as they were, and a revocation, deletion or patch that fails leaves the service as it was.
  Whatever happens, a patch is applied as a whole or not at all.
\<close>

theorem write_error_contract:
  assumes "honest fates"
  shows "(RevokeAPIKey lib fates kid db s = (Some e, db', s') \<longrightarrow> s' = s \<and> (\<not> outcomeUnknown e \<longrightarrow> db' = db)) \<and>
     (DeleteAPIKey lib fates kid db s = (Some e, db', s') \<longrightarrow> s' = s \<and> (\<not> outcomeUnknown e \<longrightarrow> db' = db)) \<and>
     (PatchAPIKeyAll lib fates renv kid p db s = (Some e, db', s') \<longrightarrow> s' = s \<and> (\<not> outcomeUnknown e \<longrightarrow> db' = db)) \<and>
     (CreateKey lib hashKey fates renv rid rsec now req db s = (Inl e, db', s') \<longrightarrow> \<not> outcomeUnknown e \<longrightarrow> db' = db) \<and>
     (PatchAPIKeyAll lib fates renv kid p db s = (r, db', s') \<longrightarrow> classPatchArgs (ptClass p) = Inr args \<longrightarrow>
        db' = db \<or> db' = fold (\<lambda>f. f) (patchStmts kid p args) db)"
proof -
  note E = execStmt_contract [OF assms]
  have "s' = s \<and> (\<not> outcomeUnknown e \<longrightarrow> db' = db)" if "RevokeAPIKey lib fates kid db s = (Some e, db', s')"
    using that E [of 1 _ db] by (auto simp: RevokeAPIKey_def outcomeUnknown_def split: if_splits sum.splits prod.splits option.splits)
  moreover have "s' = s \<and> (\<not> outcomeUnknown e \<longrightarrow> db' = db)" if "DeleteAPIKey lib fates kid db s = (Some e, db', s')"
    using that E [of 1 _ db] by (auto simp: DeleteAPIKey_def outcomeUnknown_def split: if_splits sum.splits prod.splits option.splits)
  moreover have "s' = s \<and> (\<not> outcomeUnknown e \<longrightarrow> db' = db)" if "PatchAPIKeyAll lib fates renv kid p db s = (Some e, db', s')"
    using that inTx_contract [OF _ assms] by (auto simp: PatchAPIKeyAll_def Let_def split: if_splits sum.splits prod.splits)
  moreover have "\<not> outcomeUnknown e \<longrightarrow> db' = db" if "CreateKey lib hashKey fates renv rid rsec now req db s = (Inl e, db', s')"
    using that inTx_contract [OF _ assms] by (auto simp: CreateKey_def Let_def split: if_splits sum.splits prod.splits option.splits)
  moreover have "db' = db \<or> db' = fold (\<lambda>f. f) (patchStmts kid p args) db"
    if "PatchAPIKeyAll lib fates renv kid p db s = (r, db', s')" "classPatchArgs (ptClass p) = Inr args"
    using that by (auto simp: PatchAPIKeyAll_def Let_def dest!: inTx_atomic runStmts_ok split: if_splits sum.splits prod.splits)
  ultimately show ?thesis by blast
qed

text \<open>A pool that cannot dial at the second statement: nothing was sent.\<close>

definition exFates :: fates where
  "exFates i = (if i = 1 then Fails (plainErr\<lparr>isConnectError := True\<rparr>) False else Answered)"

theorem write_error_contract_witness:
  "\<exists>e db' s'. RevokeAPIKey exCache exFates ''k1'' exKeyDb exService = (Some e, db', s') \<and> \<not> outcomeUnknown e \<and> db' = exKeyDb \<and> s' = exService"
proof -
  have h: "honest exFates" by (simp add: honest_def exFates_def)
  obtain e db' s' where R: "RevokeAPIKey exCache exFates ''k1'' exKeyDb exService = (Some e, db', s')" and "\<not> outcomeUnknown e"
    by (simp add: RevokeAPIKey_def exService_def keyHashByID_def queryRow_def sqlSelectKeyHashByID_def exKeyDb_def exDb_def exKeyRow_def execStmt_def
      exFates_def outcomeUnknown_def writeErr_def ClassifyWriteErrFor_def notSent_def plainErr_def)
  then show ?thesis using write_error_contract [OF h, of exCache "''k1''" exKeyDb exService e db' s'] by auto
qed


definition exAway :: readEnv where
  "exAway = exRead\<lparr>reStart := 900000000000, reFinish := 900000000001, reFate := Fails (plainErr\<lparr>isConnectError := True\<rparr>) False\<rparr>"


end
