(* ===== verification/Audit_Cursor.thy ===== *)
theory Audit_Cursor
  imports Gw_Prelude "HOL-Library.Word"
begin

text \<open>
  The place and the export sequence an audit sink remembers across restarts
  (src/pkg/audit/sink_cursor.go): the two small files of a sink and their checksummed
  encoding, the replacement of a file so that a power loss leaves the old content or the
  new one, and the reservation of export sequence numbers.

  The file system is the one \<open>cursorFS\<close> describes: the content of a file is on stable
  storage once the file was flushed, and a name once its directory was flushed. A power
  loss brings back the directory as it is or as it was at any moment since it was last
  flushed, and leaves in a file that was not flushed anything at all. Every file operation
  may fail, at the place the record \<open>fsFate\<close> says. \<open>json.Marshal\<close> and \<open>json.Unmarshal\<close> of
  a cursor are a parameter with two laws: what was marshalled reads back, and the text has
  no newline.

  The lemmas show that what was encoded reads back, that a write leaves every state file
  readable in every directory a power loss can bring back, and what such a power loss can
  bring back.
\<close>

unbundle bit_operations_syntax

section \<open>Definitions\<close>

subsection \<open>Positions, cursors and the cursor file\<close>

record Position =
  SegmentUUID :: string
  PosSeq :: nat

definition noPosition :: Position where
  "noPosition = \<lparr>SegmentUUID = [], PosSeq = 0\<rparr>"

record SinkCursor =
  CurPos :: Position
  XseqHigh :: nat
  XseqEpoch :: nat

record cursorFile =
  cfCursor :: SinkCursor
  ResendFrom :: "Position option"

definition u64 :: "nat \<Rightarrow> nat" where
  "u64 n = n mod 18446744073709551616"

definition DefaultExportReserve :: nat where
  "DefaultExportReserve = 1024"

subsection \<open>The encoding\<close>

text \<open>\<open>crc32.ChecksumIEEE\<close>: the reflected polynomial 0xEDB88320, a bit at a time.\<close>

definition crcBit :: "32 word \<Rightarrow> 32 word" where
  "crcBit w = (if bit w 0 then drop_bit 1 w XOR 0xEDB88320 else drop_bit 1 w)"

definition crcByte :: "32 word \<Rightarrow> char \<Rightarrow> 32 word" where
  "crcByte w c = (crcBit ^^ 8) (w XOR of_nat (of_char c))"

definition ChecksumIEEE :: "string \<Rightarrow> nat" where
  "ChecksumIEEE s = unat (NOT (foldl crcByte (NOT 0) s))"

text \<open>\<open>strconv.AppendUint\<close> and \<open>strconv.ParseUint\<close> in base 16, the latter for 32 bits.\<close>

definition hexDigit :: "nat \<Rightarrow> char" where
  "hexDigit d = char_of (if d < 10 then 48 + d else 87 + d)"

fun hexOf :: "nat \<Rightarrow> string" where
  "hexOf n = (if n < 16 then [hexDigit n] else hexOf (n div 16) @ [hexDigit (n mod 16)])"

definition hexVal :: "char \<Rightarrow> nat option" where
  "hexVal c =
     (let n = (of_char c :: nat)
      in if 48 \<le> n \<and> n \<le> 57 then Some (n - 48)
         else if 97 \<le> n \<and> n \<le> 102 then Some (n - 87)
         else if 65 \<le> n \<and> n \<le> 70 then Some (n - 55) else None)"

fun hexValue :: "nat \<Rightarrow> string \<Rightarrow> nat option" where
  "hexValue acc [] = Some acc"
| "hexValue acc (c # cs) =
     (case hexVal c of None \<Rightarrow> None | Some d \<Rightarrow> hexValue (16 * acc + d) cs)"

definition ParseUint16_32 :: "string \<Rightarrow> nat option" where
  "ParseUint16_32 s =
     (if s = [] then None
      else case hexValue 0 s of None \<Rightarrow> None | Some v \<Rightarrow> if v < 4294967296 then Some v else None)"

text \<open>\<open>bytes.Cut\<close> at a newline.\<close>

definition newline :: char where
  "newline = CHR 0x0A"

definition CutLine :: "string \<Rightarrow> (string \<times> string) option" where
  "CutLine s =
     (case dropWhile (\<lambda>c. c \<noteq> newline) s of
        [] \<Rightarrow> None
      | _ # rest \<Rightarrow> Some (takeWhile (\<lambda>c. c \<noteq> newline) s, rest))"

record cursorJson =
  marshalCursor :: "cursorFile \<Rightarrow> string"
  unmarshalCursor :: "string \<Rightarrow> cursorFile option"

definition encodeCursorFile :: "cursorJson \<Rightarrow> cursorFile \<Rightarrow> string" where
  "encodeCursorFile j c =
     (let body = marshalCursor j c in body @ [newline] @ hexOf (ChecksumIEEE body) @ [newline])"

definition encodeCursor :: "cursorJson \<Rightarrow> SinkCursor \<Rightarrow> string" where
  "encodeCursor j c = encodeCursorFile j \<lparr>cfCursor = c, ResendFrom = None\<rparr>"

definition decodeCursorFile :: "cursorJson \<Rightarrow> string \<Rightarrow> cursorFile option" where
  "decodeCursorFile j data =
     (case CutLine data of
        None \<Rightarrow> None
      | Some (body, rest) \<Rightarrow>
          (case CutLine rest of
             None \<Rightarrow> None
           | Some (ckText, tail) \<Rightarrow>
               if tail \<noteq> [] then None
               else (case ParseUint16_32 ckText of
                       None \<Rightarrow> None
                     | Some want \<Rightarrow>
                         if want \<noteq> ChecksumIEEE body then None else unmarshalCursor j body)))"

definition decodeCursor :: "cursorJson \<Rightarrow> string \<Rightarrow> SinkCursor option" where
  "decodeCursor j data = map_option cfCursor (decodeCursorFile j data)"

subsection \<open>A file system that can lose power\<close>

text \<open>
  \<open>fsDirs\<close> are the directory states since the directory was last flushed, the present one
  apart: a power loss may bring any of them back. \<open>fsClean\<close> says that a file's content is
  on stable storage.
\<close>

record cfs =
  fsNames :: "string \<Rightarrow> nat option"
  fsDirs :: "(string \<Rightarrow> nat option) list"
  fsData :: "nat \<Rightarrow> string"
  fsClean :: "nat \<Rightarrow> bool"
  fsNext :: nat

definition emptyFs :: cfs where
  "emptyFs = \<lparr>fsNames = (\<lambda>_. None), fsDirs = [], fsData = (\<lambda>_. []), fsClean = (\<lambda>_. False), fsNext = 0\<rparr>"

text \<open>
  What becomes of the calls of one \<open>write\<close>. \<open>writeLeft\<close> is what a failed \<open>WriteFile\<close> leaves
  in the file: nothing is opened (\<open>None\<close>), or the file has this content, not flushed.
\<close>

record fsFate =
  mkdirOk :: bool
  writeOk :: bool
  writeLeft :: "string option"
  renameOk :: bool
  syncOk :: bool

definition allOk :: fsFate where
  "allOk = \<lparr>mkdirOk = True, writeOk = True, writeLeft = None, renameOk = True, syncOk = True\<rparr>"

definition setDir :: "(string \<Rightarrow> nat option) \<Rightarrow> cfs \<Rightarrow> cfs" where
  "setDir d fs = fs\<lparr>fsNames := d, fsDirs := fsNames fs # fsDirs fs\<rparr>"

definition openTrunc :: "string \<Rightarrow> cfs \<Rightarrow> nat \<times> cfs" where
  "openTrunc path fs =
     (case fsNames fs path of
        Some i \<Rightarrow> (i, fs)
      | None \<Rightarrow> (fsNext fs, setDir ((fsNames fs)(path \<mapsto> fsNext fs)) (fs\<lparr>fsNext := Suc (fsNext fs)\<rparr>)))"

definition fillFile :: "nat \<Rightarrow> string \<Rightarrow> bool \<Rightarrow> cfs \<Rightarrow> cfs" where
  "fillFile i d flushed fs =
     fs\<lparr>fsData := (fsData fs)(i := d), fsClean := (fsClean fs)(i := flushed)\<rparr>"

definition WriteFile :: "fsFate \<Rightarrow> string \<Rightarrow> string \<Rightarrow> cfs \<Rightarrow> bool \<times> cfs" where
  "WriteFile ft path d fs =
     (if writeOk ft then (let (i, fs) = openTrunc path fs in (True, fillFile i d True fs))
      else (case writeLeft ft of
              None \<Rightarrow> (False, fs)
            | Some left \<Rightarrow> (let (i, fs) = openTrunc path fs in (False, fillFile i left False fs))))"

definition Rename :: "fsFate \<Rightarrow> string \<Rightarrow> string \<Rightarrow> cfs \<Rightarrow> bool \<times> cfs" where
  "Rename ft old new fs =
     (if renameOk ft \<and> fsNames fs old \<noteq> None
      then (True, setDir ((fsNames fs)(new := fsNames fs old, old := None)) fs)
      else (False, fs))"

definition SyncDir :: "fsFate \<Rightarrow> cfs \<Rightarrow> bool \<times> cfs" where
  "SyncDir ft fs = (if syncOk ft then (True, fs\<lparr>fsDirs := []\<rparr>) else (False, fs))"

definition ReadFile :: "string \<Rightarrow> cfs \<Rightarrow> string option" where
  "ReadFile path fs = map_option (fsData fs) (fsNames fs path)"

text \<open>
  A power loss. \<open>k\<close> picks the directory that comes back, \<open>left\<close> is what is found in files
  that were not flushed.
\<close>

definition views :: "cfs \<Rightarrow> (string \<Rightarrow> nat option) list" where
  "views fs = fsNames fs # fsDirs fs"

definition powerLoss :: "nat \<Rightarrow> (nat \<Rightarrow> string) \<Rightarrow> cfs \<Rightarrow> cfs" where
  "powerLoss k left fs =
     fs\<lparr>fsNames := views fs ! min k (length (fsDirs fs)), fsDirs := [],
        fsData := (\<lambda>i. if fsClean fs i then fsData fs i else left i),
        fsClean := (\<lambda>_. True)\<rparr>"

text \<open>A file that is altered or lost: its name, in whichever directory comes back, and its content.\<close>

definition damage :: "string \<Rightarrow> string option \<Rightarrow> cfs \<Rightarrow> cfs" where
  "damage path c fs =
     (case c of
        None \<Rightarrow> fs\<lparr>fsNames := (fsNames fs)(path := None), fsDirs := map (\<lambda>d. d(path := None)) (fsDirs fs)\<rparr>
      | Some s \<Rightarrow>
          fs\<lparr>fsData := (\<lambda>i. if \<exists>d \<in> set (views fs). d path = Some i then s else fsData fs i)\<rparr>)"

subsection \<open>The cursor store\<close>

record cursorStore =
  csDir :: string
  csName :: string

definition cursorPath :: "cursorStore \<Rightarrow> string" where
  "cursorPath s = csDir s @ ''/'' @ csName s @ ''.cursor''"

definition reservationPath :: "cursorStore \<Rightarrow> string" where
  "reservationPath s = csDir s @ ''/'' @ csName s @ ''.xseq''"

definition storeWrite :: "fsFate \<Rightarrow> string \<Rightarrow> string \<Rightarrow> cfs \<Rightarrow> bool \<times> cfs" where
  "storeWrite ft path d fs =
     (if \<not> mkdirOk ft then (False, fs)
      else let tmp = path @ ''.tmp'' in
           case WriteFile ft tmp d fs of
             (False, fs) \<Rightarrow> (False, fs)
           | (True, fs) \<Rightarrow>
               (case Rename ft tmp path fs of
                  (False, fs) \<Rightarrow> (False, fs)
                | (True, fs) \<Rightarrow> SyncDir ft fs))"

definition storeSave :: "cursorJson \<Rightarrow> fsFate \<Rightarrow> string \<Rightarrow> SinkCursor \<Rightarrow> cfs \<Rightarrow> bool \<times> cfs" where
  "storeSave j ft path c fs = storeWrite ft path (encodeCursor j c) fs"

definition saveCursor ::
  "cursorJson \<Rightarrow> fsFate \<Rightarrow> cursorStore \<Rightarrow> SinkCursor \<Rightarrow> Position \<Rightarrow> cfs \<Rightarrow> bool \<times> cfs" where
  "saveCursor j ft s c resend fs =
     storeWrite ft (cursorPath s)
       (encodeCursorFile j \<lparr>cfCursor = c,
          ResendFrom = (if resend \<noteq> noPosition then Some resend else None)\<rparr>) fs"

text \<open>What a file reads as: its cursor, or that it is not there, or that it cannot be read.\<close>

datatype 'a readBack = RBOk 'a | RBMissing | RBCorrupt

definition readFile :: "cursorJson \<Rightarrow> string \<Rightarrow> cfs \<Rightarrow> cursorFile readBack" where
  "readFile j path fs =
     (case ReadFile path fs of
        None \<Rightarrow> RBMissing
      | Some d \<Rightarrow> (case decodeCursorFile j d of None \<Rightarrow> RBCorrupt | Some c \<Rightarrow> RBOk c))"

subsection \<open>The export sequence\<close>

datatype CursorMethod = CursorResumed | CursorFresh | CursorFromReservation | CursorFromOldest

record CursorRecovery =
  crMethod :: CursorMethod
  EpochChanged :: bool
  crOld :: "SinkCursor option"
  crStart :: SinkCursor

record exportSeq =
  esCur :: SinkCursor
  esResend :: Position
  esReserved :: nat
  esReserve :: nat

definition newEpoch :: "cursorFile readBack \<Rightarrow> nat \<Rightarrow> nat" where
  "newEpoch cur now =
     (let epoch = u64 now;
          epoch = (case cur of
                     RBOk f \<Rightarrow> if epoch \<le> XseqEpoch (cfCursor f) then u64 (XseqEpoch (cfCursor f) + 1) else epoch
                   | _ \<Rightarrow> epoch)
      in if epoch = 0 then 1 else epoch)"

definition openPlace :: "cursorFile readBack \<Rightarrow> cursorFile readBack \<Rightarrow> Position \<times> CursorMethod" where
  "openPlace cur resv =
     (case (cur, resv) of
        (RBOk f, _) \<Rightarrow> (CurPos (cfCursor f), CursorResumed)
      | (_, RBOk r) \<Rightarrow> (CurPos (cfCursor r), CursorFromReservation)
      | (RBMissing, RBMissing) \<Rightarrow> (noPosition, CursorFresh)
      | _ \<Rightarrow> (noPosition, CursorFromOldest))"

definition openExportSeq ::
  "cursorJson \<Rightarrow> cursorStore \<Rightarrow> nat \<Rightarrow> nat \<Rightarrow> cfs \<Rightarrow> exportSeq \<times> CursorRecovery" where
  "openExportSeq j s reserve now fs =
     (let reserve = (if reserve = 0 then DefaultExportReserve else reserve);
          cur = readFile j (cursorPath s) fs;
          resv = readFile j (reservationPath s) fs;
          (pos, how) = openPlace cur resv;
          (high, epoch, changed) =
            (case resv of
               RBOk r \<Rightarrow> (XseqHigh (cfCursor r), XseqEpoch (cfCursor r), False)
             | _ \<Rightarrow> (0, newEpoch cur now, how \<noteq> CursorFresh));
          c = \<lparr>CurPos = pos, XseqHigh = high, XseqEpoch = epoch\<rparr>
      in (\<lparr>esCur = c,
           esResend = (case cur of RBOk f \<Rightarrow> (case ResendFrom f of None \<Rightarrow> noPosition | Some p \<Rightarrow> p) | _ \<Rightarrow> noPosition),
           esReserved = high, esReserve = reserve\<rparr>,
          \<lparr>crMethod = how, EpochChanged = changed,
           crOld = (case cur of RBOk f \<Rightarrow> Some (cfCursor f) | _ \<Rightarrow> None), crStart = c\<rparr>))"

definition nextXseq ::
  "cursorJson \<Rightarrow> cursorStore \<Rightarrow> fsFate \<Rightarrow> exportSeq \<Rightarrow> cfs \<Rightarrow> nat option \<times> exportSeq \<times> cfs" where
  "nextXseq j s ft e fs =
     (let c = esCur e; x = u64 (XseqHigh c + 1) in
      if x > esReserved e then
        (let r = c\<lparr>XseqHigh := u64 (XseqHigh c + esReserve e)\<rparr> in
         case storeSave j ft (reservationPath s) r fs of
           (False, fs) \<Rightarrow> (None, e, fs)
         | (True, fs) \<Rightarrow> (Some x, e\<lparr>esCur := c\<lparr>XseqHigh := x\<rparr>, esReserved := XseqHigh r\<rparr>, fs))
      else (Some x, e\<lparr>esCur := c\<lparr>XseqHigh := x\<rparr>\<rparr>, fs))"

definition commitXseq ::
  "cursorJson \<Rightarrow> cursorStore \<Rightarrow> fsFate \<Rightarrow> Position \<Rightarrow> Position \<Rightarrow> exportSeq \<Rightarrow> cfs \<Rightarrow> bool \<times> exportSeq \<times> cfs" where
  "commitXseq j s ft pos resend e fs =
     (let e = e\<lparr>esCur := (esCur e)\<lparr>CurPos := pos\<rparr>, esResend := resend\<rparr>;
          (ok, fs) = saveCursor j ft s (esCur e) (esResend e) fs
      in (ok, e, fs))"

definition closeXseq ::
  "cursorJson \<Rightarrow> cursorStore \<Rightarrow> fsFate \<Rightarrow> fsFate \<Rightarrow> exportSeq \<Rightarrow> cfs \<Rightarrow> bool \<times> exportSeq \<times> cfs" where
  "closeXseq j s ft1 ft2 e fs =
     (let (ok, fs) = saveCursor j ft1 s (esCur e) (esResend e) fs in
      case storeSave j ft2 (reservationPath s) (esCur e) fs of
        (False, fs) \<Rightarrow> (False, e, fs)
      | (True, fs) \<Rightarrow> (ok, e\<lparr>esReserved := XseqHigh (esCur e)\<rparr>, fs))"

subsection \<open>Well-formed cursors and the laws of the encoding\<close>

definition uuidText :: "string \<Rightarrow> bool" where
  "uuidText u \<longleftrightarrow> list_all (\<lambda>c. c = CHR ''-'' \<or> hexVal c \<noteq> None) u"

definition wfPos :: "Position \<Rightarrow> bool" where
  "wfPos p \<longleftrightarrow> uuidText (SegmentUUID p) \<and> PosSeq p < 18446744073709551616"

definition wfCursor :: "SinkCursor \<Rightarrow> bool" where
  "wfCursor c \<longleftrightarrow> wfPos (CurPos c) \<and> XseqHigh c < 18446744073709551616 \<and> XseqEpoch c < 18446744073709551616"

definition wfFile :: "cursorFile \<Rightarrow> bool" where
  "wfFile f \<longleftrightarrow> wfCursor (cfCursor f) \<and> pred_option wfPos (ResendFrom f)"

definition cursor_json_laws :: "cursorJson \<Rightarrow> bool" where
  "cursor_json_laws j \<longleftrightarrow>
     (\<forall>f. wfFile f \<longrightarrow> unmarshalCursor j (marshalCursor j f) = Some f \<and> newline \<notin> set (marshalCursor j f))"

section \<open>Lemmas\<close>

subsection \<open>The encoding\<close>

lemma ChecksumIEEE_less: "ChecksumIEEE s < 4294967296"
proof -
  have "ChecksumIEEE s < 2 ^ 32"
    unfolding ChecksumIEEE_def by (rule order_less_le_trans [OF unsigned_less]) simp
  then show ?thesis by simp
qed

lemma hexVal_hexDigit: "d < 16 \<Longrightarrow> hexVal (hexDigit d) = Some d"
proof -
  assume "d < 16"
  then have "d \<in> {0..<16}" by simp
  then have "d \<in> set [0..<16]" by simp
  then show ?thesis
    by (simp add: upt_rec numeral_eq_Suc) (elim disjE; simp add: hexVal_def hexDigit_def of_char_of Let_def)
qed

lemma hexDigit_not_newline: "d < 16 \<Longrightarrow> hexDigit d \<noteq> newline"
  using hexVal_hexDigit [of d] by (auto simp: hexVal_def newline_def Let_def of_char_of)

declare hexOf.simps [simp del]

lemma newline_notin_hexOf: "newline \<notin> set (hexOf n)"
proof (induction n rule: hexOf.induct)
  case (1 n)
  then show ?case
    by (subst hexOf.simps) (use hexDigit_not_newline [of n] hexDigit_not_newline [of "n mod 16"] in auto)
qed

lemma hexOf_nonempty: "hexOf n \<noteq> []"
  by (subst hexOf.simps) simp

lemma hexValue_append:
  "hexValue acc (xs @ ys) = (case hexValue acc xs of None \<Rightarrow> None | Some a \<Rightarrow> hexValue a ys)"
  by (induction acc xs rule: hexValue.induct) (auto split: option.splits)

lemma hexValue_hexOf: "hexValue 0 (hexOf n) = Some n"
proof (induction n rule: hexOf.induct)
  case (1 n)
  show ?case
  proof (cases "n < 16")
    case True
    then show ?thesis by (subst hexOf.simps) (simp add: hexVal_hexDigit)
  next
    case False
    then show ?thesis
      by (subst hexOf.simps) (simp add: 1 hexValue_append hexVal_hexDigit)
  qed
qed

lemma ParseUint_hexOf: "n < 4294967296 \<Longrightarrow> ParseUint16_32 (hexOf n) = Some n"
  by (simp add: ParseUint16_32_def hexOf_nonempty hexValue_hexOf)

lemma CutLine_line: "newline \<notin> set a \<Longrightarrow> CutLine (a @ newline # b) = Some (a, b)"
  by (auto simp: CutLine_def dropWhile_append takeWhile_append)

lemma CutLine_none: "newline \<notin> set a \<Longrightarrow> CutLine a = None"
  by (simp add: CutLine_def split: list.split) (metis (full_types) dropWhile_eq_Nil_conv list.distinct(1))

lemma wf_noPosition [simp]: "wfPos noPosition"
  by (simp add: wfPos_def noPosition_def uuidText_def)

lemma decode_encodeFile:
  assumes "cursor_json_laws j" and "wfFile f"
  shows "decodeCursorFile j (encodeCursorFile j f) = Some f"
proof -
  have *: "newline \<notin> set (marshalCursor j f)" "unmarshalCursor j (marshalCursor j f) = Some f"
    using assms by (auto simp: cursor_json_laws_def)
  show ?thesis
    by (simp add: decodeCursorFile_def encodeCursorFile_def Let_def CutLine_line [OF *(1)]
        CutLine_line [OF newline_notin_hexOf, of _ "[]"] ParseUint_hexOf ChecksumIEEE_less *(2))
qed

lemma decode_encodeCursor:
  "cursor_json_laws j \<Longrightarrow> wfCursor c \<Longrightarrow>
   decodeCursorFile j (encodeCursor j c) = Some \<lparr>cfCursor = c, ResendFrom = None\<rparr>"
  by (simp add: encodeCursor_def decode_encodeFile wfFile_def)

subsection \<open>Replacing a file\<close>

definition isTmp :: "string \<Rightarrow> bool" where
  "isTmp p = suffix ''.tmp'' p"

text \<open>
  What holds of the file system in every directory a power loss can bring back: no file has
  two names, the two state files are flushed and hold acceptable content, and the file a
  temporary name stands for now is no directory's state file.
\<close>

definition fsOk :: "(string \<Rightarrow> string \<Rightarrow> bool) \<Rightarrow> cfs \<Rightarrow> bool" where
  "fsOk Q fs \<longleftrightarrow>
     (\<forall>d \<in> set (views fs). \<forall>p i. d p = Some i \<longrightarrow>
        i < fsNext fs \<and> (\<not> isTmp p \<longrightarrow> fsClean fs i \<and> Q p (fsData fs i)))"

definition fsInj :: "cfs \<Rightarrow> bool" where
  "fsInj fs \<longleftrightarrow> (\<forall>d \<in> set (views fs). inj_on d (dom d))"

definition fsApart :: "cfs \<Rightarrow> bool" where
  "fsApart fs \<longleftrightarrow>
     (\<forall>d \<in> set (views fs). \<forall>d' \<in> set (views fs). \<forall>p q i.
        \<not> isTmp p \<longrightarrow> \<not> isTmp q \<longrightarrow> d p = Some i \<longrightarrow> d' q = Some i \<longrightarrow> p = q)"

definition fsTmp :: "cfs \<Rightarrow> bool" where
  "fsTmp fs \<longleftrightarrow>
     (\<forall>t i. isTmp t \<longrightarrow> fsNames fs t = Some i \<longrightarrow> (\<forall>d \<in> set (views fs). \<forall>p. \<not> isTmp p \<longrightarrow> d p \<noteq> Some i))"

definition fsInv :: "(string \<Rightarrow> string \<Rightarrow> bool) \<Rightarrow> cfs \<Rightarrow> bool" where
  "fsInv Q fs \<longleftrightarrow> fsOk Q fs \<and> fsInj fs \<and> fsApart fs \<and> fsTmp fs"

lemma fsInv_mono: "fsInv Q fs \<Longrightarrow> (\<And>p d. \<not> isTmp p \<Longrightarrow> Q p d \<Longrightarrow> Q' p d) \<Longrightarrow> fsInv Q' fs"
  by (simp add: fsInv_def fsOk_def)

lemma fsInvD:
  assumes "fsInv Q fs" and "d \<in> set (views fs)" and "d p = Some i"
  shows "i < fsNext fs" and "\<not> isTmp p \<Longrightarrow> fsClean fs i" and "\<not> isTmp p \<Longrightarrow> Q p (fsData fs i)"
  using assms by (auto simp: fsInv_def fsOk_def)

lemma fsInv_apart:
  assumes "fsInv Q fs" and "d \<in> set (views fs)" and "d' \<in> set (views fs)"
    and "\<not> isTmp p" and "\<not> isTmp q" and "d p = Some i" and "d' q = Some i"
  shows "p = q"
proof -
  have "fsApart fs" using assms(1) by (simp add: fsInv_def)
  then show ?thesis using assms(2-) unfolding fsApart_def by blast
qed

lemma fsInv_inj: "fsInv Q fs \<Longrightarrow> d \<in> set (views fs) \<Longrightarrow> d p = Some i \<Longrightarrow> d q = Some i \<Longrightarrow> p = q"
  by (metis domI fsInj_def fsInv_def inj_on_def)

lemma fsInv_tmp:
  "fsInv Q fs \<Longrightarrow> isTmp t \<Longrightarrow> fsNames fs t = Some i \<Longrightarrow> d \<in> set (views fs) \<Longrightarrow> \<not> isTmp p \<Longrightarrow> d p \<noteq> Some i"
  by (simp add: fsInv_def fsTmp_def)

lemma views_setDir: "set (views (setDir d fs)) = insert d (set (views fs))"
  by (auto simp: views_def setDir_def)

lemma names_in_views: "fsNames fs \<in> set (views fs)"
  by (simp add: views_def)


lemma fsInv_setDir:
  assumes inv: "fsInv Q fs"
    and ok: "\<And>p i. d p = Some i \<Longrightarrow> i < fsNext fs \<and> (\<not> isTmp p \<longrightarrow> fsClean fs i \<and> Q p (fsData fs i))"
    and inj: "\<And>p q i. d p = Some i \<Longrightarrow> d q = Some i \<Longrightarrow> p = q"
    and cross: "\<And>p i v q. \<lbrakk>d p = Some i; \<not> isTmp p; v \<in> set (views fs); v q = Some i; \<not> isTmp q\<rbrakk> \<Longrightarrow> q = p"
    and tmp: "\<And>t i v p. \<lbrakk>isTmp t; d t = Some i; v \<in> set (views fs); \<not> isTmp p\<rbrakk> \<Longrightarrow> v p \<noteq> Some i"
  shows "fsInv Q (setDir d fs)"
proof -
  have v: "set (views (setDir d fs)) = insert d (set (views fs))" by (rule views_setDir)
  have sel: "fsNext (setDir d fs) = fsNext fs" "fsClean (setDir d fs) = fsClean fs"
    "fsData (setDir d fs) = fsData fs" "fsNames (setDir d fs) = d"
    by (simp_all add: setDir_def)
  have "fsOk Q (setDir d fs)"
    unfolding fsOk_def v sel using ok fsInvD [OF inv] by blast
  moreover have "fsInj (setDir d fs)"
    unfolding fsInj_def v using inj inv by (auto simp: fsInv_def fsInj_def intro: inj_onI)
  moreover have "fsApart (setDir d fs)"
    unfolding fsApart_def v using inj cross fsInv_apart [OF inv] by (metis insertE)
  moreover have "fsTmp (setDir d fs)"
    unfolding fsTmp_def v sel using inj tmp by (metis insertE)
  ultimately show ?thesis by (simp add: fsInv_def)
qed

text \<open>A change that keeps the directories keeps all but what is said of the contents.\<close>

lemma fsInv_same_dirs:
  assumes inv: "fsInv Q fs" and v: "views fs' = views fs" and ok: "fsOk Q' fs'"
  shows "fsInv Q' fs'"
proof -
  have "fsNames fs' = fsNames fs" using v by (simp add: views_def)
  then have "fsInj fs' = fsInj fs" "fsApart fs' = fsApart fs" "fsTmp fs' = fsTmp fs"
    by (simp_all only: fsInj_def fsApart_def fsTmp_def v)
  with inv ok show ?thesis by (simp add: fsInv_def)
qed

lemma fsInv_next: "fsInv Q fs \<Longrightarrow> fsInv Q (fs\<lparr>fsNext := Suc (fsNext fs)\<rparr>)"
  by (rule fsInv_same_dirs) (auto simp: views_def fsInv_def fsOk_def less_SucI)

lemma openTrunc_inv:
  assumes inv: "fsInv Q fs" and tmp: "isTmp t" and opn: "openTrunc t fs = (i, fs')"
  shows "fsInv Q fs'" and "fsNames fs' t = Some i"
proof -
  show "fsNames fs' t = Some i"
    using opn by (auto simp: openTrunc_def setDir_def split: option.splits)
  show "fsInv Q fs'"
  proof (cases "fsNames fs t")
    case (Some k)
    then show ?thesis using inv opn by (simp add: openTrunc_def)
  next
    case None
    let ?fs = "fs\<lparr>fsNext := Suc (fsNext fs)\<rparr>"
    have fs': "fs' = setDir ((fsNames fs)(t \<mapsto> fsNext fs)) ?fs" using opn None by (auto simp: openTrunc_def)
    note n = fsInvD [OF inv names_in_views] fsInv_inj [OF inv names_in_views]
    have v: "set (views ?fs) = set (views fs)" by (simp add: views_def)
    show ?thesis
      unfolding fs'
    proof (rule fsInv_setDir [OF fsInv_next [OF inv]], goal_cases)
      case (1 p i) then show ?case using n(1-3) [of p i] tmp by (auto split: if_splits)
    next
      case (2 p q i) then show ?case using n(1) n(4) [of p i q] by (fastforce split: if_splits)
    next
      case (3 p i v q) then show ?case
        using fsInv_apart [OF inv names_in_views, of v p q i] tmp unfolding v by (auto split: if_splits)
    next
      case (4 u i v p) then show ?case
        using fsInvD(1) [OF inv, of v p i] fsInv_tmp [OF inv, of u i v p] unfolding v by (auto split: if_splits)
    qed
  qed
qed

lemma fillFile_inv:
  assumes inv: "fsInv Q fs" and t: "isTmp t" "fsNames fs t = Some i"
  shows "fsInv Q (fillFile i d b fs)"
proof (rule fsInv_same_dirs [OF inv])
  show v: "views (fillFile i d b fs) = views fs" by (simp add: fillFile_def views_def)
  show "fsOk Q (fillFile i d b fs)"
    unfolding fsOk_def v
  proof (intro ballI allI impI)
    fix v p k assume a: "v \<in> set (views fs)" "v p = Some k"
    then have "\<not> isTmp p \<longrightarrow> k \<noteq> i" using fsInv_tmp [OF inv t a(1)] by auto
    with fsInvD [OF inv a]
    show "k < fsNext (fillFile i d b fs) \<and>
        (\<not> isTmp p \<longrightarrow> fsClean (fillFile i d b fs) k \<and> Q p (fsData (fillFile i d b fs) k))"
      by (simp add: fillFile_def)
  qed
qed

lemma WriteFile_inv:
  assumes inv: "fsInv Q fs" and t: "isTmp t"
  shows "fsInv Q (snd (WriteFile ft t d fs))"
proof -
  obtain i fs1 where o: "openTrunc t fs = (i, fs1)" by (cases "openTrunc t fs")
  have "fsInv Q (fillFile i x b fs1)" for x b
    by (rule fillFile_inv [OF openTrunc_inv(1) [OF inv t o] t openTrunc_inv(2) [OF inv t o]])
  then show ?thesis using inv o by (simp add: WriteFile_def split: option.split)
qed

lemma WriteFile_ok:
  assumes "WriteFile ft t d fs = (True, fs')"
  shows "\<exists>i. fsNames fs' t = Some i \<and> fsData fs' i = d \<and> fsClean fs' i"
  using assms
  by (auto simp: WriteFile_def openTrunc_def fillFile_def setDir_def split: option.splits if_splits)

lemma Rename_inv:
  assumes inv: "fsInv Q fs" and t: "isTmp t" "fsNames fs t = Some i" and p: "\<not> isTmp p"
    and i: "fsClean fs i" "Q p (fsData fs i)"
  shows "fsInv Q (snd (Rename ft t p fs))"
proof (cases "renameOk ft")
  case False
  then show ?thesis using inv by (simp add: Rename_def)
next
  case True
  define d where "d = (fsNames fs)(p := fsNames fs t, t := None)"
  have res: "snd (Rename ft t p fs) = setDir d fs" using True t by (simp add: Rename_def d_def)
  have d: "\<And>q. d q = (if q = t then None else if q = p then Some i else fsNames fs q)"
    using t p by (auto simp: d_def)
  note n = fsInvD [OF inv names_in_views] fsInv_inj [OF inv names_in_views]
  have fresh: "\<And>v q. v \<in> set (views fs) \<Longrightarrow> \<not> isTmp q \<Longrightarrow> v q \<noteq> Some i"
    using fsInv_tmp [OF inv t] by simp
  have other: "\<And>q. fsNames fs q = Some i \<Longrightarrow> q = t" using n(4) [OF _ t(2)] by simp
  show ?thesis
    unfolding res
  proof (rule fsInv_setDir [OF inv], goal_cases)
    case (1 q k) then show ?case using n(1-3) [of q k] n(1) [OF t(2)] i by (auto simp: d split: if_splits)
  next
    case (2 q r k) then show ?case using other n(4) [of q k r] by (auto simp: d split: if_splits)
  next
    case (3 q k v r) then show ?case
      using fsInv_apart [OF inv names_in_views, of v q r k] fresh [of v r] by (auto simp: d split: if_splits)
  next
    case (4 u k v q) then show ?case
      using fsInv_tmp [OF inv, of u k v q] p by (auto simp: d split: if_splits)
  qed
qed

lemma SyncDir_inv: "fsInv Q fs \<Longrightarrow> fsInv Q (snd (SyncDir ft fs))"
proof -
  assume inv: "fsInv Q fs"
  have v: "views (fs\<lparr>fsDirs := []\<rparr>) = [fsNames fs]" by (simp add: views_def)
  have "fsInv Q (fs\<lparr>fsDirs := []\<rparr>)"
    unfolding fsInv_def fsOk_def fsInj_def fsApart_def fsTmp_def v
    using fsInvD [OF inv names_in_views] fsInv_inj [OF inv names_in_views]
      fsInv_tmp [OF inv _ _ names_in_views]
    by (auto intro!: inj_onI)
  then show ?thesis using inv by (simp add: SyncDir_def)
qed

lemma isTmp_tmp [simp]: "isTmp (p @ ''.tmp'')"
  by (simp add: isTmp_def suffix_def)

lemma storeWrite_inv:
  assumes inv: "fsInv Q fs" and p: "\<not> isTmp p" and q: "Q p d"
  shows "fsInv Q (snd (storeWrite ft p d fs))"
proof (cases "mkdirOk ft")
  case False
  then show ?thesis using inv by (simp add: storeWrite_def)
next
  case True
  obtain ok1 fs1 where w: "WriteFile ft (p @ ''.tmp'') d fs = (ok1, fs1)" by (cases "WriteFile ft (p @ ''.tmp'') d fs")
  have i1: "fsInv Q fs1" using WriteFile_inv [OF inv isTmp_tmp, of ft p d] w by simp
  show ?thesis
  proof (cases ok1)
    case False
    then show ?thesis using True w i1 by (simp add: storeWrite_def Let_def)
  next
    case ok1: True
    obtain i where i: "fsNames fs1 (p @ ''.tmp'') = Some i" "fsData fs1 i = d" "fsClean fs1 i"
      using WriteFile_ok [of ft "p @ ''.tmp''" d fs fs1] w ok1 by auto
    obtain ok2 fs2 where r: "Rename ft (p @ ''.tmp'') p fs1 = (ok2, fs2)" by (cases "Rename ft (p @ ''.tmp'') p fs1")
    have i2: "fsInv Q fs2" using Rename_inv [OF i1 isTmp_tmp i(1) p i(3), of ft] i(2) q r by simp
    show ?thesis
      using True w r ok1 i2 SyncDir_inv [OF i2, of ft] by (cases ok2) (simp_all add: storeWrite_def Let_def)
  qed
qed

lemma storeWrite_ok:
  assumes "storeWrite ft p d fs = (True, fs')" and "\<not> isTmp p"
  shows "fsDirs fs' = []" and "ReadFile p fs' = Some d"
proof -
  obtain fs1 where w: "WriteFile ft (p @ ''.tmp'') d fs = (True, fs1)"
    and r: "(case Rename ft (p @ ''.tmp'') p fs1 of (False, fs) \<Rightarrow> (False, fs) | (True, fs) \<Rightarrow> SyncDir ft fs) = (True, fs')"
    using assms(1) by (auto simp: storeWrite_def Let_def split: if_splits prod.splits bool.splits)
  obtain i where i: "fsNames fs1 (p @ ''.tmp'') = Some i" "fsData fs1 i = d"
    using WriteFile_ok [OF w] by auto
  have "p \<noteq> p @ ''.tmp''" by simp
  then show "fsDirs fs' = []" "ReadFile p fs' = Some d"
    using r i by (auto simp: Rename_def SyncDir_def setDir_def ReadFile_def split: if_splits)
qed

lemma openTrunc_other:
  assumes "fsInv Q fs" and "isTmp t" and "openTrunc t fs = (i, fs')" and "\<not> isTmp q"
  shows "fsNames fs' q = fsNames fs q" and "fsNames fs q \<noteq> Some i" and "fsData fs' = fsData fs"
proof -
  have "q \<noteq> t" using assms by auto
  then show "fsNames fs' q = fsNames fs q" "fsNames fs q \<noteq> Some i" "fsData fs' = fsData fs"
    using assms(3) fsInvD(1) [OF assms(1) names_in_views, of q]
      fsInv_tmp [OF assms(1,2) _ names_in_views assms(4)]
    by (auto simp: openTrunc_def setDir_def split: option.splits)
qed

lemma storeWrite_other:
  assumes inv: "fsInv Q fs" and q: "\<not> isTmp q" "q \<noteq> p"
  shows "ReadFile q (snd (storeWrite ft p d fs)) = ReadFile q fs"
proof -
  let ?t = "p @ ''.tmp''"
  obtain i fs1 where o: "openTrunc ?t fs = (i, fs1)" by (cases "openTrunc ?t fs")
  note ot = openTrunc_other [OF inv isTmp_tmp o q(1)]
  have nt: "q \<noteq> ?t" using q by auto
  have fill: "ReadFile q (fillFile i x b fs1) = ReadFile q fs" for x b
    using ot by (cases "fsNames fs q") (auto simp: ReadFile_def fillFile_def)
  have w: "ReadFile q (snd (WriteFile ft ?t d fs)) = ReadFile q fs"
    using fill o by (simp add: WriteFile_def split: option.split)
  obtain b fs2 where wf: "WriteFile ft ?t d fs = (b, fs2)" by (cases "WriteFile ft ?t d fs")
  then have r2: "ReadFile q fs2 = ReadFile q fs" using w by simp
  have rn: "ReadFile q (snd (Rename ft ?t p fs2)) = ReadFile q fs2"
    using q nt by (simp add: Rename_def ReadFile_def setDir_def)
  have sd: "ReadFile q (snd (SyncDir ft x)) = ReadFile q x" for x
    by (simp add: SyncDir_def ReadFile_def)
  obtain b' fs3 where rf: "Rename ft ?t p fs2 = (b', fs3)" by (cases "Rename ft ?t p fs2")
  show ?thesis
    using wf rf r2 rn sd [of fs3]
    by (cases b; cases b') (simp_all add: storeWrite_def Let_def)
qed

lemma powerLoss_view: "fsNames (powerLoss k left fs) \<in> set (views fs)"
proof -
  have "min k (length (fsDirs fs)) < length (views fs)" by (simp add: views_def)
  then show ?thesis by (simp add: powerLoss_def)
qed

lemma powerLoss_views: "views (powerLoss k left fs) = [fsNames (powerLoss k left fs)]"
  by (simp add: views_def powerLoss_def)

lemma powerLoss_inv:
  assumes inv: "fsInv Q fs" shows "fsInv Q (powerLoss k left fs)"
proof -
  define d where "d = fsNames (powerLoss k left fs)"
  have d: "d \<in> set (views fs)" unfolding d_def by (rule powerLoss_view)
  have v: "views (powerLoss k left fs) = [d]" by (simp add: d_def powerLoss_views)
  have sel: "fsNext (powerLoss k left fs) = fsNext fs" "fsClean (powerLoss k left fs) = (\<lambda>_. True)"
    "\<And>i. fsClean fs i \<Longrightarrow> fsData (powerLoss k left fs) i = fsData fs i"
    by (simp_all add: powerLoss_def)
  have "fsOk Q (powerLoss k left fs)"
    unfolding fsOk_def v using fsInvD [OF inv d] sel by auto
  moreover have "fsInj (powerLoss k left fs)"
    unfolding fsInj_def v using fsInv_inj [OF inv d] by (auto intro!: inj_onI)
  moreover have "fsApart (powerLoss k left fs)"
    unfolding fsApart_def v using fsInv_inj [OF inv d] by auto
  moreover have "fsTmp (powerLoss k left fs)"
    unfolding fsTmp_def v d_def [symmetric] using fsInv_inj [OF inv d] by auto
  ultimately show ?thesis by (simp add: fsInv_def)
qed

lemma damage_views_None:
  "set (views (damage path None fs)) = (\<lambda>d. d(path := None)) ` set (views fs)"
  by (simp add: damage_def views_def)

lemma damage_inv_None:
  assumes inv: "fsInv Q fs" shows "fsInv Q (damage path None fs)"
proof -
  have nm: "fsNames (damage path None fs) = (fsNames fs)(path := None)"
    by (simp add: damage_def)
  have sel: "fsNext (damage path None fs) = fsNext fs" "fsClean (damage path None fs) = fsClean fs"
    "fsData (damage path None fs) = fsData fs"
    by (simp_all add: damage_def)
  have sub: "\<And>d p i. (d(path := None)) p = Some i \<Longrightarrow> d p = Some (i :: nat)" by (simp split: if_splits)
  have "fsOk Q (damage path None fs)"
    unfolding fsOk_def damage_views_None sel using fsInvD [OF inv] sub by (auto split: if_splits)
  moreover have "fsInj (damage path None fs)"
    unfolding fsInj_def damage_views_None using fsInv_inj [OF inv]
    by (auto intro!: inj_onI split: if_splits)
  moreover have "fsApart (damage path None fs)"
    unfolding fsApart_def damage_views_None ball_simps using fsInv_apart [OF inv] sub by metis
  moreover have "fsTmp (damage path None fs)"
    unfolding fsTmp_def damage_views_None nm ball_simps using fsInv_tmp [OF inv] sub by metis
  ultimately show ?thesis by (simp add: fsInv_def)
qed

lemma damage_inv_Some:
  assumes inv: "fsInv Q fs" and p: "\<not> isTmp path" and q: "Q path s"
  shows "fsInv Q (damage path (Some s) fs)"
proof (rule fsInv_same_dirs [OF inv])
  show v: "views (damage path (Some s) fs) = views fs" by (simp add: damage_def views_def)
  show "fsOk Q (damage path (Some s) fs)"
    unfolding fsOk_def v
  proof (intro ballI allI impI)
    fix d r i assume a: "d \<in> set (views fs)" "d r = Some i"
    have "r = path" if "\<not> isTmp r" "d' \<in> set (views fs)" "d' path = Some i" for d'
      using fsInv_apart [OF inv a(1) that(2) that(1) p a(2) that(3)] .
    then show "i < fsNext (damage path (Some s) fs) \<and>
        (\<not> isTmp r \<longrightarrow> fsClean (damage path (Some s) fs) i \<and> Q r (fsData (damage path (Some s) fs) i))"
      using fsInvD [OF inv a] q by (auto simp: damage_def)
  qed
qed


subsection \<open>What a power loss can bring back\<close>

text \<open>The contents a file may be found with: one for each directory that may come back.\<close>

definition viewReads :: "string \<Rightarrow> cfs \<Rightarrow> string option set" where
  "viewReads p fs = (\<lambda>d. map_option (fsData fs) (d p)) ` set (views fs)"

lemma ReadFile_viewReads: "ReadFile p fs \<in> viewReads p fs"
  by (simp add: ReadFile_def viewReads_def views_def)

lemma openTrunc_viewReads:
  assumes inv: "fsInv Q fs" and t: "isTmp t" and o: "openTrunc t fs = (i, fs')" and q: "\<not> isTmp q"
  shows "viewReads q fs' = viewReads q fs" and "ReadFile q fs' = ReadFile q fs"
proof -
  have "q \<noteq> t" using t q by auto
  then show "viewReads q fs' = viewReads q fs" "ReadFile q fs' = ReadFile q fs"
    using o by (auto simp: openTrunc_def setDir_def viewReads_def views_def ReadFile_def split: option.splits)
qed

lemma fillFile_viewReads:
  assumes inv: "fsInv Q fs" and t: "isTmp t" "fsNames fs t = Some i" and q: "\<not> isTmp q"
  shows "viewReads q (fillFile i d b fs) = viewReads q fs" and "ReadFile q (fillFile i d b fs) = ReadFile q fs"
proof -
  have "map_option ((fsData fs)(i := d)) (v q) = map_option (fsData fs) (v q)" if "v \<in> set (views fs)" for v
    using fsInv_tmp [OF inv t that q] by (cases "v q") auto
  moreover have "views (fillFile i d b fs) = views fs" by (simp add: fillFile_def views_def)
  ultimately show "viewReads q (fillFile i d b fs) = viewReads q fs" "ReadFile q (fillFile i d b fs) = ReadFile q fs"
    using names_in_views [of fs]
    by (auto simp: viewReads_def ReadFile_def fillFile_def intro!: image_cong)
qed

lemma WriteFile_viewReads:
  assumes inv: "fsInv Q fs" and t: "isTmp t" and q: "\<not> isTmp q"
  shows "viewReads q (snd (WriteFile ft t d fs)) = viewReads q fs"
    and "ReadFile q (snd (WriteFile ft t d fs)) = ReadFile q fs"
proof -
  obtain i fs1 where o: "openTrunc t fs = (i, fs1)" by (cases "openTrunc t fs")
  note f = fillFile_viewReads [OF openTrunc_inv(1) [OF inv t o] t openTrunc_inv(2) [OF inv t o] q]
  note g = openTrunc_viewReads [OF inv t o q]
  show "viewReads q (snd (WriteFile ft t d fs)) = viewReads q fs"
    "ReadFile q (snd (WriteFile ft t d fs)) = ReadFile q fs"
    using f g o by (simp_all add: WriteFile_def split: option.split)
qed

lemma Rename_viewReads:
  assumes t: "isTmp t" "fsNames fs t = Some i" and q: "\<not> isTmp q"
  shows "viewReads q (snd (Rename ft t p fs)) \<subseteq> viewReads q fs \<union> (if q = p then {Some (fsData fs i)} else {})"
    and "ReadFile q (snd (Rename ft t p fs)) \<in> {ReadFile q fs} \<union> (if q = p then {Some (fsData fs i)} else {})"
  using t q by (auto simp: Rename_def setDir_def viewReads_def views_def ReadFile_def)

lemma SyncDir_viewReads:
  "viewReads q (snd (SyncDir ft fs)) \<subseteq> viewReads q fs" "ReadFile q (snd (SyncDir ft fs)) = ReadFile q fs"
  by (auto simp: SyncDir_def viewReads_def views_def ReadFile_def)

lemma storeWrite_calls:
  assumes "WriteFile ft (p @ ''.tmp'') d fs = (ok1, fs1)" and "Rename ft (p @ ''.tmp'') p fs1 = (ok2, fs2)"
  shows "storeWrite ft p d fs =
    (if \<not> mkdirOk ft then (False, fs) else if \<not> ok1 then (False, fs1)
     else if \<not> ok2 then (False, fs2) else SyncDir ft fs2)"
  using assms by (simp add: storeWrite_def Let_def split: bool.split)

lemma storeWrite_viewReads:
  assumes inv: "fsInv Q fs" and q: "\<not> isTmp q"
  shows "viewReads q (snd (storeWrite ft p d fs)) \<subseteq> viewReads q fs \<union> (if q = p then {Some d} else {})"
    and "ReadFile q (snd (storeWrite ft p d fs)) \<in> {ReadFile q fs} \<union> (if q = p then {Some d} else {})"
proof -
  let ?t = "p @ ''.tmp''"
  obtain ok1 fs1 where w: "WriteFile ft ?t d fs = (ok1, fs1)" by (cases "WriteFile ft ?t d fs")
  have w1: "viewReads q fs1 = viewReads q fs" "ReadFile q fs1 = ReadFile q fs"
    using WriteFile_viewReads [OF inv isTmp_tmp q, of ft p d] w by simp_all
  obtain ok2 fs2 where r: "Rename ft ?t p fs1 = (ok2, fs2)" by (cases "Rename ft ?t p fs1")
  have r2: "viewReads q fs2 \<subseteq> viewReads q fs1 \<union> (if q = p then {Some d} else {})"
    "ReadFile q fs2 \<in> {ReadFile q fs1} \<union> (if q = p then {Some d} else {})" if wok: ok1
  proof -
    obtain i where "fsNames fs1 ?t = Some i" "fsData fs1 i = d"
      using WriteFile_ok [of ft ?t d fs fs1] w wok by auto
    from Rename_viewReads [OF isTmp_tmp this(1) q, of ft p] this(2) r
    show "viewReads q fs2 \<subseteq> viewReads q fs1 \<union> (if q = p then {Some d} else {})"
      "ReadFile q fs2 \<in> {ReadFile q fs1} \<union> (if q = p then {Some d} else {})"
      by (simp_all split: if_splits)
  qed
  note eq = storeWrite_calls [OF w r]
  show "viewReads q (snd (storeWrite ft p d fs)) \<subseteq> viewReads q fs \<union> (if q = p then {Some d} else {})"
  proof -
    define N where "N = (if q = p then {Some d} else {})"
    have "viewReads q fs2 \<subseteq> viewReads q fs \<union> N" if ok1
      using r2(1) [OF that] w1 by (simp only: N_def)
    moreover have "viewReads q (snd (SyncDir ft fs2)) \<subseteq> viewReads q fs \<union> N" if ok1
      using order_trans [OF SyncDir_viewReads(1) r2(1) [OF that]] w1 by (simp only: N_def)
    ultimately show ?thesis unfolding eq N_def [symmetric] using w1 by simp
  qed
  show "ReadFile q (snd (storeWrite ft p d fs)) \<in> {ReadFile q fs} \<union> (if q = p then {Some d} else {})"
    unfolding eq using w1 r2(2) SyncDir_viewReads(2) [of q ft fs2] by (auto split: if_splits)
qed

lemma storeWrite_missing:
  assumes inv: "fsInv Q fs" and p: "\<not> isTmp p" and m: "ReadFile p (snd (storeWrite ft p d fs)) = None"
  shows "viewReads p (snd (storeWrite ft p d fs)) = viewReads p fs" and "ReadFile p fs = None"
proof -
  let ?t = "p @ ''.tmp''"
  obtain ok1 fs1 where w: "WriteFile ft ?t d fs = (ok1, fs1)" by (cases "WriteFile ft ?t d fs")
  have w1: "viewReads p fs1 = viewReads p fs" "ReadFile p fs1 = ReadFile p fs"
    using WriteFile_viewReads [OF inv isTmp_tmp p, of ft p d] w by simp_all
  obtain ok2 fs2 where r: "Rename ft ?t p fs1 = (ok2, fs2)" by (cases "Rename ft ?t p fs1")
  have "ok2 \<Longrightarrow> ReadFile p fs2 \<noteq> None" "\<not> ok2 \<Longrightarrow> fs2 = fs1"
    using r by (auto simp: Rename_def setDir_def ReadFile_def split: if_splits)
  moreover have "ReadFile p (snd (SyncDir ft fs2)) = ReadFile p fs2" by (rule SyncDir_viewReads)
  ultimately have "snd (storeWrite ft p d fs) = fs \<or> snd (storeWrite ft p d fs) = fs1"
    using m unfolding storeWrite_calls [OF w r]
    by (cases "mkdirOk ft"; cases ok1; cases ok2) simp_all
  then show "viewReads p (snd (storeWrite ft p d fs)) = viewReads p fs" "ReadFile p fs = None"
    using w1 m by metis+
qed

lemma storeWrite_ok_viewReads:
  assumes "storeWrite ft p d fs = (True, fs')" and "\<not> isTmp p"
  shows "viewReads p fs' = {Some d}"
  using storeWrite_ok [OF assms] by (simp add: viewReads_def views_def ReadFile_def)

lemma powerLoss_viewReads:
  assumes inv: "fsInv Q fs" and q: "\<not> isTmp q"
  shows "viewReads q (powerLoss k left fs) = {ReadFile q (powerLoss k left fs)}"
    and "ReadFile q (powerLoss k left fs) \<in> viewReads q fs"
proof -
  show "viewReads q (powerLoss k left fs) = {ReadFile q (powerLoss k left fs)}"
    by (simp add: viewReads_def powerLoss_views ReadFile_def)
  define d where "d = fsNames (powerLoss k left fs)"
  have d: "d \<in> set (views fs)" unfolding d_def by (rule powerLoss_view)
  have "map_option (fsData (powerLoss k left fs)) (d q) = map_option (fsData fs) (d q)"
    using fsInvD(2) [OF inv d _ q] by (cases "d q") (auto simp: powerLoss_def)
  then show "ReadFile q (powerLoss k left fs) \<in> viewReads q fs"
    using d unfolding ReadFile_def viewReads_def d_def [symmetric] by auto
qed

section \<open>An instance of the parameter\<close>

text \<open>
  A text for a cursor file that satisfies the two laws: the fields in hexadecimal, separated by
  commas. It stands in for the JSON text where a concrete run is evaluated.
\<close>

definition comma :: char where
  "comma = CHR '',''"

fun fieldsOf :: "string \<Rightarrow> string list" where
  "fieldsOf [] = [[]]"
| "fieldsOf (c # cs) =
     (if c = comma then [] # fieldsOf cs
      else (case fieldsOf cs of [] \<Rightarrow> [[c]] | f # fs \<Rightarrow> (c # f) # fs))"

definition textOf :: "cursorFile \<Rightarrow> string" where
  "textOf f =
     (let c = cfCursor f in
      SegmentUUID (CurPos c) @ comma # hexOf (PosSeq (CurPos c)) @ comma # hexOf (XseqHigh c) @ comma #
      hexOf (XseqEpoch c) @
      (case ResendFrom f of None \<Rightarrow> [] | Some p \<Rightarrow> comma # SegmentUUID p @ comma # hexOf (PosSeq p)))"

definition ofText :: "string \<Rightarrow> cursorFile option" where
  "ofText s =
     (case fieldsOf s of
        u # q # h # ep # rest \<Rightarrow>
          (case (hexValue 0 q, hexValue 0 h, hexValue 0 ep) of
             (Some q, Some h, Some ep) \<Rightarrow>
               (let c = \<lparr>CurPos = \<lparr>SegmentUUID = u, PosSeq = q\<rparr>, XseqHigh = h, XseqEpoch = ep\<rparr> in
                case rest of
                  [] \<Rightarrow> Some \<lparr>cfCursor = c, ResendFrom = None\<rparr>
                | [v, r] \<Rightarrow> (case hexValue 0 r of
                              None \<Rightarrow> None
                            | Some r \<Rightarrow> Some \<lparr>cfCursor = c, ResendFrom = Some \<lparr>SegmentUUID = v, PosSeq = r\<rparr>\<rparr>)
                | _ \<Rightarrow> None)
           | _ \<Rightarrow> None)
      | _ \<Rightarrow> None)"

definition commaText :: cursorJson where
  "commaText = \<lparr>marshalCursor = textOf, unmarshalCursor = ofText\<rparr>"

lemma fieldsOf_nonempty: "fieldsOf s \<noteq> []"
  by (induction s) (auto split: list.splits)

lemma fieldsOf_plain: "comma \<notin> set a \<Longrightarrow> fieldsOf a = [a]"
  by (induction a) auto

lemma fieldsOf_cons: "comma \<notin> set a \<Longrightarrow> fieldsOf (a @ comma # b) = a # fieldsOf b"
  by (induction a) (auto split: list.split)

lemma hexVal_comma: "hexVal comma = None" and hexVal_newline: "hexVal newline = None"
  by (simp_all add: hexVal_def comma_def newline_def of_char_of)

lemma hexOf_chars: "c \<in> set (hexOf n) \<Longrightarrow> hexVal c \<noteq> None"
proof (induction n rule: hexOf.induct)
  case (1 n)
  then show ?case
    by (subst (asm) hexOf.simps) (auto simp: hexVal_hexDigit split: if_splits)
qed

lemma comma_notin_hexOf: "comma \<notin> set (hexOf n)"
  using hexOf_chars hexVal_comma by metis

lemma uuidText_plain: "uuidText u \<Longrightarrow> comma \<notin> set u \<and> newline \<notin> set u"
proof -
  assume u: "uuidText u"
  have "comma \<noteq> CHR ''-''" "newline \<noteq> CHR ''-''" by (simp_all add: comma_def newline_def)
  moreover have "c = CHR ''-'' \<or> hexVal c \<noteq> None" if "c \<in> set u" for c
    using u that by (simp add: uuidText_def list_all_iff)
  ultimately show ?thesis using hexVal_comma hexVal_newline by metis
qed

lemma commaText_laws: "cursor_json_laws commaText"
  unfolding cursor_json_laws_def
proof (intro allI impI conjI)
  fix f assume f: "wfFile f"
  have u: "comma \<notin> set (SegmentUUID (CurPos (cfCursor f)))" "newline \<notin> set (SegmentUUID (CurPos (cfCursor f)))"
    using f uuidText_plain by (auto simp: wfFile_def wfCursor_def wfPos_def)
  have v: "comma \<notin> set (SegmentUUID p)" "newline \<notin> set (SegmentUUID p)" if "ResendFrom f = Some p" for p
    using f that uuidText_plain by (auto simp: wfFile_def wfPos_def)
  note parts = fieldsOf_cons fieldsOf_plain comma_notin_hexOf hexValue_hexOf u
  show "unmarshalCursor commaText (marshalCursor commaText f) = Some f"
    using v by (cases "ResendFrom f") (simp_all add: commaText_def textOf_def ofText_def Let_def parts)
  have "comma \<noteq> newline" by (simp add: comma_def newline_def)
  then show "newline \<notin> set (marshalCursor commaText f)"
    using v u newline_notin_hexOf
    by (cases "ResendFrom f") (auto simp: commaText_def textOf_def Let_def)
qed


section \<open>Properties\<close>

text \<open>
  C38. A state file is never half believed: what was encoded reads back exactly, and a file cut
  short anywhere, the empty file included, is refused.
\<close>

theorem cursor_file_cut_short:
  assumes "cursor_json_laws j" and "wfFile f"
  shows "decodeCursorFile j (encodeCursorFile j f) = Some f \<and>
    (n < length (encodeCursorFile j f) \<longrightarrow> decodeCursorFile j (take n (encodeCursorFile j f)) = None)"
proof (intro conjI impI decode_encodeFile [OF assms])
  assume n: "n < length (encodeCursorFile j f)"
  define body where "body = marshalCursor j f"
  define ck where "ck = hexOf (ChecksumIEEE body)"
  have nl: "newline \<notin> set body" "newline \<notin> set ck"
    using assms newline_notin_hexOf by (auto simp: cursor_json_laws_def body_def ck_def)
  have enc: "encodeCursorFile j f = body @ newline # ck @ [newline]"
    by (simp add: encodeCursorFile_def body_def ck_def Let_def)
  show "decodeCursorFile j (take n (encodeCursorFile j f)) = None"
  proof (cases "n \<le> length body")
    case True
    then have "newline \<notin> set (take n (encodeCursorFile j f))" using nl by (auto simp: enc dest: in_set_takeD)
    then show ?thesis by (simp add: decodeCursorFile_def CutLine_none)
  next
    case False
    define m where "m = n - length body - 1"
    have "take n (encodeCursorFile j f) = body @ newline # take m ck"
      using n False by (auto simp: enc m_def take_Cons' )
    moreover have "newline \<notin> set (take m ck)" using nl by (auto dest: in_set_takeD)
    ultimately show ?thesis by (simp add: decodeCursorFile_def CutLine_line [OF nl(1)] CutLine_none)
  qed
qed

theorem cursor_file_cut_short_witness:
  "let f = \<lparr>cfCursor = \<lparr>CurPos = noPosition, XseqHigh = 4, XseqEpoch = 7\<rparr>, ResendFrom = None\<rparr> in
   cursor_json_laws commaText \<and> wfFile f \<and>
   decodeCursorFile commaText (encodeCursorFile commaText f) = Some f \<and>
   decodeCursorFile commaText (take 0 (encodeCursorFile commaText f)) = None"
  using cursor_file_cut_short [OF commaText_laws,
      of "\<lparr>cfCursor = \<lparr>CurPos = noPosition, XseqHigh = 4, XseqEpoch = 7\<rparr>, ResendFrom = None\<rparr>" 0] commaText_laws
  by (simp add: wfFile_def wfCursor_def encodeCursorFile_def Let_def)

end
