(* ===== verification/Audit_Export.thy ===== *)
theory Audit_Export
  imports Audit_Cursor
begin

text \<open>
  The export sequence of an audit sink over the lives of its processes: opening, taking
  numbers, committing places and stopping, with processes that die, power losses and damaged
  state files in between. The lemmas show that no export sequence number is used twice in an
  epoch, that a crash leaves a hole of at most one block, and that a clean stop continues with
  the next number.
\<close>

section \<open>Definitions\<close>

subsection \<open>Runs of a sink's export sequence\<close>

text \<open>
  The state of a sink over the lives of its processes: the file system, the export sequence
  of the process that runs (\<open>None\<close> when none does), the numbers handed out so far with
  their epochs, newest first, and whether a file was ever altered from outside.

  A process opens the sequence, takes numbers, commits places and stops. At any moment the
  process may die or the power may fail, and a state file may be altered into something
  that does not read as a cursor. Numbers are taken while the count is below \<open>2^64\<close>, and
  epochs, which are seconds, are below it as well. When
  the reservation cannot be read at a start, the clock has moved past the epochs of the
  numbers used so far, which is what the code takes a new epoch from the clock for.
\<close>

record xState =
  xFs :: cfs
  xProc :: "exportSeq option"
  xUsed :: "(nat \<times> nat) list"
  xDamaged :: bool

definition xInit :: xState where
  "xInit = \<lparr>xFs = emptyFs, xProc = None, xUsed = [], xDamaged = False\<rparr>"

definition isRBOk :: "'a readBack \<Rightarrow> bool" where
  "isRBOk r = (case r of RBOk _ \<Rightarrow> True | _ \<Rightarrow> False)"

inductive exportStep :: "cursorJson \<Rightarrow> cursorStore \<Rightarrow> nat \<Rightarrow> xState \<Rightarrow> xState \<Rightarrow> bool"
  for j :: cursorJson and st :: cursorStore and reserve :: nat where
  xOpen:
    "xProc s = None \<Longrightarrow>
     (\<not> isRBOk (readFile j (reservationPath st) (xFs s)) \<Longrightarrow> \<forall>(ep, x) \<in> set (xUsed s). ep < now) \<Longrightarrow>
     now < 18446744073709551615 \<Longrightarrow>
     (\<And>f. readFile j (cursorPath st) (xFs s) = RBOk f \<Longrightarrow> XseqEpoch (cfCursor f) < 18446744073709551615) \<Longrightarrow>
     exportStep j st reserve s (s\<lparr>xProc := Some (fst (openExportSeq j st reserve now (xFs s)))\<rparr>)"
| xNext:
    "xProc s = Some e \<Longrightarrow> XseqHigh (esCur e) + esReserve e < 18446744073709551616 \<Longrightarrow>
     nextXseq j st ft e (xFs s) = (got, e', fs') \<Longrightarrow>
     exportStep j st reserve s
       (s\<lparr>xFs := fs', xProc := Some e',
          xUsed := (case got of None \<Rightarrow> xUsed s | Some x \<Rightarrow> (XseqEpoch (esCur e), x) # xUsed s)\<rparr>)"
| xCommit:
    "xProc s = Some e \<Longrightarrow> wfPos pos \<Longrightarrow> wfPos resend \<Longrightarrow>
     commitXseq j st ft pos resend e (xFs s) = (ok, e', fs') \<Longrightarrow>
     exportStep j st reserve s (s\<lparr>xFs := fs', xProc := Some e'\<rparr>)"
| xStop:
    "xProc s = Some e \<Longrightarrow> closeXseq j st ft1 ft2 e (xFs s) = (ok, e', fs') \<Longrightarrow>
     exportStep j st reserve s (s\<lparr>xFs := fs', xProc := None\<rparr>)"
| xKill: "exportStep j st reserve s (s\<lparr>xProc := None\<rparr>)"
| xPowerLoss: "exportStep j st reserve s (s\<lparr>xFs := powerLoss k left (xFs s), xProc := None\<rparr>)"
| xDamage:
    "path \<in> {cursorPath st, reservationPath st} \<Longrightarrow>
     pred_option (\<lambda>d. decodeCursorFile j d = None) c \<Longrightarrow>
     exportStep j st reserve s (s\<lparr>xFs := damage path c (xFs s), xDamaged := True\<rparr>)"

definition exportReach :: "cursorJson \<Rightarrow> cursorStore \<Rightarrow> nat \<Rightarrow> xState \<Rightarrow> bool" where
  "exportReach j st reserve s = (exportStep j st reserve)\<^sup>*\<^sup>* xInit s"

section \<open>Lemmas\<close>

subsection \<open>No number is used twice\<close>

lemma paths_apart [simp]:
  "cursorPath st \<noteq> reservationPath st" "\<not> isTmp (cursorPath st)" "\<not> isTmp (reservationPath st)"
proof -
  show "cursorPath st \<noteq> reservationPath st" by (simp add: cursorPath_def reservationPath_def)
  have *: "\<not> suffix ''.tmp'' (xs @ [a, b, c, d])" if "[a, b, c, d] \<noteq> ''.tmp''" for xs and a b c d :: char
    using that by (auto simp: suffix_def append_eq_append_conv2 Cons_eq_append_conv append_eq_Cons_conv)
  show "\<not> isTmp (cursorPath st)" "\<not> isTmp (reservationPath st)"
    using * [where xs = "csDir st @ ''/'' @ csName st @ ''.cu''" and a = "CHR ''r''" and b = "CHR ''s''"
        and c = "CHR ''o''" and d = "CHR ''r''"]
      * [where xs = "csDir st @ ''/'' @ csName st @ ''.''" and a = "CHR ''x''" and b = "CHR ''s''"
        and c = "CHR ''e''" and d = "CHR ''q''"]
    by (simp_all add: isTmp_def cursorPath_def reservationPath_def)
qed

text \<open>
  What every reservation a power loss can bring back has to say: it covers the numbers used
  in its epoch, and the block the running process still hands out from.
\<close>

definition covers :: "(nat \<times> nat) list \<Rightarrow> exportSeq option \<Rightarrow> SinkCursor \<Rightarrow> bool" where
  "covers used proc c \<longleftrightarrow>
     (\<forall>x. (XseqEpoch c, x) \<in> set used \<longrightarrow> x \<le> XseqHigh c) \<and>
     (\<forall>e. proc = Some e \<longrightarrow> XseqHigh (esCur e) < esReserved e \<longrightarrow> XseqEpoch c = XseqEpoch (esCur e) \<longrightarrow>
        esReserved e \<le> XseqHigh c)"

definition fileOk :: "cursorJson \<Rightarrow> cursorStore \<Rightarrow> (nat \<times> nat) list \<Rightarrow> exportSeq option \<Rightarrow> string \<Rightarrow> string \<Rightarrow> bool" where
  "fileOk j st used proc p d \<longleftrightarrow>
     p \<in> {cursorPath st, reservationPath st} \<longrightarrow>
     (\<forall>f. decodeCursorFile j d = Some f \<longrightarrow>
        wfFile f \<and> (p = reservationPath st \<longrightarrow> covers used proc (cfCursor f)))"

definition procOk :: "(nat \<times> nat) list \<Rightarrow> exportSeq \<Rightarrow> bool" where
  "procOk used e \<longleftrightarrow>
     (\<forall>x. (XseqEpoch (esCur e), x) \<in> set used \<longrightarrow> x \<le> XseqHigh (esCur e)) \<and>
     1 \<le> esReserve e \<and> wfCursor (esCur e) \<and> wfPos (esResend e)"

definition xInv :: "cursorJson \<Rightarrow> cursorStore \<Rightarrow> xState \<Rightarrow> bool" where
  "xInv j st s \<longleftrightarrow>
     fsInv (fileOk j st (xUsed s) (xProc s)) (xFs s) \<and> distinct (xUsed s) \<and>
     (\<forall>e. xProc s = Some e \<longrightarrow> procOk (xUsed s) e)"

lemma fileOk_cursor [simp]:
  "fileOk j st used proc (cursorPath st) d = (\<forall>f. decodeCursorFile j d = Some f \<longrightarrow> wfFile f)"
  by (simp add: fileOk_def)

lemma fileOk_reservation [simp]:
  "fileOk j st used proc (reservationPath st) d =
     (\<forall>f. decodeCursorFile j d = Some f \<longrightarrow> wfFile f \<and> covers used proc (cfCursor f))"
  by (simp add: fileOk_def)

lemma fsInv_dead: "fsInv (fileOk j st used proc) fs \<Longrightarrow> fsInv (fileOk j st used None) fs"
  by (erule fsInv_mono) (auto simp: fileOk_def covers_def)

lemma readFile_ok:
  assumes inv: "fsInv (fileOk j st used proc) fs" and p: "p \<in> {cursorPath st, reservationPath st}"
    and r: "readFile j p fs = RBOk f"
  shows "wfFile f" and "p = reservationPath st \<Longrightarrow> covers used proc (cfCursor f)"
proof -
  obtain i where i: "fsNames fs p = Some i" "decodeCursorFile j (fsData fs i) = Some f"
    using r by (auto simp: readFile_def ReadFile_def split: option.splits)
  have "\<not> isTmp p" using p by auto
  from fsInvD(3) [OF inv names_in_views i(1) this] i(2) p
  show "wfFile f" "p = reservationPath st \<Longrightarrow> covers used proc (cfCursor f)"
    by (auto simp: fileOk_def)
qed

lemma newEpoch_bounds:
  assumes "now < 18446744073709551615"
    and "\<And>f. cur = RBOk f \<Longrightarrow> wfFile f"
    and "\<And>f. cur = RBOk f \<Longrightarrow> XseqEpoch (cfCursor f) < 18446744073709551615"
  shows "now \<le> newEpoch cur now" and "newEpoch cur now < 18446744073709551616"
  using assms by (auto simp: newEpoch_def u64_def Let_def split: readBack.split)


lemma open_inv:
  assumes inv: "fsInv (fileOk j st used None) fs"
    and clock: "\<not> isRBOk (readFile j (reservationPath st) fs) \<Longrightarrow> \<forall>(ep, x) \<in> set used. ep < now"
    and now: "now < 18446744073709551615"
    and ep: "\<And>f. readFile j (cursorPath st) fs = RBOk f \<Longrightarrow> XseqEpoch (cfCursor f) < 18446744073709551615"
    and e: "e = fst (openExportSeq j st reserve now fs)"
  shows "procOk used e" and "esReserved e = XseqHigh (esCur e)"
proof -
  let ?c = "readFile j (cursorPath st) fs" and ?r = "readFile j (reservationPath st) fs"
  have wc: "\<And>f. ?c = RBOk f \<Longrightarrow> wfFile f" using readFile_ok(1) [OF inv, of "cursorPath st"] by simp
  have wr: "\<And>f. ?r = RBOk f \<Longrightarrow> wfFile f \<and> covers used None (cfCursor f)"
    using readFile_ok [OF inv, of "reservationPath st"] by simp
  show res: "esReserved e = XseqHigh (esCur e)"
    by (simp add: e openExportSeq_def Let_def split: prod.split)
  have rsv: "1 \<le> esReserve e"
    by (simp add: e openExportSeq_def Let_def DefaultExportReserve_def split: prod.split)
  have rsd: "wfPos (esResend e)"
    using wc by (auto simp: e openExportSeq_def Let_def wfFile_def split: prod.split readBack.split option.split)
  have pos: "CurPos (esCur e) = fst (openPlace ?c ?r)"
    by (simp add: e openExportSeq_def Let_def split: prod.split)
  have wpos: "wfPos (CurPos (esCur e))"
    unfolding pos using wc wr
    by (auto simp: openPlace_def wfFile_def wfCursor_def split: readBack.split)
  have he: "XseqHigh (esCur e) = (case ?r of RBOk r \<Rightarrow> XseqHigh (cfCursor r) | _ \<Rightarrow> 0)"
    "XseqEpoch (esCur e) = (case ?r of RBOk r \<Rightarrow> XseqEpoch (cfCursor r) | _ \<Rightarrow> newEpoch ?c now)"
    by (auto simp: e openExportSeq_def Let_def split: prod.split readBack.split)
  have nb: "now \<le> newEpoch ?c now" "newEpoch ?c now < 18446744073709551616"
    using newEpoch_bounds [OF now wc ep] by simp_all
  show "procOk used e"
  proof (cases "isRBOk ?r")
    case True
    then obtain r where r: "?r = RBOk r" by (auto simp: isRBOk_def split: readBack.splits)
    then show ?thesis
      using wr [OF r] rsv rsd wpos by (auto simp: procOk_def he covers_def wfCursor_def wfFile_def)
  next
    case False
    then have none: "XseqHigh (esCur e) = 0" "XseqEpoch (esCur e) = newEpoch ?c now"
      by (auto simp: he isRBOk_def split: readBack.splits)
    have "(newEpoch ?c now, x) \<notin> set used" for x
      using clock [OF False] nb(1) by fastforce
    then show ?thesis
      using rsv rsd wpos nb by (auto simp: procOk_def none wfCursor_def)
  qed
qed

lemma nextXseq_eq:
  assumes "XseqHigh (esCur e) + esReserve e < 18446744073709551616" and "1 \<le> esReserve e"
  shows "nextXseq j st ft e fs =
    (let c = esCur e; x = Suc (XseqHigh c) in
     if esReserved e < x then
       (case storeSave j ft (reservationPath st) (c\<lparr>XseqHigh := XseqHigh c + esReserve e\<rparr>) fs of
          (False, fs) \<Rightarrow> (None, e, fs)
        | (True, fs) \<Rightarrow>
            (Some x, e\<lparr>esCur := c\<lparr>XseqHigh := x\<rparr>, esReserved := XseqHigh c + esReserve e\<rparr>, fs))
     else (Some x, e\<lparr>esCur := c\<lparr>XseqHigh := x\<rparr>\<rparr>, fs))"
proof -
  have "u64 (Suc (XseqHigh (esCur e))) = Suc (XseqHigh (esCur e))"
    "u64 (XseqHigh (esCur e) + esReserve e) = XseqHigh (esCur e) + esReserve e"
    using assms by (simp_all add: u64_def)
  then show ?thesis by (simp add: nextXseq_def Let_def split: prod.split bool.split)
qed

lemma next_inv:
  assumes laws: "cursor_json_laws j"
    and inv: "fsInv (fileOk j st used (Some e)) fs" and dist: "distinct used" and pok: "procOk used e"
    and bound: "XseqHigh (esCur e) + esReserve e < 18446744073709551616"
    and nx: "nextXseq j st ft e fs = (got, e', fs')"
    and used': "used' = (case got of None \<Rightarrow> used | Some x \<Rightarrow> (XseqEpoch (esCur e), x) # used)"
  shows "fsInv (fileOk j st used' (Some e')) fs'" and "distinct used'" and "procOk used' e'"
proof -
  let ?c = "esCur e" and ?h = "XseqHigh (esCur e)" and ?E = "XseqEpoch (esCur e)"
  let ?x = "Suc ?h"
  have r1: "1 \<le> esReserve e" and wc: "wfCursor ?c" using pok by (auto simp: procOk_def)
  note nx = nx [unfolded nextXseq_eq [OF bound r1] Let_def]
  have ux: "\<And>y. (?E, y) \<in> set used \<Longrightarrow> y \<le> ?h" using pok by (simp add: procOk_def)
  have new: "(?E, ?x) \<notin> set used" using ux [of ?x] by auto
  define r where "r = ?c\<lparr>XseqHigh := ?h + esReserve e\<rparr>"
  have rsel: "XseqEpoch r = ?E" "XseqHigh r = ?h + esReserve e" by (simp_all add: r_def)
  have wr: "wfCursor r" using wc bound by (simp add: wfCursor_def r_def)
  define en where "en = e\<lparr>esCur := ?c\<lparr>XseqHigh := ?x\<rparr>\<rparr>"
  have pn: "procOk ((?E, ?x) # used) en" and pn': "procOk ((?E, ?x) # used) (en\<lparr>esReserved := ?h + esReserve e\<rparr>)"
    using pok ux bound by (auto simp: procOk_def en_def wfCursor_def le_SucI)
  show goal: "fsInv (fileOk j st used' (Some e')) fs'" and "distinct used'" and "procOk used' e'"
  proof (atomize (full), cases "?x > esReserved e")
    case False
    then have eq: "got = Some ?x" "e' = en" "fs' = fs"
      using nx by (auto simp: en_def)
    have lt: "?h < esReserved e" using False by simp
    have "fsInv (fileOk j st ((?E, ?x) # used) (Some en)) fs"
      by (rule fsInv_mono [OF inv]) (use lt in \<open>auto simp: fileOk_def covers_def en_def\<close>)
    then show "fsInv (fileOk j st used' (Some e')) fs' \<and> distinct used' \<and> procOk used' e'"
      using eq used' dist new pn by simp
  next
    case True
    obtain ok fs1 where sv: "storeSave j ft (reservationPath st) r fs = (ok, fs1)"
      by (cases "storeSave j ft (reservationPath st) r fs")
    have dec: "decodeCursorFile j (encodeCursor j r) = Some \<lparr>cfCursor = r, ResendFrom = None\<rparr>"
      by (rule decode_encodeCursor [OF laws wr])
    have q: "fileOk j st used (Some e) (reservationPath st) (encodeCursor j r)"
      using ux True wr by (auto simp: dec covers_def rsel wfFile_def trans_le_add1)
    have i1: "fsInv (fileOk j st used (Some e)) fs1"
      using storeWrite_inv [OF inv paths_apart(3) q, of ft] sv by (simp add: storeSave_def)
    show "fsInv (fileOk j st used' (Some e')) fs' \<and> distinct used' \<and> procOk used' e'"
    proof (cases ok)
      case False
      then have "got = None" "e' = e" "fs' = fs1"
        using nx True sv by (auto simp: r_def)
      then show ?thesis using i1 used' dist pok by simp
    next
      case ok: True
      have eq: "got = Some ?x" "e' = en\<lparr>esReserved := ?h + esReserve e\<rparr>" "fs' = fs1"
        using nx True sv ok by (auto simp: r_def en_def)
      have sw: "storeWrite ft (reservationPath st) (encodeCursor j r) fs = (True, fs1)"
        using sv ok by (simp add: storeSave_def)
      have one: "views fs1 = [fsNames fs1]" and rd: "ReadFile (reservationPath st) fs1 = Some (encodeCursor j r)"
        using storeWrite_ok [OF sw paths_apart(3)] by (simp_all add: views_def)
      have ok': "fsOk (fileOk j st ((?E, ?x) # used) (Some e')) fs1"
        unfolding fsOk_def one
      proof (intro ballI allI impI)
        fix d p i assume d: "d \<in> set [fsNames fs1]" and pi: "d p = Some i"
        note base = fsInvD [OF i1 names_in_views, of p i]
        have "fileOk j st ((?E, ?x) # used) (Some e') p (fsData fs1 i)" if "\<not> isTmp p"
        proof (cases "p = reservationPath st")
          case True
          then have "fsData fs1 i = encodeCursor j r" using rd d pi by (simp add: ReadFile_def)
          moreover have "covers ((?E, ?x) # used) (Some e') r"
            using ux r1 by (auto simp: covers_def rsel eq trans_le_add1 en_def)
          ultimately show ?thesis using True wr by (simp add: dec wfFile_def)
        next
          case False
          then show ?thesis using base that d pi by (auto simp: fileOk_def)
        qed
        then show "i < fsNext fs1 \<and> (\<not> isTmp p \<longrightarrow> fsClean fs1 i \<and> fileOk j st ((?E, ?x) # used) (Some e') p (fsData fs1 i))"
          using base d pi by simp
      qed
      have "fsInv (fileOk j st ((?E, ?x) # used) (Some e')) fs1"
        by (rule fsInv_same_dirs [OF i1 refl ok'])
      then show ?thesis using eq used' dist new pn' by simp
    qed
  qed
qed

lemma saveCursor_inv:
  assumes laws: "cursor_json_laws j" and inv: "fsInv (fileOk j st used proc) fs"
    and wf: "wfCursor c" "wfPos resend"
  shows "fsInv (fileOk j st used proc) (snd (saveCursor j ft st c resend fs))"
proof -
  let ?f = "\<lparr>cfCursor = c, ResendFrom = (if resend \<noteq> noPosition then Some resend else None)\<rparr>"
  have "wfFile ?f" using wf by (simp add: wfFile_def)
  then have "fileOk j st used proc (cursorPath st) (encodeCursorFile j ?f)"
    by (simp add: decode_encodeFile [OF laws])
  from storeWrite_inv [OF inv paths_apart(2) this, of ft] show ?thesis by (simp only: saveCursor_def)
qed

lemma close_inv:
  assumes laws: "cursor_json_laws j" and inv: "fsInv (fileOk j st used (Some e)) fs" and pok: "procOk used e"
    and cl: "closeXseq j st ft1 ft2 e fs = (ok, e', fs')"
  shows "fsInv (fileOk j st used None) fs'"
proof -
  have wf: "wfCursor (esCur e)" "wfPos (esResend e)" using pok by (simp_all add: procOk_def)
  obtain b fs1 where s1: "saveCursor j ft1 st (esCur e) (esResend e) fs = (b, fs1)"
    by (cases "saveCursor j ft1 st (esCur e) (esResend e) fs")
  have i1: "fsInv (fileOk j st used None) fs1"
    using saveCursor_inv [OF laws fsInv_dead [OF inv] wf, of ft1] s1 by simp
  have q: "fileOk j st used None (reservationPath st) (encodeCursor j (esCur e))"
    using pok by (simp add: decode_encodeCursor [OF laws] wf covers_def procOk_def wfFile_def)
  have "fs' = snd (storeSave j ft2 (reservationPath st) (esCur e) fs1)"
    using cl s1 by (auto simp: closeXseq_def Let_def split: prod.splits bool.splits)
  then show ?thesis using storeWrite_inv [OF i1 paths_apart(3) q, of ft2] by (simp add: storeSave_def)
qed

lemma xInv_init: "xInv j st xInit"
  by (simp add: xInv_def xInit_def emptyFs_def fsInv_def fsOk_def fsInj_def fsApart_def fsTmp_def views_def)

lemma exportStep_inv:
  assumes laws: "cursor_json_laws j" and step: "exportStep j st reserve s s'" and inv: "xInv j st s"
  shows "xInv j st s'"
  using step
proof cases
  case (xOpen now)
  have fi: "fsInv (fileOk j st (xUsed s) None) (xFs s)" using inv xOpen by (simp add: xInv_def)
  define e where "e = fst (openExportSeq j st reserve now (xFs s))"
  note o = open_inv [OF fi xOpen(3-5) e_def]
  have "fsInv (fileOk j st (xUsed s) (Some e)) (xFs s)"
    by (rule fsInv_mono [OF fi]) (auto simp: fileOk_def covers_def o(2))
  then show ?thesis using inv o(1) by (simp add: xInv_def xOpen(1) e_def)
next
  case (xNext e ft got e' fs')
  have "fsInv (fileOk j st (xUsed s) (Some e)) (xFs s)" "distinct (xUsed s)" "procOk (xUsed s) e"
    using inv xNext by (auto simp: xInv_def)
  from next_inv [OF laws this xNext(3,4) refl] show ?thesis by (simp add: xInv_def xNext(1))
next
  case (xCommit e pos resend ft ok e' fs')
  have i: "fsInv (fileOk j st (xUsed s) (Some e)) (xFs s)" and p: "procOk (xUsed s) e"
    using inv xCommit by (auto simp: xInv_def)
  define e1 where "e1 = e\<lparr>esCur := (esCur e)\<lparr>CurPos := pos\<rparr>, esResend := resend\<rparr>"
  have p1: "procOk (xUsed s) e1" using p xCommit(3,4) by (simp add: procOk_def e1_def wfCursor_def)
  have i1: "fsInv (fileOk j st (xUsed s) (Some e1)) (xFs s)"
    by (rule fsInv_mono [OF i]) (auto simp: fileOk_def covers_def e1_def)
  have eq: "e' = e1" "fs' = snd (saveCursor j ft st (esCur e1) (esResend e1) (xFs s))"
    using xCommit(5) by (auto simp: commitXseq_def Let_def e1_def split: prod.splits)
  have "fsInv (fileOk j st (xUsed s) (Some e1)) fs'"
    unfolding eq using p1 by (intro saveCursor_inv [OF laws i1]) (simp_all add: procOk_def)
  then show ?thesis using inv p1 by (simp add: xInv_def xCommit(1) eq(1))
next
  case (xStop e ft1 ft2 ok e' fs')
  have "fsInv (fileOk j st (xUsed s) (Some e)) (xFs s)" "procOk (xUsed s) e"
    using inv xStop by (auto simp: xInv_def)
  from close_inv [OF laws this xStop(3)] show ?thesis using inv by (simp add: xInv_def xStop(1))
next
  case xKill
  then show ?thesis using inv fsInv_dead by (auto simp: xInv_def)
next
  case (xPowerLoss k left)
  then show ?thesis using inv fsInv_dead powerLoss_inv by (auto simp: xInv_def)
next
  case (xDamage path c)
  have fi: "fsInv (fileOk j st (xUsed s) (xProc s)) (xFs s)" using inv by (simp add: xInv_def)
  have np: "\<not> isTmp path" using xDamage(2) by auto
  have "fsInv (fileOk j st (xUsed s) (xProc s)) (damage path c (xFs s))"
  proof (cases c)
    case None
    then show ?thesis using damage_inv_None [OF fi] by simp
  next
    case (Some d)
    then show ?thesis using xDamage(3) damage_inv_Some [OF fi np, of d] by (simp add: fileOk_def)
  qed
  then show ?thesis using inv by (simp add: xInv_def xDamage(1))
qed

lemma exportReach_init: "exportReach j st reserve xInit"
  by (simp add: exportReach_def)

lemma exportReach_step:
  "exportReach j st reserve s \<Longrightarrow> exportStep j st reserve s s' \<Longrightarrow> exportReach j st reserve s'"
  by (simp add: exportReach_def)

lemma exportReach_induct [consumes 1, case_names init step]:
  assumes "exportReach j st reserve s" and "P xInit"
    and "\<And>s s'. exportReach j st reserve s \<Longrightarrow> P s \<Longrightarrow> exportStep j st reserve s s' \<Longrightarrow> P s'"
  shows "P s"
  using assms(1)[unfolded exportReach_def]
  by (induction rule: rtranclp_induct) (auto intro: assms(2,3) simp: exportReach_def)

lemma exportReach_inv:
  assumes "cursor_json_laws j" and "exportReach j st reserve s"
  shows "xInv j st s"
  using assms(2) by (induction rule: exportReach_induct) (auto intro: xInv_init exportStep_inv [OF assms(1)])


subsection \<open>Holes and clean stops\<close>

text \<open>
  As long as no file was altered from outside, every reservation that may come back is
  readable, is of the one epoch in use, and is at most a block ahead of the count.
\<close>

definition asRead :: "cursorJson \<Rightarrow> string option \<Rightarrow> cursorFile readBack" where
  "asRead j v = (case v of None \<Rightarrow> RBMissing
                  | Some d \<Rightarrow> (case decodeCursorFile j d of None \<Rightarrow> RBCorrupt | Some c \<Rightarrow> RBOk c))"

lemma readFile_asRead: "readFile j p fs = asRead j (ReadFile p fs)"
  by (simp add: readFile_def asRead_def)

definition within :: "cursorJson \<Rightarrow> nat \<Rightarrow> nat \<Rightarrow> string option \<Rightarrow> bool" where
  "within j E lim v =
     (case asRead j v of
        RBMissing \<Rightarrow> True
      | RBCorrupt \<Rightarrow> False
      | RBOk f \<Rightarrow> XseqEpoch (cfCursor f) = E \<and> XseqHigh (cfCursor f) \<le> lim)"

definition blockSize :: "nat \<Rightarrow> nat" where
  "blockSize reserve = (if reserve = 0 then DefaultExportReserve else reserve)"

definition aliveCont :: "cursorJson \<Rightarrow> nat \<Rightarrow> nat \<Rightarrow> string option set \<Rightarrow> string option \<Rightarrow> exportSeq \<Rightarrow> bool" where
  "aliveCont j R E V v e \<longleftrightarrow>
     XseqEpoch (esCur e) = E \<and> esReserve e = R \<and> XseqHigh (esCur e) \<le> esReserved e \<and>
     (XseqHigh (esCur e) < esReserved e \<longrightarrow> None \<notin> V) \<and>
     (\<forall>w \<in> V. within j E (XseqHigh (esCur e) + R) w) \<and>
     (\<forall>f. asRead j v = RBOk f \<longrightarrow> esReserved e \<le> XseqHigh (cfCursor f))"

definition deadCont :: "cursorJson \<Rightarrow> nat \<Rightarrow> nat \<Rightarrow> string option set \<Rightarrow> string option \<Rightarrow> bool" where
  "deadCont j R E V v \<longleftrightarrow>
     (\<forall>f. asRead j v = RBOk f \<longrightarrow> (\<forall>w \<in> V. within j E (XseqHigh (cfCursor f) + R) w)) \<and>
     asRead j v \<noteq> RBCorrupt"

definition xCont :: "cursorJson \<Rightarrow> cursorStore \<Rightarrow> nat \<Rightarrow> xState \<Rightarrow> bool" where
  "xCont j st R s \<longleftrightarrow>
     (\<exists>E. (\<forall>(ep, x) \<in> set (xUsed s). ep = E) \<and>
        (xUsed s \<noteq> [] \<longrightarrow> None \<notin> viewReads (reservationPath st) (xFs s)) \<and>
        (ReadFile (reservationPath st) (xFs s) = None \<longrightarrow> viewReads (reservationPath st) (xFs s) = {None}) \<and>
        (case xProc s of
           None \<Rightarrow> deadCont j R E (viewReads (reservationPath st) (xFs s)) (ReadFile (reservationPath st) (xFs s))
         | Some e \<Rightarrow> aliveCont j R E (viewReads (reservationPath st) (xFs s)) (ReadFile (reservationPath st) (xFs s)) e))"

lemma within_mono: "within j E a v \<Longrightarrow> a \<le> b \<Longrightarrow> within j E b v"
  by (auto simp: within_def split: readBack.splits)

lemma within_None [simp]: "within j E a None"
  by (simp add: within_def asRead_def)

lemma asRead_missing [simp]: "asRead j None = RBMissing"
  by (simp add: asRead_def)

lemma asRead_None [simp]: "asRead j v = RBMissing \<longleftrightarrow> v = None"
  by (auto simp: asRead_def split: option.splits)

lemma asRead_encode [simp]:
  "cursor_json_laws j \<Longrightarrow> wfCursor c \<Longrightarrow>
   asRead j (Some (encodeCursor j c)) = RBOk \<lparr>cfCursor = c, ResendFrom = None\<rparr>"
  by (simp add: asRead_def decode_encodeCursor)

lemma within_encode:
  "cursor_json_laws j \<Longrightarrow> wfCursor c \<Longrightarrow>
   within j E lim (Some (encodeCursor j c)) \<longleftrightarrow> XseqEpoch c = E \<and> XseqHigh c \<le> lim"
  by (simp add: within_def)

lemma aliveContD:
  assumes "aliveCont j R E V v e"
  shows "XseqEpoch (esCur e) = E" and "esReserve e = R" and "XseqHigh (esCur e) \<le> esReserved e"
    and "XseqHigh (esCur e) < esReserved e \<Longrightarrow> None \<notin> V"
    and "w \<in> V \<Longrightarrow> within j E (XseqHigh (esCur e) + R) w"
    and "asRead j v = RBOk f \<Longrightarrow> esReserved e \<le> XseqHigh (cfCursor f)"
  using assms by (simp_all add: aliveCont_def)

lemma aliveCont_dead:
  assumes a: "aliveCont j R E V v e" and v: "v \<in> V"
  shows "deadCont j R E V v"
  unfolding deadCont_def
proof (intro conjI allI impI ballI)
  fix f w assume f: "asRead j v = RBOk f" and w: "w \<in> V"
  have "XseqHigh (esCur e) + R \<le> XseqHigh (cfCursor f) + R"
    using aliveContD(3) [OF a] aliveContD(6) [OF a f] by simp
  then show "within j E (XseqHigh (cfCursor f) + R) w" by (rule within_mono [OF aliveContD(5) [OF a w]])
next
  show "asRead j v \<noteq> RBCorrupt" using aliveContD(5) [OF a v] by (auto simp: within_def)
qed

lemma deadCont_single:
  assumes "deadCont j R E V v" and "w \<in> V" and "v = None \<longrightarrow> V = {None}"
  shows "deadCont j R E {w} w"
proof (cases "asRead j v")
  case (RBOk f)
  then have "within j E (XseqHigh (cfCursor f) + R) w" using assms by (auto simp: deadCont_def)
  then show ?thesis by (auto simp: deadCont_def within_def split: readBack.splits)
next
  case RBMissing
  then show ?thesis using assms by (simp add: deadCont_def)
next
  case RBCorrupt
  then show ?thesis using assms by (auto simp: deadCont_def)
qed


lemma exportStep_damaged: "exportStep j st reserve s s' \<Longrightarrow> xDamaged s \<Longrightarrow> xDamaged s'"
  by (erule exportStep.cases) auto

lemma open_cont:
  assumes dead: "deadCont j R E V v" and v: "v \<in> V" and V: "v = None \<longrightarrow> V = {None}"
    and r: "readFile j (reservationPath st) fs = asRead j v" and e: "e = fst (openExportSeq j st reserve now fs)"
    and R: "R = blockSize reserve"
  shows "aliveCont j R (XseqEpoch (esCur e)) V v e" and "v \<noteq> None \<Longrightarrow> XseqEpoch (esCur e) = E"
proof -
  have sel: "esReserve e = R" "esReserved e = XseqHigh (esCur e)"
    "XseqHigh (esCur e) = (case asRead j v of RBOk r \<Rightarrow> XseqHigh (cfCursor r) | _ \<Rightarrow> 0)"
    "\<And>f. asRead j v = RBOk f \<Longrightarrow> XseqEpoch (esCur e) = XseqEpoch (cfCursor f)"
    unfolding e R openExportSeq_def Let_def r blockSize_def
    by (auto split: prod.split readBack.split)
  have E: "XseqEpoch (cfCursor f) = E" if "asRead j v = RBOk f" for f
    using dead v that by (auto simp: deadCont_def within_def)
  show ep: "v \<noteq> None \<Longrightarrow> XseqEpoch (esCur e) = E"
    using dead sel(4) E by (cases "asRead j v") (auto simp: deadCont_def)
  show "aliveCont j R (XseqEpoch (esCur e)) V v e"
  proof (cases "asRead j v")
    case (RBOk f)
    then show ?thesis using dead sel E by (auto simp: aliveCont_def deadCont_def)
  next
    case RBMissing
    then show ?thesis using V sel by (auto simp: aliveCont_def)
  next
    case RBCorrupt
    then show ?thesis using dead by (auto simp: deadCont_def)
  qed
qed

lemma exportStep_cont:
  assumes laws: "cursor_json_laws j" and step: "exportStep j st reserve s s'" and inv: "xInv j st s"
    and cont: "xCont j st (blockSize reserve) s" and nd: "\<not> xDamaged s'"
  shows "xCont j st (blockSize reserve) s'"
proof -
  let ?R = "blockSize reserve" and ?p = "reservationPath st"
  let ?V = "viewReads ?p (xFs s)" and ?v = "ReadFile ?p (xFs s)"
  have vV: "?v \<in> ?V" by (rule ReadFile_viewReads)
  obtain E where E: "\<forall>(ep, x) \<in> set (xUsed s). ep = E" and used: "xUsed s \<noteq> [] \<longrightarrow> None \<notin> ?V"
    and none: "?v = None \<longrightarrow> ?V = {None}"
    and pr: "case xProc s of None \<Rightarrow> deadCont j ?R E ?V ?v | Some e \<Rightarrow> aliveCont j ?R E ?V ?v e"
    using cont by (auto simp: xCont_def)
  have dead: "deadCont j ?R E ?V ?v"
    using pr aliveCont_dead [OF _ vV] by (auto split: option.splits)
  show ?thesis
    using step
  proof cases
    case (xOpen now)
    define e where "e = fst (openExportSeq j st reserve now (xFs s))"
    note oc = open_cont [OF dead vV none readFile_asRead e_def refl]
    have "\<forall>(ep, x) \<in> set (xUsed s). ep = XseqEpoch (esCur e)"
      using E used none vV oc(2) by (cases "?v = None") auto
    then show ?thesis using oc(1) used none
      unfolding xCont_def by (auto simp: xOpen(1) e_def [symmetric] intro!: exI [of _ "XseqEpoch (esCur e)"])
  next
    case (xNext e ft got e' fs')
    have al: "aliveCont j ?R E ?V ?v e" using pr xNext by simp
    have fi: "fsInv (fileOk j st (xUsed s) (Some e)) (xFs s)" and pok: "procOk (xUsed s) e"
      using inv xNext by (auto simp: xInv_def)
    define r where "r = (esCur e)\<lparr>XseqHigh := XseqHigh (esCur e) + esReserve e\<rparr>"
    have r: "XseqEpoch r = E" "XseqHigh r = XseqHigh (esCur e) + ?R" "wfCursor r" "1 \<le> ?R"
      using al pok xNext(3) by (auto simp: r_def aliveCont_def procOk_def wfCursor_def)
    note nx = xNext(4) [unfolded nextXseq_eq [OF xNext(3) pok [unfolded procOk_def, THEN conjunct2, THEN conjunct1]] Let_def]
    let ?V' = "viewReads ?p fs'" and ?v' = "ReadFile ?p fs'"
    have "aliveCont j ?R E ?V' ?v' e' \<and> (?v' = None \<longrightarrow> ?V' = {None}) \<and>
        ((got \<noteq> None \<or> xUsed s \<noteq> []) \<longrightarrow> None \<notin> ?V')"
    proof (cases "esReserved e < Suc (XseqHigh (esCur e))")
      case False
      then have "got = Some (Suc (XseqHigh (esCur e)))" "fs' = xFs s"
        "e' = e\<lparr>esCur := (esCur e)\<lparr>XseqHigh := Suc (XseqHigh (esCur e))\<rparr>\<rparr>"
        using nx by auto
      then show ?thesis using al False none by (auto simp: aliveCont_def intro: within_mono)
    next
      case True
      obtain ok fs1 where sw: "storeWrite ft ?p (encodeCursor j r) (xFs s) = (ok, fs1)"
        by (cases "storeWrite ft ?p (encodeCursor j r) (xFs s)")
      note vr = storeWrite_viewReads [OF fi paths_apart(3) [of st], of ft ?p "encodeCursor j r", unfolded sw, simplified]
      note ms = storeWrite_missing [OF fi paths_apart(3) [of st], of ft "encodeCursor j r", unfolded sw, simplified]
      have enc: "within j E (XseqHigh (esCur e) + ?R) (Some (encodeCursor j r))"
        "asRead j (Some (encodeCursor j r)) = RBOk \<lparr>cfCursor = r, ResendFrom = None\<rparr>"
        using r laws by (simp_all add: within_encode)
      show ?thesis
      proof (cases ok)
        case ok: False
        then have eq: "got = None" "e' = e" "fs' = fs1"
          using nx True sw by (auto simp: storeSave_def r_def)
        have "aliveCont j ?R E (viewReads ?p fs1) (ReadFile ?p fs1) e"
          using al vr enc r True by (auto simp: aliveCont_def)
        then show ?thesis using eq used none ms vr by auto
      next
        case ok: True
        then have eq: "got = Some (Suc (XseqHigh (esCur e)))" "fs' = fs1"
          "e' = e\<lparr>esCur := (esCur e)\<lparr>XseqHigh := Suc (XseqHigh (esCur e))\<rparr>, esReserved := XseqHigh r\<rparr>"
          using nx True sw by (auto simp: storeSave_def r_def)
        have one: "viewReads ?p fs1 = {Some (encodeCursor j r)}" "ReadFile ?p fs1 = Some (encodeCursor j r)"
          using storeWrite_ok_viewReads [OF _ paths_apart(3)] storeWrite_ok(2) [OF _ paths_apart(3)] sw ok by simp_all
        show ?thesis
          using al r enc within_mono [OF enc(1), of "Suc (XseqHigh (esCur e)) + ?R"]
          by (auto simp: eq one aliveCont_def)
      qed
    qed
    moreover have "\<forall>(ep, x) \<in> set (xUsed s'). ep = E"
      using E al by (auto simp: xNext(1) aliveCont_def split: option.split)
    ultimately show ?thesis
      unfolding xCont_def by (intro exI [of _ E]) (auto simp: xNext(1) split: option.splits)
  next
    case (xCommit e pos resend ft ok e' fs')
    have al: "aliveCont j ?R E ?V ?v e" using pr xCommit by simp
    have fi: "fsInv (fileOk j st (xUsed s) (Some e)) (xFs s)" using inv xCommit by (auto simp: xInv_def)
    have eq: "fs' = snd (saveCursor j ft st ((esCur e)\<lparr>CurPos := pos\<rparr>) resend (xFs s))"
      "e' = e\<lparr>esCur := (esCur e)\<lparr>CurPos := pos\<rparr>, esResend := resend\<rparr>"
      using xCommit(5) by (auto simp: commitXseq_def Let_def split: prod.splits)
    note vr = storeWrite_viewReads [OF fi paths_apart(3) [of st], of ft "cursorPath st"]
    have V': "viewReads ?p fs' \<subseteq> ?V" "ReadFile ?p fs' = ?v"
      using vr paths_apart(1) [of st] unfolding eq(1) saveCursor_def by auto
    have "?v = None \<longrightarrow> viewReads ?p fs' = {None}"
      using none V' ReadFile_viewReads [of ?p fs'] by auto
    moreover have "aliveCont j ?R E (viewReads ?p fs') ?v e'"
      using al V' by (auto simp: aliveCont_def eq(2))
    ultimately show ?thesis
      using E used V' unfolding xCont_def by (intro exI [of _ E]) (auto simp: xCommit(1))
  next
    case (xStop e ft1 ft2 ok e' fs')
    have al: "aliveCont j ?R E ?V ?v e" using pr xStop by simp
    have fi: "fsInv (fileOk j st (xUsed s) (Some e)) (xFs s)" and pok: "procOk (xUsed s) e"
      using inv xStop by (auto simp: xInv_def)
    have wf: "wfCursor (esCur e)" "wfPos (esResend e)" using pok by (auto simp: procOk_def)
    define fs1 where "fs1 = snd (saveCursor j ft1 st (esCur e) (esResend e) (xFs s))"
    have fi1: "fsInv (fileOk j st (xUsed s) (Some e)) fs1"
      unfolding fs1_def by (rule saveCursor_inv [OF laws fi wf])
    have V1: "viewReads ?p fs1 \<subseteq> ?V" "ReadFile ?p fs1 = ?v"
      using storeWrite_viewReads [OF fi paths_apart(3) [of st], of ft1 "cursorPath st"] paths_apart(1) [of st]
      unfolding fs1_def saveCursor_def by auto
    have eq: "fs' = snd (storeWrite ft2 ?p (encodeCursor j (esCur e)) fs1)"
      using xStop(3) by (auto simp: closeXseq_def fs1_def storeSave_def Let_def split: prod.splits bool.splits)
    note vr = storeWrite_viewReads [OF fi1 paths_apart(3) [of st], of ft2 ?p "encodeCursor j (esCur e)", folded eq, simplified]
    note ms = storeWrite_missing [OF fi1 paths_apart(3) [of st], of ft2 "encodeCursor j (esCur e)", folded eq]
    have enc: "within j E (XseqHigh (esCur e) + ?R) (Some (encodeCursor j (esCur e)))"
      "asRead j (Some (encodeCursor j (esCur e))) = RBOk \<lparr>cfCursor = esCur e, ResendFrom = None\<rparr>"
      using al laws wf by (simp_all add: within_encode aliveCont_def)
    have all: "within j E (XseqHigh (esCur e) + ?R) w" if "w \<in> viewReads ?p fs'" for w
      using that vr(1) V1(1) al enc(1) by (auto simp: aliveCont_def)
    have "XseqHigh (esCur e) \<le> XseqHigh (cfCursor f)" if "asRead j (ReadFile ?p fs') = RBOk f" for f
      using that vr(2) V1(2) al enc(2) by (auto simp: aliveCont_def)
    then have "within j E (XseqHigh (cfCursor f) + ?R) w"
      if "asRead j (ReadFile ?p fs') = RBOk f" "w \<in> viewReads ?p fs'" for f w
      using within_mono [OF all [OF that(2)]] that(1) by simp
    then have "deadCont j ?R E (viewReads ?p fs') (ReadFile ?p fs')"
      using all [OF ReadFile_viewReads] by (auto simp: deadCont_def within_def)
    moreover have "ReadFile ?p fs' = None \<longrightarrow> viewReads ?p fs' = {None}"
      using ms V1 none ReadFile_viewReads [of ?p fs'] by auto
    ultimately show ?thesis
      using E used vr(1) V1(1) unfolding xCont_def by (intro exI [of _ E]) (auto simp: xStop(1))
  next
    case xKill
    then show ?thesis using E used none dead unfolding xCont_def by (intro exI [of _ E]) auto
  next
    case (xPowerLoss k left)
    have fi: "fsInv (fileOk j st (xUsed s) (xProc s)) (xFs s)" using inv by (simp add: xInv_def)
    note pl = powerLoss_viewReads [OF fi paths_apart(3) [of st], of k left]
    have "deadCont j ?R E {ReadFile ?p (powerLoss k left (xFs s))} (ReadFile ?p (powerLoss k left (xFs s)))"
      by (rule deadCont_single [OF dead pl(2) none])
    then show ?thesis
      using E used pl unfolding xCont_def by (intro exI [of _ E]) (auto simp: xPowerLoss)
  next
    case (xDamage path c)
    then show ?thesis using nd by simp
  qed
qed


lemma exportReach_cont:
  assumes laws: "cursor_json_laws j" and "exportReach j st reserve s" and "\<not> xDamaged s"
  shows "xCont j st (blockSize reserve) s"
  using assms(2,3)
proof (induction rule: exportReach_induct)
  case init
  show ?case
    by (simp add: xCont_def xInit_def emptyFs_def viewReads_def views_def ReadFile_def deadCont_def)
next
  case (step s s')
  then show ?case
    using exportStep_cont [OF laws _ exportReach_inv [OF laws]] exportStep_damaged by blast
qed

text \<open>The reservation a crash finds: readable, of the same epoch, and within one block of the count.\<close>

lemma crash_reservation:
  assumes laws: "cursor_json_laws j" and reach: "exportReach j st reserve s" and nd: "\<not> xDamaged s"
    and e: "xProc s = Some e" and used: "xUsed s = (XseqEpoch (esCur e), XseqHigh (esCur e)) # older"
    and fs': "fs' = xFs s \<or> fs' = powerLoss k left (xFs s)"
  obtains f where "readFile j (reservationPath st) fs' = RBOk f"
    and "XseqEpoch (cfCursor f) = XseqEpoch (esCur e)" and "XseqHigh (esCur e) \<le> XseqHigh (cfCursor f)"
    and "XseqHigh (cfCursor f) \<le> XseqHigh (esCur e) + blockSize reserve"
proof -
  let ?p = "reservationPath st"
  have fi: "fsInv (fileOk j st (xUsed s) (Some e)) (xFs s)"
    using exportReach_inv [OF laws reach] e by (simp add: xInv_def)
  obtain E where V: "None \<notin> viewReads ?p (xFs s)"
    and al: "aliveCont j (blockSize reserve) E (viewReads ?p (xFs s)) (ReadFile ?p (xFs s)) e"
    using exportReach_cont [OF laws reach nd] e used by (auto simp: xCont_def)
  have rd: "ReadFile ?p fs' \<in> viewReads ?p (xFs s)"
    using fs' ReadFile_viewReads powerLoss_viewReads(2) [OF fi paths_apart(3)] by auto
  have fi': "fsInv (fileOk j st (xUsed s) None) fs'"
    using fs' fsInv_dead [OF fi] powerLoss_inv [OF fsInv_dead [OF fi]] by auto
  have "within j E (XseqHigh (esCur e) + blockSize reserve) (ReadFile ?p fs')"
    by (rule aliveContD(5) [OF al rd])
  moreover have "ReadFile ?p fs' \<noteq> None" using rd V by metis
  ultimately obtain f where f: "readFile j ?p fs' = RBOk f" "XseqEpoch (cfCursor f) = E"
    "XseqHigh (cfCursor f) \<le> XseqHigh (esCur e) + blockSize reserve"
    by (auto simp: within_def readFile_asRead split: readBack.splits)
  have "covers (xUsed s) None (cfCursor f)" using readFile_ok(2) [OF fi' _ f(1)] by simp
  then have "XseqHigh (esCur e) \<le> XseqHigh (cfCursor f)"
    using f(2) aliveContD(1) [OF al] used by (auto simp: covers_def)
  then show thesis using that f aliveContD(1) [OF al] by metis
qed

text \<open>When no file operation fails, the next number is handed out.\<close>

lemma storeWrite_allOk: "fst (storeWrite allOk p d fs)"
  by (simp add: storeWrite_def allOk_def WriteFile_def openTrunc_def fillFile_def Rename_def setDir_def
      SyncDir_def Let_def split: option.split)

lemma next_allOk:
  assumes "XseqHigh (esCur e) + esReserve e < 18446744073709551616" and "1 \<le> esReserve e"
  shows "\<exists>e' fs'. nextXseq j st allOk e fs = (Some (Suc (XseqHigh (esCur e))), e', fs') \<and>
    esCur e' = (esCur e)\<lparr>XseqHigh := Suc (XseqHigh (esCur e))\<rparr> \<and> esReserve e' = esReserve e"
proof -
  have "storeSave j allOk p c fs \<noteq> (False, y)" for p c y
    by (metis fst_conv storeSave_def storeWrite_allOk)
  then show ?thesis
    unfolding nextXseq_eq [OF assms] by (auto simp: Let_def split: prod.split bool.split)
qed

text \<open>After a stop whose saves succeeded, both files read back, also when the power is lost next.\<close>

lemma close_reads:
  assumes laws: "cursor_json_laws j" and inv: "fsInv (fileOk j st used (Some e)) fs" and pok: "procOk used e"
    and cl: "closeXseq j st ft1 ft2 e fs = (True, e', fs')"
    and fs2: "fs2 = fs' \<or> fs2 = powerLoss k left fs'"
  shows "readFile j (cursorPath st) fs2 =
      RBOk \<lparr>cfCursor = esCur e, ResendFrom = (if esResend e \<noteq> noPosition then Some (esResend e) else None)\<rparr>"
    and "readFile j (reservationPath st) fs2 = RBOk \<lparr>cfCursor = esCur e, ResendFrom = None\<rparr>"
proof -
  have wf: "wfCursor (esCur e)" "wfPos (esResend e)" using pok by (simp_all add: procOk_def)
  let ?f = "\<lparr>cfCursor = esCur e, ResendFrom = (if esResend e \<noteq> noPosition then Some (esResend e) else None)\<rparr>"
  obtain fs1 where s1: "storeWrite ft1 (cursorPath st) (encodeCursorFile j ?f) fs = (True, fs1)"
    and s2: "storeWrite ft2 (reservationPath st) (encodeCursor j (esCur e)) fs1 = (True, fs')"
    using cl by (auto simp: closeXseq_def saveCursor_def storeSave_def Let_def split: prod.splits bool.splits)
  have fi1: "fsInv (fileOk j st used None) fs1"
    using saveCursor_inv [OF laws fsInv_dead [OF inv] wf, of ft1] s1 by (simp add: saveCursor_def)
  have fi': "fsInv (fileOk j st used None) fs'" by (rule close_inv [OF laws inv pok cl])
  have one: "viewReads p fs' = {ReadFile p fs'}" for p
    using storeWrite_ok(1) [OF s2 paths_apart(3)] by (simp add: viewReads_def views_def ReadFile_def)
  have same: "ReadFile p fs2 = ReadFile p fs'" if "\<not> isTmp p" for p
    using fs2 powerLoss_viewReads(2) [OF fi' that, of k left] one [of p] by auto
  have "ReadFile (cursorPath st) fs' = Some (encodeCursorFile j ?f)"
    using storeWrite_other [OF fi1 paths_apart(2), of st "reservationPath st" ft2 "encodeCursor j (esCur e)"]
      storeWrite_ok(2) [OF s1 paths_apart(2)] s2 by simp
  moreover have "ReadFile (reservationPath st) fs' = Some (encodeCursor j (esCur e))"
    by (rule storeWrite_ok(2) [OF s2 paths_apart(3)])
  moreover have "wfFile ?f" using wf by (simp add: wfFile_def)
  ultimately show "readFile j (cursorPath st) fs2 = RBOk ?f"
    "readFile j (reservationPath st) fs2 = RBOk \<lparr>cfCursor = esCur e, ResendFrom = None\<rparr>"
    by (simp_all add: readFile_def same decode_encodeFile [OF laws] decode_encodeCursor [OF laws wf(1)])
qed

section \<open>Example runs\<close>

text \<open>The steps of a process as functions of the state, for the runs below.\<close>

definition doOpen :: "cursorJson \<Rightarrow> cursorStore \<Rightarrow> nat \<Rightarrow> nat \<Rightarrow> xState \<Rightarrow> xState" where
  "doOpen j st reserve now s = s\<lparr>xProc := Some (fst (openExportSeq j st reserve now (xFs s)))\<rparr>"

definition doNext :: "cursorJson \<Rightarrow> cursorStore \<Rightarrow> fsFate \<Rightarrow> xState \<Rightarrow> xState" where
  "doNext j st ft s =
     (case xProc s of
        None \<Rightarrow> s
      | Some e \<Rightarrow>
          (let (got, e', fs') = nextXseq j st ft e (xFs s)
           in s\<lparr>xFs := fs', xProc := Some e',
                xUsed := (case got of None \<Rightarrow> xUsed s | Some x \<Rightarrow> (XseqEpoch (esCur e), x) # xUsed s)\<rparr>))"

definition siem :: cursorStore where
  "siem = \<lparr>csDir = ''sink'', csName = ''siem''\<rparr>"

definition sentOne :: xState where
  "sentOne = doNext commaText siem allOk (doOpen commaText siem 4 7 xInit)"

definition sentTwo :: xState where
  "sentTwo = doNext commaText siem allOk sentOne"

lemma doOpen_step:
  "xProc s = None \<Longrightarrow> xUsed s = [] \<Longrightarrow> now < 18446744073709551615 \<Longrightarrow>
   readFile j (cursorPath st) (xFs s) = RBMissing \<Longrightarrow> exportStep j st reserve s (doOpen j st reserve now s)"
  unfolding doOpen_def by (rule xOpen) auto

lemma doNext_step:
  "xProc s = Some e \<Longrightarrow> XseqHigh (esCur e) + esReserve e < 18446744073709551616 \<Longrightarrow>
   exportStep j st reserve s (doNext j st ft s)"
  unfolding doNext_def by (auto split: prod.split intro!: xNext)

lemma doNext_allOk:
  assumes "xProc s = Some e" and "XseqHigh (esCur e) + esReserve e < 18446744073709551616" and "1 \<le> esReserve e"
  shows "xUsed (doNext j st allOk s) = (XseqEpoch (esCur e), Suc (XseqHigh (esCur e))) # xUsed s \<and>
    xDamaged (doNext j st allOk s) = xDamaged s \<and>
    (\<exists>e'. xProc (doNext j st allOk s) = Some e' \<and>
       esCur e' = (esCur e)\<lparr>XseqHigh := Suc (XseqHigh (esCur e))\<rparr> \<and> esReserve e' = esReserve e)"
  using next_allOk [OF assms(2,3), of j st "xFs s"] assms(1) by (auto simp: doNext_def)

text \<open>A sink that opened its sequence at second 7 with blocks of four numbers and sent two records.\<close>

lemma sent_runs:
  shows "exportReach commaText siem 4 sentTwo" and "xUsed sentTwo = [(7, 2), (7, 1)]"
    and "\<not> xDamaged sentTwo"
    and "\<exists>e. xProc sentTwo = Some e \<and> XseqEpoch (esCur e) = 7 \<and> XseqHigh (esCur e) = 2"
proof -
  let ?s0 = "doOpen commaText siem 4 7 xInit"
  have m: "readFile j p (xFs xInit) = RBMissing" for j p
    by (simp add: readFile_def ReadFile_def xInit_def emptyFs_def)
  obtain e0 where e0: "xProc ?s0 = Some e0" "esCur e0 = \<lparr>CurPos = noPosition, XseqHigh = 0, XseqEpoch = 7\<rparr>"
    "esReserve e0 = 4" "xUsed ?s0 = []" "\<not> xDamaged ?s0"
    by (simp add: doOpen_def openExportSeq_def Let_def m openPlace_def newEpoch_def u64_def)
       (simp add: xInit_def)
  have o: "exportStep commaText siem 4 xInit ?s0" by (rule doOpen_step) (simp_all add: m, simp_all add: xInit_def)
  obtain e1 where e1: "xProc sentOne = Some e1" "esCur e1 = (esCur e0)\<lparr>XseqHigh := 1\<rparr>" "esReserve e1 = 4"
    and u1: "xUsed sentOne = [(7, 1)]" "\<not> xDamaged sentOne"
    using doNext_allOk [OF e0(1), of commaText siem] e0 by (auto simp: sentOne_def)
  have n1: "exportStep commaText siem 4 ?s0 sentOne"
    unfolding sentOne_def by (rule doNext_step [OF e0(1)]) (simp add: e0)
  obtain e2 where e2: "xProc sentTwo = Some e2" "esCur e2 = (esCur e1)\<lparr>XseqHigh := 2\<rparr>"
    and u2: "xUsed sentTwo = [(7, 2), (7, 1)]" "\<not> xDamaged sentTwo"
    using doNext_allOk [OF e1(1), of commaText siem] e1 e0 u1 by (auto simp: sentTwo_def numeral_2_eq_2)
  have n2: "exportStep commaText siem 4 sentOne sentTwo"
    unfolding sentTwo_def by (rule doNext_step [OF e1(1)]) (simp add: e1 e0)
  show "exportReach commaText siem 4 sentTwo"
    by (rule exportReach_step [OF exportReach_step [OF exportReach_step [OF exportReach_init o] n1] n2])
  show "xUsed sentTwo = [(7, 2), (7, 1)]" "\<not> xDamaged sentTwo" by (fact u2)+
  show "\<exists>e. xProc sentTwo = Some e \<and> XseqEpoch (esCur e) = 7 \<and> XseqHigh (esCur e) = 2"
    using e2 e1 e0 by simp
qed

section \<open>Properties\<close>



text \<open>
  A clean stop loses nothing: when both saves of a stop succeeded, the next start, also
  after a power loss, resumes with the same place, the same resend owed, the same count and the
  same epoch, and the next number is the very next one.
\<close>

theorem export_clean_restart:
  assumes "cursor_json_laws j" and "exportReach j st reserve s" and "xProc s = Some e"
    and "closeXseq j st ft1 ft2 e (xFs s) = (True, e', fs')"
    and "fs2 = fs' \<or> fs2 = powerLoss k left fs'"
    and "openExportSeq j st reserve now fs2 = (e2, rec)"
  shows "esCur e2 = esCur e \<and> esResend e2 = esResend e \<and>
    crMethod rec = CursorResumed \<and> \<not> EpochChanged rec \<and>
    (XseqHigh (esCur e) + blockSize reserve < 18446744073709551616 \<longrightarrow>
       fst (nextXseq j st allOk e2 fs2) = Some (XseqHigh (esCur e) + 1))"
proof -
  have "fsInv (fileOk j st (xUsed s) (Some e)) (xFs s)" "procOk (xUsed s) e"
    using exportReach_inv [OF assms(1,2)] assms(3) by (auto simp: xInv_def)
  note rd = close_reads [OF assms(1) this assms(4,5)]
  have e2: "esCur e2 = esCur e" "esResend e2 = esResend e" "crMethod rec = CursorResumed" "\<not> EpochChanged rec"
    "esReserve e2 = blockSize reserve" "esReserved e2 = XseqHigh (esCur e)"
    using assms(6) by (auto simp: openExportSeq_def Let_def rd openPlace_def blockSize_def)
  have "fst (nextXseq j st allOk e2 fs2) = Some (XseqHigh (esCur e) + 1)"
    if b: "XseqHigh (esCur e) + blockSize reserve < 18446744073709551616"
  proof -
    have "1 \<le> esReserve e2" by (simp add: e2 blockSize_def DefaultExportReserve_def)
    then obtain e3 fs3 where "nextXseq j st allOk e2 fs2 = (Some (Suc (XseqHigh (esCur e2))), e3, fs3)"
      using next_allOk [of e2 j st fs2] b e2 by auto
    then show ?thesis by (simp add: e2)
  qed
  then show ?thesis using e2 by simp
qed



theorem export_clean_restart_witness:
  "\<exists>e e' fs'. xProc sentTwo = Some e \<and> XseqHigh (esCur e) = 2 \<and>
     closeXseq commaText siem allOk allOk e (xFs sentTwo) = (True, e', fs') \<and>
     esCur (fst (openExportSeq commaText siem 4 9 fs')) = esCur e \<and>
     fst (nextXseq commaText siem allOk (fst (openExportSeq commaText siem 4 9 fs')) fs') = Some 3"
proof -
  obtain e where e: "xProc sentTwo = Some e" "XseqEpoch (esCur e) = 7" "XseqHigh (esCur e) = 2"
    using sent_runs(4) by blast
  obtain ok e' fs' where c: "closeXseq commaText siem allOk allOk e (xFs sentTwo) = (ok, e', fs')"
    by (cases "closeXseq commaText siem allOk allOk e (xFs sentTwo)") auto
  have ok: "ok = True"
    using c storeWrite_allOk by (auto simp: closeXseq_def saveCursor_def storeSave_def Let_def split: prod.splits bool.splits)
       (metis fst_conv)+
  obtain e2 rec where o: "openExportSeq commaText siem 4 9 fs' = (e2, rec)" by (cases "openExportSeq commaText siem 4 9 fs'")
  from export_clean_restart [OF commaText_laws sent_runs(1) e(1) c [unfolded ok] disjI1 [OF refl] o]
  show ?thesis using e c ok o by (auto simp: blockSize_def)
qed

end
