(* ===== verification/Audit_Segment.thy ===== *)
theory Audit_Segment
  imports Gw_Prelude
begin

text \<open>
  The segments of the audit trail (src/pkg/audit/segment.go, with the compression of
  src/pkg/logrotate/logrotate.go and the header reads of src/pkg/audit/intent.go): the audit
  directory with its files, the active segment and its sealing, rotation, recovery after a
  crash, compression and listing.

  A file is the list of its complete lines, the bytes behind the last newline, and how many of its
  lines are on stable storage. A line is what \<open>json.Unmarshal\<close> makes of it: a header, a
  footer, a record, an object of another kind, or none of these (\<open>LBad\<close>, with its length).
  A write may stop inside a line; the bytes it left are then continued by the next write, and
  the two together are one line that is not JSON. A short write that leaves out the newline
  alone is not modelled. A sealed segment's name is the time of its
  seal in milliseconds: the name carries it in digits of fixed width, so that names order as
  times do. File modes are not modelled beyond \<open>verifyMode\<close> failing.

  \<open>osLib\<close> is what the operating system and the libraries answer at each tick of the
  segmenter: the clock, fresh UUIDs, the length of an encoded line, and the outcome of each file
  operation.
\<close>

section \<open>Definitions\<close>

subsection \<open>Records and lines\<close>

text \<open>
  The detail of a record of the audit subsystem about itself. The constructor stands for the
  event type; the first argument is the segment or resource the record names.
\<close>

datatype SysDetail =
    SysWriterStart string
  | SysWriterPanic string nat
  | SysWriterRestart nat nat
  | SysSegmentRecovered string nat nat
  | SysSegmentOpen string string nat
  | SysSegmentSeal string nat nat
  | SysRotationFailed string
  | SysCompressFailed string
  | SysWriteFailed int int nat
  | SysHeartbeat nat
  | SysProducerGap string string nat nat nat bool nat nat
  | SysReserveBreached int int
  | SysLostToRetention string nat nat "string list"
  | SysPrune string int int "string list"
  | SysPruneFailed string
  | SysIntentOrphaned string nat
  | SysSink string string

record MgmtDetail =
  mdPath :: string

record DataDetail =
  ddService :: string

record Outcome =
  oOK :: bool
  oReason :: string

record Record =
  EventID :: string
  TS :: "int option"
  rStream :: string
  EventType :: string
  rClass :: string
  Phase :: string
  rOutcome :: Outcome
  rMgmt :: "MgmtDetail option"
  rData :: "DataDetail option"
  rSys :: "SysDetail option"
  producerID :: string
  pseq :: nat

record stamp =
  stInstance :: string
  stBoot :: string
  stSegment :: string
  stSeq :: nat

record segmentHeader =
  hUUID :: string
  hPrev :: string
  hInstance :: string
  hBoot :: string
  hOpened :: int
  hFirstSeq :: nat

record segmentFooter =
  fUUID :: string
  fCount :: nat
  fFirstSeq :: nat
  fLastSeq :: nat
  fFirstTS :: "int option"
  fLastTS :: "int option"
  fSealed :: int
  fRecovered :: bool
  fTruncated :: nat

datatype aline =
    LHeader segmentHeader
  | LFooter segmentFooter
  | LRecord stamp Record
  | LOther nat
  | LBad nat

subsection \<open>The operating system\<close>

text \<open>
  \<open>hdrCutAt\<close>, \<open>recCutAt\<close> and \<open>ftrCutAt\<close> are \<open>None\<close> when a line is written whole, and the number
  of bytes that were written when it is not.
\<close>

record osLib =
  textBytes :: "aline \<Rightarrow> nat"
  nowAt :: "nat \<Rightarrow> int"
  uuidAt :: "nat \<Rightarrow> string"
  openOkAt :: "nat \<Rightarrow> bool"
  modeOkAt :: "nat \<Rightarrow> bool"
  hdrCutAt :: "nat \<Rightarrow> nat option"
  recCutAt :: "nat \<Rightarrow> nat option"
  ftrCutAt :: "nat \<Rightarrow> nat option"
  truncOkAt :: "nat \<Rightarrow> bool"
  renameOkAt :: "nat \<Rightarrow> bool"
  sealSyncOkAt :: "nat \<Rightarrow> bool"
  closeOkAt :: "nat \<Rightarrow> bool"
  syncOkAt :: "nat \<Rightarrow> bool"
  gzipOkAt :: "nat \<Rightarrow> bool"
  removeOkAt :: "nat \<Rightarrow> bool"
  removeGzOkAt :: "nat \<Rightarrow> bool"

definition lineBytes :: "osLib \<Rightarrow> aline \<Rightarrow> nat" where
  "lineBytes os l = (case l of LBad n \<Rightarrow> n | LOther n \<Rightarrow> n | _ \<Rightarrow> textBytes os l)"

subsection \<open>Files and the directory\<close>

record segFile =
  sfLines :: "aline list"
  sfTorn :: nat
  sfSynced :: nat

definition emptyFile :: segFile where
  "emptyFile = \<lparr>sfLines = [], sfTorn = 0, sfSynced = 0\<rparr>"

definition fileBytes :: "osLib \<Rightarrow> segFile \<Rightarrow> nat" where
  "fileBytes os f = sum_list (map (lineBytes os) (sfLines f)) + sfTorn f"

definition addLine :: "osLib \<Rightarrow> aline \<Rightarrow> segFile \<Rightarrow> segFile" where
  "addLine os l f =
     (if sfTorn f = 0 then f\<lparr>sfLines := sfLines f @ [l]\<rparr>
      else f\<lparr>sfLines := sfLines f @ [LBad (sfTorn f + lineBytes os l)], sfTorn := 0\<rparr>)"

text \<open>A write of one line: the bytes written, whether all of them were, and the file.\<close>

definition writeLine :: "osLib \<Rightarrow> nat option \<Rightarrow> aline \<Rightarrow> segFile \<Rightarrow> nat \<times> bool \<times> segFile" where
  "writeLine os short l f =
     (case short of
        None \<Rightarrow> (lineBytes os l, True, addLine os l f)
      | Some n \<Rightarrow> (let n = min n (lineBytes os l - 2) in (n, False, f\<lparr>sfTorn := sfTorn f + n\<rparr>)))"

fun cutBytes :: "osLib \<Rightarrow> nat \<Rightarrow> aline list \<Rightarrow> nat \<Rightarrow> aline list \<times> nat" where
  "cutBytes os n [] torn = ([], min n torn)"
| "cutBytes os n (l # ls) torn =
     (if lineBytes os l \<le> n
      then (let (ks, t) = cutBytes os (n - lineBytes os l) ls torn in (l # ks, t))
      else ([], n))"

definition truncateTo :: "osLib \<Rightarrow> nat \<Rightarrow> segFile \<Rightarrow> segFile" where
  "truncateTo os n f =
     (let (ls, t) = cutBytes os n (sfLines f) (sfTorn f)
      in f\<lparr>sfLines := ls, sfTorn := t, sfSynced := min (sfSynced f) (length ls)\<rparr>)"

definition syncFile :: "segFile \<Rightarrow> segFile" where
  "syncFile f = f\<lparr>sfSynced := length (sfLines f)\<rparr>"

datatype segName = NActive | NPlain int | NGz int

record adir =
  adNames :: "(segName \<times> nat) list"
  adFiles :: "nat \<Rightarrow> segFile"
  adNext :: nat

definition nameOf :: "adir \<Rightarrow> segName \<Rightarrow> nat option" where
  "nameOf d n = map_of (adNames d) n"

definition delName :: "segName \<Rightarrow> adir \<Rightarrow> adir" where
  "delName n d = d\<lparr>adNames := filter (\<lambda>(m, i). m \<noteq> n) (adNames d)\<rparr>"

definition setName :: "segName \<Rightarrow> nat \<Rightarrow> adir \<Rightarrow> adir" where
  "setName n i d = (delName n d)\<lparr>adNames := (n, i) # adNames (delName n d)\<rparr>"

definition setFile :: "nat \<Rightarrow> segFile \<Rightarrow> adir \<Rightarrow> adir" where
  "setFile i f d = d\<lparr>adFiles := (adFiles d)(i := f)\<rparr>"

definition createFile :: "segName \<Rightarrow> segFile \<Rightarrow> adir \<Rightarrow> nat \<times> adir" where
  "createFile n f d =
     (adNext d, setName n (adNext d) (setFile (adNext d) f (d\<lparr>adNext := Suc (adNext d)\<rparr>)))"

definition renameTo :: "segName \<Rightarrow> segName \<Rightarrow> nat \<Rightarrow> adir \<Rightarrow> adir" where
  "renameTo old new i d = setName new i (delName old d)"

text \<open>The header a file starts with, as \<open>readSegmentHeader\<close> and \<open>readHeaderUUID\<close> read it.\<close>

definition readSegmentHeader :: "segFile \<Rightarrow> segmentHeader option" where
  "readSegmentHeader f = (case sfLines f of LHeader h # _ \<Rightarrow> Some h | _ \<Rightarrow> None)"

definition readHeaderUUID :: "adir \<Rightarrow> segName \<Rightarrow> string" where
  "readHeaderUUID d n =
     (case nameOf d n of
        None \<Rightarrow> []
      | Some i \<Rightarrow> (case readSegmentHeader (adFiles d i) of None \<Rightarrow> [] | Some h \<Rightarrow> hUUID h))"

subsection \<open>The segmenter\<close>

record segRange =
  rgFirst :: nat
  rgLast :: nat
  rgEmpty :: bool
  rgUnknown :: bool

record segmenter =
  sgDir :: adir
  sgTick :: nat
  sgF :: "nat option"
  sgSize :: nat
  sgUUID :: string
  sgPrev :: string
  sgOpened :: int
  sgCount :: nat
  sgFirstSeq :: nat
  sgLastSeq :: nat
  sgFirstTS :: "int option"
  sgLastTS :: "int option"
  sgMaxBytes :: int
  sgMaxAge :: int
  sgInstance :: string
  sgBoot :: string
  sgUuids :: "segName \<rightharpoonup> string"
  sgRanges :: "string \<rightharpoonup> segRange"
  sgResolving :: "string \<rightharpoonup> segName"
  sgCompressQ :: "int list"
  sgRotationFailed :: nat
  sgCompressSkipped :: nat
  sgCompressFailed :: nat
  sgPruneFailed :: nat

definition cacheUUID :: "segName \<Rightarrow> string \<Rightarrow> segmenter \<Rightarrow> segmenter" where
  "cacheUUID n u s = s\<lparr>sgUuids := (sgUuids s)(n \<mapsto> u)\<rparr>"

definition cacheRange :: "string \<Rightarrow> segRange \<Rightarrow> segmenter \<Rightarrow> segmenter" where
  "cacheRange u r s =
     (if u = [] then s else s\<lparr>sgRanges := (sgRanges s)(u \<mapsto> r), sgResolving := (sgResolving s)(u := None)\<rparr>)"

definition forgetRange :: "string \<Rightarrow> segmenter \<Rightarrow> segmenter" where
  "forgetRange u s = s\<lparr>sgRanges := (sgRanges s)(u := None)\<rparr>"

definition uuidOf :: "segName \<Rightarrow> segmenter \<Rightarrow> string \<times> segmenter" where
  "uuidOf n s =
     (case sgUuids s n of
        Some u \<Rightarrow> (u, s)
      | None \<Rightarrow> (let u = readHeaderUUID (sgDir s) n in (u, if u \<noteq> [] then cacheUUID n u s else s)))"

definition enqueueCompress :: "int \<Rightarrow> segmenter \<Rightarrow> segmenter" where
  "enqueueCompress t s =
     (if length (sgCompressQ s) < 16 then s\<lparr>sgCompressQ := sgCompressQ s @ [t]\<rparr>
      else s\<lparr>sgCompressSkipped := Suc (sgCompressSkipped s)\<rparr>)"

text \<open>\<open>sealedName\<close>: the time is advanced until no sealed file has it in its name.\<close>

fun sealTime :: "segName \<Rightarrow> int list" where
  "sealTime NActive = []"
| "sealTime (NPlain t) = [t]"
| "sealTime (NGz t) = [t]"

definition takenTimes :: "adir \<Rightarrow> int list" where
  "takenTimes d = concat (map (sealTime \<circ> fst) (adNames d))"

fun freeFrom :: "nat \<Rightarrow> int list \<Rightarrow> int \<Rightarrow> int" where
  "freeFrom 0 taken t = t"
| "freeFrom (Suc n) taken t = (if t \<in> set taken then freeFrom n taken (t + 1) else t)"

definition sealedName :: "adir \<Rightarrow> int \<Rightarrow> int" where
  "sealedName d t = freeFrom (length (takenTimes d)) (takenTimes d) t"

text \<open>The path is opened where it exists and created where it does not.\<close>

definition openPath :: "adir \<Rightarrow> nat \<times> adir" where
  "openPath d = (case nameOf d NActive of Some i \<Rightarrow> (i, d) | None \<Rightarrow> createFile NActive emptyFile d)"

definition openActive :: "osLib \<Rightarrow> nat \<Rightarrow> segmenter \<Rightarrow> bool \<times> segmenter" where
  "openActive os firstSeq s =
     (let k = sgTick s; s = s\<lparr>sgTick := Suc k\<rparr> in
      if \<not> openOkAt os k then (False, s)
      else
        (let (i, d) = openPath (sgDir s); s = s\<lparr>sgDir := d\<rparr>
         in if \<not> modeOkAt os k then (False, s)
            else
              (let size = fileBytes os (adFiles d i);
                   hdr = \<lparr>hUUID = uuidAt os k, hPrev = sgPrev s, hInstance = sgInstance s, hBoot = sgBoot s,
                          hOpened = nowAt os k, hFirstSeq = firstSeq\<rparr>;
                   (n, ok, f) = writeLine os (hdrCutAt os k) (LHeader hdr) (adFiles d i)
               in (ok, s\<lparr>sgDir := setFile i f d, sgF := Some i, sgUUID := uuidAt os k,
                         sgOpened := nowAt os k, sgSize := size + n, sgCount := 0,
                         sgFirstSeq := firstSeq, sgLastSeq := 0, sgFirstTS := None, sgLastTS := None\<rparr>))))"

definition needsRotate :: "osLib \<Rightarrow> nat \<Rightarrow> segmenter \<Rightarrow> bool" where
  "needsRotate os n s \<longleftrightarrow>
     sgF s \<noteq> None \<and> sgCount s \<noteq> 0 \<and>
     (sgMaxBytes s > 0 \<and> int (sgSize s + n) > sgMaxBytes s \<or>
      sgMaxAge s > 0 \<and> nowAt os (sgTick s) - sgOpened s \<ge> sgMaxAge s)"

text \<open>\<open>append\<close> on an open handle; \<open>segAppend\<close> first gets the handle back when a rotation lost it.\<close>

definition appendTo :: "osLib \<Rightarrow> nat \<Rightarrow> aline \<Rightarrow> nat \<Rightarrow> int option \<Rightarrow> segmenter \<Rightarrow> bool \<times> segmenter" where
  "appendTo os i l seq ts s =
     (let k = sgTick s; s = s\<lparr>sgTick := Suc k\<rparr>;
          (n, ok, f) = writeLine os (recCutAt os k) l (adFiles (sgDir s) i);
          s' = s\<lparr>sgDir := setFile i f (sgDir s), sgSize := sgSize s + n\<rparr>
      in if ok then
           (True, s'\<lparr>sgFirstSeq := (if sgCount s = 0 then seq else sgFirstSeq s),
                     sgFirstTS := (if sgCount s = 0 then ts else sgFirstTS s),
                     sgCount := Suc (sgCount s), sgLastSeq := seq, sgLastTS := ts\<rparr>)
         else if n > 0 \<and> truncOkAt os k then
           (False, s\<lparr>sgDir := setFile i (truncateTo os (sgSize s) f) (sgDir s)\<rparr>)
         else (False, s'))"

definition segAppend :: "osLib \<Rightarrow> aline \<Rightarrow> nat \<Rightarrow> int option \<Rightarrow> segmenter \<Rightarrow> bool \<times> segmenter" where
  "segAppend os l seq ts s =
     (case sgF s of
        Some i \<Rightarrow> appendTo os i l seq ts s
      | None \<Rightarrow>
          (case openActive os seq s of
             (False, s) \<Rightarrow> (False, s)
           | (True, s) \<Rightarrow> (case sgF s of None \<Rightarrow> (False, s) | Some i \<Rightarrow> appendTo os i l seq ts s)))"

definition segSync :: "osLib \<Rightarrow> segmenter \<Rightarrow> bool \<times> segmenter" where
  "segSync os s =
     (case sgF s of
        None \<Rightarrow> (False, s)
      | Some i \<Rightarrow>
          (let k = sgTick s; s = s\<lparr>sgTick := Suc k\<rparr> in
           if syncOkAt os k then (True, s\<lparr>sgDir := setFile i (syncFile (adFiles (sgDir s) i)) (sgDir s)\<rparr>)
           else (False, s)))"

definition footerOf :: "osLib \<Rightarrow> nat \<Rightarrow> segmenter \<Rightarrow> segmentFooter" where
  "footerOf os k s =
     \<lparr>fUUID = sgUUID s, fCount = sgCount s,
      fFirstSeq = (if sgCount s = 0 then 0 else sgFirstSeq s), fLastSeq = sgLastSeq s,
      fFirstTS = (if sgCount s = 0 then None else sgFirstTS s),
      fLastTS = (if sgCount s = 0 then None else sgLastTS s),
      fSealed = nowAt os k, fRecovered = False, fTruncated = 0\<rparr>"

text \<open>\<open>seal\<close> returns the sealed segment's UUID and record count, and whether it succeeded.\<close>

definition seal :: "osLib \<Rightarrow> segmenter \<Rightarrow> (string \<times> nat \<times> bool) \<times> segmenter" where
  "seal os s =
     (case sgF s of
        None \<Rightarrow> (([], 0, False), s)
      | Some i \<Rightarrow>
          (let k = sgTick s; s = s\<lparr>sgTick := Suc k\<rparr>;
               t = sealedName (sgDir s) (nowAt os k)
           in case (renameOkAt os k, nameOf (sgDir s) NActive) of
                (True, Some a) \<Rightarrow>
                  (let d = renameTo NActive (NPlain t) a (sgDir s);
                       ft = footerOf os k s;
                       (n, wok, f) = writeLine os (ftrCutAt os k) (LFooter ft) (adFiles d i);
                       f = (if sealSyncOkAt os k then syncFile f else f);
                       ok = (wok \<and> sealSyncOkAt os k \<and> closeOkAt os k);
                       s' = cacheRange (sgUUID s)
                              \<lparr>rgFirst = fFirstSeq ft, rgLast = fLastSeq ft, rgEmpty = (sgCount s = 0), rgUnknown = False\<rparr>
                              (cacheUUID (NPlain t) (sgUUID s) (s\<lparr>sgDir := setFile i f d, sgPrev := sgUUID s, sgF := None\<rparr>))
                   in ((sgUUID s, sgCount s, ok), if ok then enqueueCompress t s' else s'))
              | _ \<Rightarrow> ((sgUUID s, sgCount s, False), s\<lparr>sgRotationFailed := Suc (sgRotationFailed s)\<rparr>)))"

definition segRotate :: "osLib \<Rightarrow> nat \<Rightarrow> segmenter \<Rightarrow> (string \<times> nat \<times> bool) \<times> segmenter" where
  "segRotate os nextFirst s =
     (let ((u, c, ok), s) = seal os s in
      if \<not> ok \<and> sgF s \<noteq> None then ((u, c, False), s)
      else (let (ok2, s) = openActive os nextFirst s in ((u, c, ok \<and> ok2), s)))"

definition segClose :: "osLib \<Rightarrow> segmenter \<Rightarrow> bool \<times> segmenter" where
  "segClose os s =
     (case sgF s of
        None \<Rightarrow> (True, s)
      | Some _ \<Rightarrow> (let ((u, c, ok), s) = seal os s in (ok, s\<lparr>sgF := None\<rparr>)))"

subsection \<open>Recovery\<close>

definition maxLineBytes :: nat where
  "maxLineBytes = 4194304"

text \<open>
  The lines recovery accepts: up to the first that is not JSON or that the scanner's buffer
  cannot hold. The bytes behind the last newline are the scanner's last token and end behind the
  file, so they are never accepted.
\<close>

fun scanLines :: "osLib \<Rightarrow> aline list \<Rightarrow> aline list" where
  "scanLines os [] = []"
| "scanLines os (l # ls) =
     (if lineBytes os l > maxLineBytes then []
      else case l of LBad n \<Rightarrow> [] | _ \<Rightarrow> l # scanLines os ls)"

fun recordsOf :: "aline list \<Rightarrow> (stamp \<times> Record) list" where
  "recordsOf [] = []"
| "recordsOf (LRecord st r # ls) = (st, r) # recordsOf ls"
| "recordsOf (l # ls) = recordsOf ls"

definition isFooter :: "aline \<Rightarrow> bool" where
  "isFooter l = (case l of LFooter ft \<Rightarrow> True | _ \<Rightarrow> False)"

record recovery =
  rcUUID :: string
  rcRecords :: nat
  rcTruncated :: nat
  rcSealed :: bool

definition recoverActive :: "osLib \<Rightarrow> nat \<Rightarrow> segmenter \<Rightarrow> recovery option \<times> segmenter" where
  "recoverActive os i s =
     (let k = sgTick s; s = s\<lparr>sgTick := Suc k\<rparr>; f = adFiles (sgDir s) i in
      if \<not> openOkAt os k then (None, s)
      else
        (let ok = scanLines os (sfLines f);
             validEnd = sum_list (map (lineBytes os) ok);
             u = (case ok of LHeader h # _ \<Rightarrow> hUUID h | _ \<Rightarrow> []);
             u = (if u = [] then uuidAt os k else u);
             recs = recordsOf ok;
             torn = fileBytes os f - validEnd;
             sealedAlready = list_ex isFooter ok;
             rec = \<lparr>rcUUID = u, rcRecords = length recs, rcTruncated = torn, rcSealed = sealedAlready\<rparr>
         in if torn > 0 \<and> \<not> truncOkAt os k then (None, s)
            else
              (let f = (if torn > 0 then truncateTo os validEnd f else f);
                   ft = \<lparr>fUUID = u, fCount = length recs,
                         fFirstSeq = (if recs = [] then 0 else stSeq (fst (hd recs))),
                         fLastSeq = (if recs = [] then 0 else stSeq (fst (last recs))),
                         fFirstTS = (if recs = [] then None else TS (snd (hd recs))),
                         fLastTS = (if recs = [] then None else TS (snd (last recs))),
                         fSealed = nowAt os k, fRecovered = True, fTruncated = torn\<rparr>;
                   (n, wok, f) = (if sealedAlready then (0, True, f) else writeLine os (ftrCutAt os k) (LFooter ft) f);
                   s = s\<lparr>sgDir := setFile i f (sgDir s)\<rparr>
               in if \<not> wok \<or> \<not> sealSyncOkAt os k then (None, s)
                  else
                    (let s = s\<lparr>sgDir := setFile i (syncFile f) (sgDir s)\<rparr>;
                         t = sealedName (sgDir s) (nowAt os k)
                     in if \<not> renameOkAt os k then (None, s)
                        else (Some rec, enqueueCompress t (cacheUUID (NPlain t) u
                                (s\<lparr>sgDir := renameTo NActive (NPlain t) i (sgDir s)\<rparr>)))))))"

subsection \<open>Listing, compression and removal\<close>

record SegmentInfo =
  siTime :: int
  siBytes :: nat
  siGz :: bool

definition siName :: "SegmentInfo \<Rightarrow> segName" where
  "siName x = (if siGz x then NGz (siTime x) else NPlain (siTime x))"

text \<open>
  The sealed files oldest first. By name a plain file precedes the archive of the same
  segment.
\<close>

definition listSealed :: "osLib \<Rightarrow> adir \<Rightarrow> SegmentInfo list" where
  "listSealed os d =
     sort_key (\<lambda>x. 2 * siTime x + (if siGz x then 1 else 0))
       (concat (map (\<lambda>(n, i). case n of
            NActive \<Rightarrow> []
          | NPlain t \<Rightarrow> [\<lparr>siTime = t, siBytes = fileBytes os (adFiles d i), siGz = False\<rparr>]
          | NGz t \<Rightarrow> [\<lparr>siTime = t, siBytes = fileBytes os (adFiles d i), siGz = True\<rparr>]) (adNames d)))"

fun mergeForms :: "SegmentInfo list \<Rightarrow> SegmentInfo list \<Rightarrow> SegmentInfo list" where
  "mergeForms out [] = out"
| "mergeForms out (f # fs) =
     (if out \<noteq> [] \<and> siTime (last out) = siTime f
      then mergeForms (butlast out @ [f\<lparr>siBytes := siBytes f + siBytes (last out)\<rparr>]) fs
      else mergeForms (out @ [f]) fs)"

definition listSegments :: "osLib \<Rightarrow> adir \<Rightarrow> SegmentInfo list" where
  "listSegments os d = mergeForms [] (listSealed os d)"

definition latestSealedUUID :: "osLib \<Rightarrow> segmenter \<Rightarrow> string \<times> segmenter" where
  "latestSealedUUID os s =
     (let segs = listSealed os (sgDir s) in if segs = [] then ([], s) else uuidOf (siName (last segs)) s)"

text \<open>
  One item of the compression worker. The archive has the segment's lines; nothing
  flushes it before the plain file is removed.
\<close>

definition compressStep :: "osLib \<Rightarrow> segmenter \<Rightarrow> segmenter" where
  "compressStep os s =
     (case sgCompressQ s of
        [] \<Rightarrow> s
      | t # rest \<Rightarrow>
          (let k = sgTick s; s = s\<lparr>sgTick := Suc k, sgCompressQ := rest\<rparr> in
           case nameOf (sgDir s) (NPlain t) of
             None \<Rightarrow> s
           | Some i \<Rightarrow>
               if \<not> gzipOkAt os k then s\<lparr>sgCompressFailed := Suc (sgCompressFailed s)\<rparr>
               else
                 (let f = adFiles (sgDir s) i;
                      (j, d) = createFile (NGz t) (f\<lparr>sfSynced := 0\<rparr>) (sgDir s)
                  in if \<not> removeOkAt os k then s\<lparr>sgDir := d, sgCompressFailed := Suc (sgCompressFailed s)\<rparr>
                     else (let s = s\<lparr>sgDir := delName (NPlain t) d\<rparr> in
                           case sgUuids s (NPlain t) of None \<Rightarrow> s | Some u \<Rightarrow> cacheUUID (NGz t) u s))))"

definition removeSealed :: "osLib \<Rightarrow> int \<Rightarrow> segmenter \<Rightarrow> bool \<times> segmenter" where
  "removeSealed os t s =
     (let k = sgTick s; s = s\<lparr>sgTick := Suc k\<rparr>; d = sgDir s;
          ok1 = (nameOf d (NPlain t) = None \<or> removeOkAt os k);
          ok2 = (nameOf d (NGz t) = None \<or> removeGzOkAt os k);
          d = (if ok1 then delName (NPlain t) d else d);
          d = (if ok2 then delName (NGz t) d else d)
      in (ok1 \<and> ok2, s\<lparr>sgDir := d\<rparr>))"

text \<open>\<open>start\<close>: \<open>None\<close> in the first component refuses to start.\<close>

definition segStart :: "osLib \<Rightarrow> nat \<Rightarrow> segmenter \<Rightarrow> recovery option option \<times> segmenter" where
  "segStart os firstSeq s =
     (case nameOf (sgDir s) NActive of
        Some i \<Rightarrow>
          (case recoverActive os i s of
             (None, s) \<Rightarrow> (None, s)
           | (Some r, s) \<Rightarrow>
               (let (ok, s) = openActive os firstSeq (s\<lparr>sgPrev := rcUUID r\<rparr>) in (if ok then Some (Some r) else None, s)))
      | None \<Rightarrow>
          (let (u, s) = latestSealedUUID os s;
               (ok, s) = openActive os firstSeq (s\<lparr>sgPrev := u\<rparr>)
           in (if ok then Some None else None, s)))"

definition newSegmenter :: "adir \<Rightarrow> string \<Rightarrow> string \<Rightarrow> int \<Rightarrow> int \<Rightarrow> nat \<Rightarrow> segmenter" where
  "newSegmenter d inst boot maxBytes maxAge k =
     \<lparr>sgDir = d, sgTick = k, sgF = None, sgSize = 0, sgUUID = [], sgPrev = [], sgOpened = 0, sgCount = 0,
      sgFirstSeq = 0, sgLastSeq = 0, sgFirstTS = None, sgLastTS = None, sgMaxBytes = maxBytes, sgMaxAge = maxAge,
      sgInstance = inst, sgBoot = boot, sgUuids = Map.empty, sgRanges = Map.empty, sgResolving = Map.empty, sgCompressQ = [],
      sgRotationFailed = 0, sgCompressSkipped = 0, sgCompressFailed = 0, sgPruneFailed = 0\<rparr>"

section \<open>Lemmas\<close>

subsection \<open>The directory\<close>

lemma map_of_filter_other: "map_of (filter (\<lambda>(m, i). m \<noteq> n) xs) k = (if k = n then None else map_of xs k)"
  by (induction xs) auto

lemma nameOf_delName [simp]: "nameOf (delName n d) k = (if k = n then None else nameOf d k)"
  by (simp add: nameOf_def delName_def map_of_filter_other)

lemma nameOf_setName [simp]: "nameOf (setName n i d) k = (if k = n then Some i else nameOf d k)"
  using nameOf_delName [of n d k] by (simp add: nameOf_def setName_def)

lemma nameOf_setFile [simp]: "nameOf (setFile i f d) k = nameOf d k"
  by (simp add: nameOf_def setFile_def)

lemma nameOf_renameTo [simp]:
  "nameOf (renameTo old new i d) k = (if k = new then Some i else if k = old then None else nameOf d k)"
  by (simp add: renameTo_def)

lemma nameOf_createFile [simp]:
  "nameOf (snd (createFile n f d)) k = (if k = n then Some (adNext d) else nameOf d k)"
  by (simp add: createFile_def) (simp add: nameOf_def)

lemma adFiles_simps [simp]:
  "adFiles (delName n d) = adFiles d" "adFiles (setName n i d) = adFiles d"
  "adFiles (renameTo old new i d) = adFiles d" "adFiles (setFile i f d) = (adFiles d)(i := f)"
  "adFiles (snd (createFile n f d)) = (adFiles d)(adNext d := f)" "fst (createFile n f d) = adNext d"
  by (simp_all add: delName_def setName_def renameTo_def setFile_def createFile_def)

lemma adNext_simps [simp]:
  "adNext (delName n d) = adNext d" "adNext (setName n i d) = adNext d"
  "adNext (renameTo old new i d) = adNext d" "adNext (setFile i f d) = adNext d"
  "adNext (snd (createFile n f d)) = Suc (adNext d)"
  by (simp_all add: delName_def setName_def renameTo_def setFile_def createFile_def)

lemma createFileD:
  assumes "createFile n f d = (i, d')"
  shows "i = adNext d" "nameOf d' k = (if k = n then Some i else nameOf d k)" "adFiles d' = (adFiles d)(i := f)"
    "adNext d' = Suc (adNext d)"
  using adFiles_simps(5,6) [of n f d] nameOf_createFile [of n f d k] adNext_simps(5) [of n f d]
  unfolding assms by simp_all

lemma fileBytes_emptyFile [simp]: "fileBytes os emptyFile = 0"
  by (simp add: fileBytes_def emptyFile_def)

lemma writeLine_bytes: "writeLine os short l f = (n, ok, f') \<Longrightarrow> n \<le> lineBytes os l"
  by (auto simp: writeLine_def Let_def split: option.splits)

lemma writeLine_fileBytes: "writeLine os short l f = (n, ok, f') \<Longrightarrow> fileBytes os f' = fileBytes os f + n"
  by (auto simp: writeLine_def addLine_def fileBytes_def lineBytes_def Let_def split: option.splits if_splits)

subsection \<open>Free names\<close>

text \<open>
  The search for a name ends: among as many consecutive milliseconds as there are sealed files,
  and one more, one is free.
\<close>

lemma freeFrom_run:
  "freeFrom n ts t \<in> set ts \<Longrightarrow> (\<forall>j \<le> n. t + int j \<in> set ts)"
proof (induction n arbitrary: t)
  case (Suc n)
  then have t: "t \<in> set ts" and "freeFrom n ts (t + 1) \<in> set ts" by (auto split: if_splits)
  then have "\<forall>j \<le> n. t + 1 + int j \<in> set ts" by (intro Suc.IH)
  then have all: "t + 1 + int j \<in> set ts" if "j \<le> n" for j using that by blast
  show ?case
  proof (intro allI impI)
    fix j
    assume "j \<le> Suc n"
    then show "t + int j \<in> set ts"
      using t all [of "j - 1"] by (cases j) (auto simp: algebra_simps)
  qed
qed simp

lemma sealedName_free: "sealedName d t \<notin> set (takenTimes d)"
proof
  let ?ts = "takenTimes d"
  assume "sealedName d t \<in> set ?ts"
  then have "\<forall>j \<le> length ?ts. t + int j \<in> set ?ts"
    unfolding sealedName_def by (rule freeFrom_run)
  then have "(\<lambda>j. t + int j) ` {..length ?ts} \<subseteq> set ?ts" by auto
  moreover have "card ((\<lambda>j. t + int j) ` {..length ?ts}) = Suc (length ?ts)"
    by (subst card_image) (auto simp: inj_on_def)
  ultimately have "Suc (length ?ts) \<le> card (set ?ts)" by (metis card_mono finite_set)
  then show False using card_length [of ?ts] by simp
qed

lemma set_sealTime: "t \<in> set (sealTime n) \<longleftrightarrow> n = NPlain t \<or> n = NGz t"
  by (cases n) auto

lemma takenTimes_iff:
  "t \<in> set (takenTimes d) \<longleftrightarrow> nameOf d (NPlain t) \<noteq> None \<or> nameOf d (NGz t) \<noteq> None"
  by (simp add: takenTimes_def nameOf_def map_of_eq_None_iff set_sealTime image_iff) metis

lemma freeFrom_ge: "t \<le> freeFrom n ts t"
proof (induction n arbitrary: t)
  case (Suc n)
  show ?case using Suc.IH [of "t + 1"] by simp
qed simp

lemma freeFrom_least: "t \<le> u \<Longrightarrow> u < freeFrom n ts t \<Longrightarrow> u \<in> set ts"
proof (induction n arbitrary: t)
  case (Suc n)
  show ?case
  proof (cases "t = u")
    case False
    then show ?thesis using Suc.IH [of "t + 1"] Suc.prems by (auto split: if_splits)
  qed (use Suc.prems in \<open>auto split: if_splits\<close>)
qed simp

lemma sealedName_least:
  "nameOf d (NPlain (sealedName d t)) = None" "nameOf d (NGz (sealedName d t)) = None" "t \<le> sealedName d t"
  using sealedName_free [of d t] takenTimes_iff [of "sealedName d t" d] by (simp_all add: sealedName_def freeFrom_ge)

lemma sealedName_first:
  "t \<le> u \<Longrightarrow> u < sealedName d t \<Longrightarrow> nameOf d (NPlain u) \<noteq> None \<or> nameOf d (NGz u) \<noteq> None"
  using takenTimes_iff [of u d] freeFrom_least [of t u "length (takenTimes d)" "takenTimes d"]
  by (simp add: sealedName_def)


subsection \<open>What the operations do\<close>

lemma openPathD:
  assumes "openPath d = (i, d')"
  shows "nameOf d' n = (if n = NActive then Some i else nameOf d n)"
    "adFiles d' = (if nameOf d NActive = None then (adFiles d)(i := emptyFile) else adFiles d)"
    "nameOf d NActive = None \<Longrightarrow> i = adNext d" "nameOf d NActive \<noteq> None \<Longrightarrow> d' = d \<and> nameOf d NActive = Some i"
    "adNext d \<le> adNext d'" "nameOf d NActive = None \<Longrightarrow> adNext d' = Suc (adNext d)"
proof -
  consider (old) "nameOf d NActive = Some i" "d' = d" | (new) "nameOf d NActive = None" "createFile NActive emptyFile d = (i, d')"
    using assms by (auto simp: openPath_def split: option.splits)
  then have "nameOf d' n = (if n = NActive then Some i else nameOf d n) \<and>
      adFiles d' = (if nameOf d NActive = None then (adFiles d)(i := emptyFile) else adFiles d) \<and>
      (nameOf d NActive = None \<longrightarrow> i = adNext d) \<and> (nameOf d NActive \<noteq> None \<longrightarrow> d' = d \<and> nameOf d NActive = Some i) \<and>
      adNext d \<le> adNext d' \<and> (nameOf d NActive = None \<longrightarrow> adNext d' = Suc (adNext d))"
  proof cases
    case new
    note c = createFileD [OF new(2)]
    show ?thesis using new(1) c(1,3,4) c(2) [of n] by simp
  qed simp
  then show "nameOf d' n = (if n = NActive then Some i else nameOf d n)"
    "adFiles d' = (if nameOf d NActive = None then (adFiles d)(i := emptyFile) else adFiles d)"
    "nameOf d NActive = None \<Longrightarrow> i = adNext d" "nameOf d NActive \<noteq> None \<Longrightarrow> d' = d \<and> nameOf d NActive = Some i"
    "adNext d \<le> adNext d'" "nameOf d NActive = None \<Longrightarrow> adNext d' = Suc (adNext d)"
    by blast+
qed

text \<open>\<open>openActive\<close> fails to open, fails to repair the mode, or gets as far as the header.\<close>

lemma openActive_cases:
  assumes "openActive os q s = (ok, s')"
  obtains (noOpen) "\<not> ok" "s' = s\<lparr>sgTick := Suc (sgTick s)\<rparr>" "\<not> openOkAt os (sgTick s)"
  | (noMode) i d where "openPath (sgDir s) = (i, d)" "\<not> ok" "s' = s\<lparr>sgTick := Suc (sgTick s), sgDir := d\<rparr>"
      "\<not> modeOkAt os (sgTick s)"
  | (header) i d h n f where "openPath (sgDir s) = (i, d)"
      "h = \<lparr>hUUID = uuidAt os (sgTick s), hPrev = sgPrev s, hInstance = sgInstance s, hBoot = sgBoot s,
            hOpened = nowAt os (sgTick s), hFirstSeq = q\<rparr>"
      "writeLine os (hdrCutAt os (sgTick s)) (LHeader h) (adFiles d i) = (n, ok, f)"
      "s' = s\<lparr>sgTick := Suc (sgTick s), sgDir := setFile i f d, sgF := Some i, sgUUID := uuidAt os (sgTick s),
              sgOpened := nowAt os (sgTick s), sgSize := fileBytes os (adFiles d i) + n, sgCount := 0,
              sgFirstSeq := q, sgLastSeq := 0, sgFirstTS := None, sgLastTS := None\<rparr>"
proof (cases "openOkAt os (sgTick s)")
  case False
  then show thesis using assms noOpen by (simp add: openActive_def Let_def)
next
  case open_ok: True
  obtain i d where id: "openPath (sgDir s) = (i, d)" by (cases "openPath (sgDir s)")
  show thesis
  proof (cases "modeOkAt os (sgTick s)")
    case False
    then show thesis using assms open_ok noMode [OF id] by (simp add: openActive_def Let_def id)
  next
    case True
    let ?h = "\<lparr>hUUID = uuidAt os (sgTick s), hPrev = sgPrev s, hInstance = sgInstance s, hBoot = sgBoot s,
            hOpened = nowAt os (sgTick s), hFirstSeq = q\<rparr>"
    obtain n wok f where w: "writeLine os (hdrCutAt os (sgTick s)) (LHeader ?h) (adFiles d i) = (n, wok, f)"
      by (metis prod.exhaust)
    show thesis
      using assms open_ok True header [OF id refl] by (simp add: openActive_def Let_def id w)
  qed
qed

text \<open>\<open>append\<close> through the handle \<open>i\<close>: written whole, cut back, or left short.\<close>

lemma appendTo_cases:
  assumes "appendTo os i l q ts s = (ok, s')"
  obtains (whole) "ok" "recCutAt os (sgTick s) = None"
      "s' = s\<lparr>sgTick := Suc (sgTick s), sgDir := setFile i (addLine os l (adFiles (sgDir s) i)) (sgDir s),
              sgSize := sgSize s + lineBytes os l,
              sgFirstSeq := (if sgCount s = 0 then q else sgFirstSeq s),
              sgFirstTS := (if sgCount s = 0 then ts else sgFirstTS s),
              sgCount := Suc (sgCount s), sgLastSeq := q, sgLastTS := ts\<rparr>"
  | (cutBack) n f where "\<not> ok" "truncOkAt os (sgTick s)"
      "n \<le> lineBytes os l" "f = (adFiles (sgDir s) i)\<lparr>sfTorn := sfTorn (adFiles (sgDir s) i) + n\<rparr>"
      "s' = s\<lparr>sgTick := Suc (sgTick s), sgDir := setFile i (truncateTo os (sgSize s) f) (sgDir s)\<rparr>"
  | (torn) n f where "\<not> ok" "n = 0 \<or> \<not> truncOkAt os (sgTick s)"
      "n \<le> lineBytes os l" "f = (adFiles (sgDir s) i)\<lparr>sfTorn := sfTorn (adFiles (sgDir s) i) + n\<rparr>"
      "s' = s\<lparr>sgTick := Suc (sgTick s), sgDir := setFile i f (sgDir s), sgSize := sgSize s + n\<rparr>"
proof (cases "recCutAt os (sgTick s)")
  case None
  then show thesis using assms whole by (simp add: appendTo_def writeLine_def Let_def cong: if_cong)
next
  case (Some m)
  let ?n = "min m (lineBytes os l - 2)"
  have n: "?n \<le> lineBytes os l" by simp
  show thesis
  proof (cases "0 < ?n \<and> truncOkAt os (sgTick s)")
    case True
    then show thesis
      using assms Some by (intro cutBack [OF _ _ n refl]) (auto simp: appendTo_def writeLine_def Let_def)
  next
    case False
    then show thesis
      using assms Some by (intro torn [OF _ _ n refl]) (auto simp: appendTo_def writeLine_def Let_def)
  qed
qed

lemma segAppend_cases:
  assumes "segAppend os l q ts s = (ok, s')"
  obtains (handle) i where "sgF s = Some i" "appendTo os i l q ts s = (ok, s')"
  | (reopened) s1 i where "sgF s = None" "openActive os q s = (True, s1)" "sgF s1 = Some i"
      "appendTo os i l q ts s1 = (ok, s')"
  | (lost) "sgF s = None" "\<not> ok" "openActive os q s = (False, s')"
proof (cases "sgF s")
  case None
  obtain b s1 where o: "openActive os q s = (b, s1)" by (cases "openActive os q s")
  show thesis
  proof (cases b)
    case True
    obtain i where i: "sgF s1 = Some i" using o True by (auto elim: openActive_cases)
    show thesis using assms reopened [OF None _ i] None o True i by (simp add: segAppend_def)
  next
    case False
    show thesis using assms lost None o False by (simp add: segAppend_def)
  qed
next
  case (Some i)
  then show thesis using assms handle by (simp add: segAppend_def)
qed

lemma footerOf_tick [simp]: "footerOf os k (s\<lparr>sgTick := j\<rparr>) = footerOf os k s"
  by (simp add: footerOf_def)

lemma seal_renamed:
  assumes "sgF s = Some i" "renameOkAt os (sgTick s)" "nameOf (sgDir s) NActive = Some a"
    and w: "writeLine os (ftrCutAt os (sgTick s)) (LFooter (footerOf os (sgTick s) s)) (adFiles (sgDir s) i) = (n, wok, f)"
    and t: "t = sealedName (sgDir s) (nowAt os (sgTick s))"
    and ok: "ok = (wok \<and> sealSyncOkAt os (sgTick s) \<and> closeOkAt os (sgTick s))"
    and s1: "s1 = cacheRange (sgUUID s)
              \<lparr>rgFirst = fFirstSeq (footerOf os (sgTick s) s), rgLast = fLastSeq (footerOf os (sgTick s) s),
               rgEmpty = (sgCount s = 0), rgUnknown = False\<rparr>
              (cacheUUID (NPlain t) (sgUUID s)
                (s\<lparr>sgTick := Suc (sgTick s),
                   sgDir := setFile i (if sealSyncOkAt os (sgTick s) then syncFile f else f)
                     (renameTo NActive (NPlain t) a (sgDir s)),
                   sgPrev := sgUUID s, sgF := None\<rparr>))"
  shows "seal os s = ((sgUUID s, sgCount s, ok), if ok then enqueueCompress t s1 else s1)"
  unfolding seal_def assms(1) option.case Let_def
  by (simp add: assms(2,3) w t [symmetric] ok [symmetric] s1)

text \<open>\<open>seal\<close>: no handle, a rename that fails, or a file under its sealed name with a footer tried.\<close>

lemma seal_cases:
  assumes "seal os s = ((u, c, ok), s')"
  obtains (closed) "sgF s = None" "\<not> ok" "s' = s" "u = []" "c = 0"
  | (kept) i where "sgF s = Some i" "\<not> ok" "u = sgUUID s" "c = sgCount s"
      "\<not> renameOkAt os (sgTick s) \<or> nameOf (sgDir s) NActive = None"
      "s' = s\<lparr>sgTick := Suc (sgTick s), sgRotationFailed := Suc (sgRotationFailed s)\<rparr>"
  | (renamed) i a t n wok f d s1 where "sgF s = Some i" "nameOf (sgDir s) NActive = Some a" "u = sgUUID s" "c = sgCount s"
      "t = sealedName (sgDir s) (nowAt os (sgTick s))" "d = renameTo NActive (NPlain t) a (sgDir s)"
      "writeLine os (ftrCutAt os (sgTick s)) (LFooter (footerOf os (sgTick s) s)) (adFiles (sgDir s) i) = (n, wok, f)"
      "ok = (wok \<and> sealSyncOkAt os (sgTick s) \<and> closeOkAt os (sgTick s))"
      "s1 = cacheRange (sgUUID s)
              \<lparr>rgFirst = fFirstSeq (footerOf os (sgTick s) s), rgLast = fLastSeq (footerOf os (sgTick s) s),
               rgEmpty = (sgCount s = 0), rgUnknown = False\<rparr>
              (cacheUUID (NPlain t) (sgUUID s)
                (s\<lparr>sgTick := Suc (sgTick s),
                   sgDir := setFile i (if sealSyncOkAt os (sgTick s) then syncFile f else f) d,
                   sgPrev := sgUUID s, sgF := None\<rparr>))"
      "s' = (if ok then enqueueCompress t s1 else s1)"
proof (cases "sgF s")
  case None
  then show thesis using assms by (intro closed) (simp_all add: seal_def)
next
  case (Some i)
  show thesis
  proof (cases "renameOkAt os (sgTick s) \<and> nameOf (sgDir s) NActive \<noteq> None")
    case False
    then have "seal os s = ((sgUUID s, sgCount s, False),
        s\<lparr>sgTick := Suc (sgTick s), sgRotationFailed := Suc (sgRotationFailed s)\<rparr>)"
      using Some by (cases "renameOkAt os (sgTick s)") (simp_all add: seal_def Let_def)
    then show thesis using assms False by (intro kept [OF Some]) simp_all
  next
    case True
    then obtain a where a: "nameOf (sgDir s) NActive = Some a" by auto
    obtain n wok f where w:
      "writeLine os (ftrCutAt os (sgTick s)) (LFooter (footerOf os (sgTick s) s)) (adFiles (sgDir s) i) = (n, wok, f)"
      by (metis prod.exhaust)
    note eq = seal_renamed [OF Some conjunct1 [OF True] a w refl refl refl]
    have inj: "((u, c, ok), s') = ((u2, c2, ok2), s2) \<Longrightarrow> u = u2 \<and> c = c2 \<and> ok = ok2 \<and> s' = s2" for u2 c2 ok2 s2 by simp
    note e = inj [OF trans [OF assms [symmetric] eq]]
    show thesis
      by (rule renamed [OF Some a conjunct1 [OF e] conjunct1 [OF conjunct2 [OF e]] refl refl w
            conjunct1 [OF conjunct2 [OF conjunct2 [OF e]]] refl])
        (use e in \<open>simp only: if_True\<close>)
  qed
qed

end
