(* ===== verification/Audit_Producer.thy ===== *)
theory Audit_Producer
  imports Gw_Prelude "HOL-Library.Word"
begin

text \<open>
  The drop ring of an audit producer (src/pkg/audit/producer.go) and the runs a drain of it is
  folded into (\<open>emitProducerGaps\<close> of src/pkg/audit/writer.go).

  A producer numbers the records it emits. One it cannot hand to the writer is dropped, and its
  number is pushed into a ring that the writer drains at every heartbeat. \<open>head\<close> and \<open>tail\<close> are
  64-bit words that wrap; a slot is found under the low eight bits. The interface \<open>bounded_queue\<close>
  states what the rest of the writer uses of the ring. The producer and the writer run on threads
  of their own: \<open>ringStep\<close> gives both in the order of their loads and stores.
\<close>

section \<open>Definitions\<close>

subsection \<open>The ring\<close>

definition dropRingSize :: nat where
  "dropRingSize = 256"

record dropEntry =
  dePseq :: nat
  deReason :: nat

record dropRing =
  rgHead :: "64 word"
  rgTail :: "64 word"
  rgOverflow :: nat
  rgSlots :: "nat \<Rightarrow> dropEntry"

text \<open>\<open>h & (dropRingSize - 1)\<close>.\<close>

definition slotOf :: "64 word \<Rightarrow> nat" where
  "slotOf h = unat (and h 255)"

definition push :: "dropEntry \<Rightarrow> dropRing \<Rightarrow> dropRing" where
  "push e r =
     (let h = rgHead r in
      if unat (h - rgTail r) \<ge> dropRingSize then r\<lparr>rgOverflow := Suc (rgOverflow r)\<rparr>
      else r\<lparr>rgSlots := (rgSlots r)(slotOf h := e), rgHead := h + 1\<rparr>)"

text \<open>The loop \<open>for ; t != h; t++\<close>; \<open>n\<close> bounds its rounds.\<close>

fun drainFrom :: "nat \<Rightarrow> (nat \<Rightarrow> dropEntry) \<Rightarrow> 64 word \<Rightarrow> 64 word \<Rightarrow> dropEntry list" where
  "drainFrom 0 sl t h = []"
| "drainFrom (Suc n) sl t h = (if t = h then [] else sl (slotOf t) # drainFrom n sl (t + 1) h)"

definition drain :: "dropRing \<Rightarrow> dropEntry list \<times> dropRing" where
  "drain r = (drainFrom (unat (rgHead r - rgTail r)) (rgSlots r) (rgTail r) (rgHead r), r\<lparr>rgTail := rgHead r\<rparr>)"

definition emptyRing :: dropRing where
  "emptyRing = \<lparr>rgHead = 0, rgTail = 0, rgOverflow = 0, rgSlots = (\<lambda>_. \<lparr>dePseq = 0, deReason = 0\<rparr>)\<rparr>"

subsection \<open>Runs\<close>

record dropRun =
  drFrom :: nat
  drTo :: nat
  drReason :: nat

definition addToRuns :: "dropEntry \<Rightarrow> dropRun list \<Rightarrow> dropRun list" where
  "addToRuns e runs =
     (if runs \<noteq> [] \<and> drReason (last runs) = deReason e \<and> drTo (last runs) + 1 = dePseq e
      then butlast runs @ [(last runs)\<lparr>drTo := dePseq e\<rparr>]
      else runs @ [\<lparr>drFrom = dePseq e, drTo = dePseq e, drReason = deReason e\<rparr>])"

definition dropRuns :: "dropEntry list \<Rightarrow> dropRun list" where
  "dropRuns es = fold addToRuns es []"

subsection \<open>Producers\<close>

record Producer =
  pId :: string
  pStream :: string
  pPseq :: nat
  pAccepted :: nat
  pDropped :: "nat \<Rightarrow> nat"
  pRing :: dropRing
  pOverflowSeen :: nat

definition numDropReasons :: nat where
  "numDropReasons = 4"

definition newProducer :: "string \<Rightarrow> string \<Rightarrow> Producer" where
  "newProducer i st = \<lparr>pId = i, pStream = st, pPseq = 0, pAccepted = 0, pDropped = (\<lambda>_. 0), pRing = emptyRing, pOverflowSeen = 0\<rparr>"

definition dropP :: "nat \<Rightarrow> nat \<Rightarrow> Producer \<Rightarrow> Producer" where
  "dropP q reason p =
     p\<lparr>pDropped := (pDropped p)(reason := Suc (pDropped p reason)), pRing := push \<lparr>dePseq = q, deReason = reason\<rparr> (pRing p)\<rparr>"

text \<open>The producer's own state over one \<open>Emit\<close> whose record is queued, or dropped for a reason.\<close>

definition emitted :: "nat option \<Rightarrow> Producer \<Rightarrow> Producer" where
  "emitted o' p =
     (let q = Suc (pPseq p); p = p\<lparr>pPseq := q\<rparr> in
      case o' of None \<Rightarrow> p\<lparr>pAccepted := Suc (pAccepted p)\<rparr> | Some reason \<Rightarrow> dropP q reason p)"

text \<open>
  One producer's part of \<open>emitProducerGaps\<close>: the gap records of the drain, each with its run, whether
  it is exact, the overflow counter and the counter of its reason.
\<close>

record gapRec =
  gRun :: dropRun
  gExact :: bool
  gOverflows :: nat
  gTotal :: nat

definition producerGaps :: "Producer \<Rightarrow> gapRec list \<times> Producer" where
  "producerGaps p =
     (let (es, ring) = drain (pRing p);
          ov = rgOverflow ring;
          exact = (ov = pOverflowSeen p)
      in (map (\<lambda>d. \<lparr>gRun = d, gExact = exact, gOverflows = ov, gTotal = pDropped p (drReason d)\<rparr>) (dropRuns es),
          p\<lparr>pRing := ring, pOverflowSeen := ov\<rparr>))"

subsection \<open>Producer and writer on the ring\<close>

text \<open>
  The producer loads \<open>head\<close> and \<open>tail\<close>, stores the slot, stores \<open>head\<close>. The writer loads \<open>tail\<close> and \<open>head\<close>,
  reads the slots in between, stores \<open>tail\<close>. The producer alone stores \<open>head\<close>, so that its load of
  it and what follows the load of \<open>tail\<close> need no step of their own until the slot is stored.
\<close>

datatype pushPc = PIdle | PChecked dropEntry | PStored dropEntry

datatype drainPc = DIdle | DReading "64 word" "64 word"

record ringState =
  rsRing :: dropRing
  rsPush :: pushPc
  rsDrain :: drainPc
  rsPushed :: "dropEntry list"
  rsRead :: "dropEntry list"

inductive ringStep :: "ringState \<Rightarrow> ringState \<Rightarrow> bool" where
  pushFull: "rsPush s = PIdle \<Longrightarrow> unat (rgHead (rsRing s) - rgTail (rsRing s)) \<ge> dropRingSize \<Longrightarrow>
    ringStep s (s\<lparr>rsRing := (rsRing s)\<lparr>rgOverflow := Suc (rgOverflow (rsRing s))\<rparr>\<rparr>)"
| pushCheck: "rsPush s = PIdle \<Longrightarrow> unat (rgHead (rsRing s) - rgTail (rsRing s)) < dropRingSize \<Longrightarrow>
    ringStep s (s\<lparr>rsPush := PChecked e\<rparr>)"
| pushSlot: "rsPush s = PChecked e \<Longrightarrow>
    ringStep s (s\<lparr>rsRing := (rsRing s)\<lparr>rgSlots := (rgSlots (rsRing s))(slotOf (rgHead (rsRing s)) := e)\<rparr>, rsPush := PStored e\<rparr>)"
| pushHead: "rsPush s = PStored e \<Longrightarrow>
    ringStep s (s\<lparr>rsRing := (rsRing s)\<lparr>rgHead := rgHead (rsRing s) + 1\<rparr>, rsPush := PIdle,
      rsPushed := rsPushed s @ [e]\<rparr>)"
| drainStart: "rsDrain s = DIdle \<Longrightarrow>
    ringStep s (s\<lparr>rsDrain := DReading (rgTail (rsRing s)) (rgHead (rsRing s))\<rparr>)"
| drainRead: "rsDrain s = DReading t h \<Longrightarrow> t \<noteq> h \<Longrightarrow>
    ringStep s (s\<lparr>rsDrain := DReading (t + 1) h, rsRead := rsRead s @ [rgSlots (rsRing s) (slotOf t)]\<rparr>)"
| drainEnd: "rsDrain s = DReading t h \<Longrightarrow> t = h \<Longrightarrow>
    ringStep s (s\<lparr>rsRing := (rsRing s)\<lparr>rgTail := t\<rparr>, rsDrain := DIdle\<rparr>)"

definition ringStart :: ringState where
  "ringStart = \<lparr>rsRing = emptyRing, rsPush = PIdle, rsDrain = DIdle, rsPushed = [], rsRead = []\<rparr>"

definition ringReach :: "ringState \<Rightarrow> bool" where
  "ringReach s \<longleftrightarrow> ringStep\<^sup>*\<^sup>* ringStart s"

section \<open>Lemmas\<close>

subsection \<open>The ring as a queue\<close>

text \<open>The entries in the ring, oldest first.\<close>

definition ringQueue :: "dropRing \<Rightarrow> dropEntry list" where
  "ringQueue r = map (\<lambda>j. rgSlots r (slotOf (rgTail r + of_nat j))) [0..<unat (rgHead r - rgTail r)]"

definition ring_ok :: "dropRing \<Rightarrow> bool" where
  "ring_ok r \<longleftrightarrow> unat (rgHead r - rgTail r) \<le> dropRingSize"

lemma slotOf_mod: "slotOf h = unat h mod 256"
proof -
  have "(255 :: 64 word) = mask 8" by (simp add: mask_eq_exp_minus_1)
  then have "and h 255 = take_bit 8 h" by (simp add: take_bit_eq_mask)
  then show ?thesis by (simp add: slotOf_def take_bit_eq_mod unat_mod)
qed

lemma slotOf_of_nat: "slotOf (of_nat j) = j mod 256"
proof -
  have "slotOf (of_nat j) = j mod 2 ^ 64 mod 256" by (simp add: slotOf_mod unat_of_nat)
  also have "\<dots> = j mod 256" by (rule mod_mod_cancel) simp
  finally show ?thesis .
qed

lemma slotOf_apart:
  assumes "i < j" and "j - i < 256"
  shows "slotOf (of_nat i) \<noteq> slotOf (of_nat j)"
proof
  assume "slotOf (of_nat i) = slotOf (of_nat j)"
  then have "256 dvd j - i" using assms(1) by (metis slotOf_of_nat less_imp_le mod_eq_dvd_iff_nat)
  then show False using assms by (auto dest: dvd_imp_le)
qed

text \<open>Positions as numbers that do not wrap.\<close>

lemma unat_distance:
  assumes "i \<le> j" and "j - i \<le> 256"
  shows "unat (of_nat j - of_nat i :: 64 word) = j - i"
proof -
  have "(of_nat j - of_nat i :: 64 word) = of_nat (j - i)" using assms(1) by simp
  then show ?thesis using assms(2) by (simp add: unat_of_nat)
qed

lemma of_nat_positions:
  assumes "i \<le> j" and "j - i \<le> 256" and "(of_nat i :: 64 word) = of_nat j"
  shows "i = j"
  using unat_distance [OF assms(1,2)] assms by simp

subsection \<open>The interleaving\<close>

definition drainOk :: "nat \<Rightarrow> nat \<Rightarrow> nat \<Rightarrow> drainPc \<Rightarrow> bool" where
  "drainOk T R P d \<longleftrightarrow>
     (case d of
        DIdle \<Rightarrow> R = T
      | DReading t h \<Rightarrow> t = of_nat R \<and> (\<exists>H. h = of_nat H \<and> R \<le> H \<and> H \<le> P))"

definition pushOk :: "nat \<Rightarrow> nat \<Rightarrow> dropRing \<Rightarrow> pushPc \<Rightarrow> bool" where
  "pushOk T P r p \<longleftrightarrow>
     (case p of
        PIdle \<Rightarrow> True
      | PChecked e \<Rightarrow> P - T < 256
      | PStored e \<Rightarrow> P - T < 256 \<and> rgSlots r (slotOf (rgHead r)) = e)"

definition ring_inv :: "ringState \<Rightarrow> bool" where
  "ring_inv s \<longleftrightarrow>
     (\<exists>T. rgHead (rsRing s) = of_nat (length (rsPushed s)) \<and> rgTail (rsRing s) = of_nat T \<and>
        T \<le> length (rsRead s) \<and> length (rsRead s) \<le> length (rsPushed s) \<and> length (rsPushed s) - T \<le> 256 \<and>
        rsRead s = take (length (rsRead s)) (rsPushed s) \<and>
        (\<forall>j. T \<le> j \<and> j < length (rsPushed s) \<longrightarrow> rgSlots (rsRing s) (slotOf (of_nat j)) = rsPushed s ! j) \<and>
        drainOk T (length (rsRead s)) (length (rsPushed s)) (rsDrain s) \<and>
        pushOk T (length (rsPushed s)) (rsRing s) (rsPush s))"

lemma ring_inv_start: "ring_inv ringStart"
  by (auto simp: ring_inv_def ringStart_def emptyRing_def drainOk_def pushOk_def intro!: exI [of _ 0])

lemma ringStep_inv:
  assumes "ringStep s s'" and "ring_inv s"
  shows "ring_inv s'"
proof -
  let ?P = "length (rsPushed s)" and ?R = "length (rsRead s)"
  obtain T where head: "rgHead (rsRing s) = of_nat ?P" and tail: "rgTail (rsRing s) = of_nat T"
    and order: "T \<le> ?R" "?R \<le> ?P" "?P - T \<le> 256" and read: "rsRead s = take ?R (rsPushed s)"
    and slots: "\<And>j. T \<le> j \<Longrightarrow> j < ?P \<Longrightarrow> rgSlots (rsRing s) (slotOf (of_nat j)) = rsPushed s ! j"
    and dr: "drainOk T ?R ?P (rsDrain s)" and pu: "pushOk T ?P (rsRing s) (rsPush s)"
    using assms(2) unfolding ring_inv_def by blast
  have dist: "unat (rgHead (rsRing s) - rgTail (rsRing s)) = ?P - T"
    unfolding head tail by (rule unat_distance) (use order in auto)
  show ?thesis
    using assms(1)
  proof (cases rule: ringStep.cases)
    case pushFull
    then show ?thesis
      using head tail order read slots dr by (auto simp: ring_inv_def pushOk_def intro!: exI [of _ T])
  next
    case (pushCheck e)
    then show ?thesis
      using head tail order read slots dr dist by (auto simp: ring_inv_def pushOk_def dropRingSize_def intro!: exI [of _ T])
  next
    case (pushSlot e)
    then have lt: "?P - T < 256" using pu by (simp add: pushOk_def)
    have "slotOf (of_nat j) \<noteq> slotOf (of_nat ?P)" if "T \<le> j" "j < ?P" for j
      by (rule slotOf_apart) (use that lt in auto)
    then show ?thesis
      using pushSlot head tail order read slots dr lt by (auto simp: ring_inv_def pushOk_def intro!: exI [of _ T])
  next
    case (pushHead e)
    then have lt: "?P - T < 256" and e: "rgSlots (rsRing s) (slotOf (of_nat ?P)) = e" using pu head by (auto simp: pushOk_def)
    have "rgSlots (rsRing s) (slotOf (of_nat j)) = (rsPushed s @ [e]) ! j" if "T \<le> j" "j < Suc ?P" for j
      using that slots e by (cases "j = ?P") (auto simp: nth_append)
    moreover have "drainOk T ?R (Suc ?P) (rsDrain s)"
      using dr by (auto simp: drainOk_def split: drainPc.splits intro: le_SucI)
    moreover have "rsRead s = take ?R (rsPushed s @ [e])" using read order by simp
    moreover have "Suc ?P - T \<le> 256" using lt by simp
    ultimately show ?thesis
      using pushHead head tail order by (auto simp: ring_inv_def pushOk_def add.commute intro!: exI [of _ T])
  next
    case drainStart
    then have "drainOk T ?R ?P (DReading (rgTail (rsRing s)) (rgHead (rsRing s)))"
      using dr order head tail by (auto simp: drainOk_def)
    then show ?thesis
      using drainStart head tail order read slots pu by (auto simp: ring_inv_def intro!: exI [of _ T])
  next
    case (drainRead t h)
    then obtain H where t: "t = of_nat ?R" and h: "h = of_nat H" "?R \<le> H" "H \<le> ?P" using dr by (auto simp: drainOk_def)
    have lt: "?R < H" using drainRead(3) t h by (cases "?R = H") auto
    have "rgSlots (rsRing s) (slotOf t) = rsPushed s ! ?R" using slots [of ?R] order lt h t by simp
    then have "rsRead s @ [rgSlots (rsRing s) (slotOf t)] = take (Suc ?R) (rsPushed s)"
      using read lt h by (metis less_le_trans take_Suc_conv_app_nth)
    moreover have "drainOk T (Suc ?R) ?P (DReading (t + 1) h)" using t h lt by (auto simp: drainOk_def add.commute)
    ultimately show ?thesis
      using drainRead head tail order slots pu h lt by (auto simp: ring_inv_def intro!: exI [of _ T])
  next
    case (drainEnd t h)
    then have t: "t = of_nat ?R" using dr by (auto simp: drainOk_def)
    have "pushOk ?R ?P (rsRing s) (rsPush s)" using pu order by (auto simp: pushOk_def split: pushPc.splits)
    then have "pushOk ?R ?P ((rsRing s)\<lparr>rgTail := t\<rparr>) (rsPush s)" by (simp add: pushOk_def split: pushPc.splits)
    then show ?thesis
      using drainEnd head order read slots t by (auto simp: ring_inv_def drainOk_def intro!: exI [of _ ?R])
  qed
qed

lemma ringReach_inv: "ringReach s \<Longrightarrow> ring_inv s"
  unfolding ringReach_def
  by (induction rule: rtranclp_induct) (auto intro: ring_inv_start ringStep_inv)

subsection \<open>The ring as a bounded queue\<close>

text \<open>
  What the writer uses of the ring: entries come out once and in the order they went in; one that
  finds no room is counted.
\<close>

locale bounded_queue =
  fixes cap :: nat and enq :: "'e \<Rightarrow> 'q \<Rightarrow> 'q" and deqAll :: "'q \<Rightarrow> 'e list \<times> 'q"
    and lost :: "'q \<Rightarrow> nat" and cont :: "'q \<Rightarrow> 'e list" and ok :: "'q \<Rightarrow> bool"
  assumes enq_ok: "ok q \<Longrightarrow> ok (enq e q)"
    and enq_room: "ok q \<Longrightarrow> length (cont q) < cap \<Longrightarrow> cont (enq e q) = cont q @ [e] \<and> lost (enq e q) = lost q"
    and enq_full: "ok q \<Longrightarrow> \<not> length (cont q) < cap \<Longrightarrow> cont (enq e q) = cont q \<and> lost (enq e q) = Suc (lost q)"
    and deq: "ok q \<Longrightarrow> deqAll q = (es, q') \<Longrightarrow> es = cont q \<and> ok q' \<and> cont q' = [] \<and> lost q' = lost q"
begin

lemma enq_many:
  "ok q \<Longrightarrow> ok (fold enq es q) \<and> cont (fold enq es q) = cont q @ take (cap - length (cont q)) es \<and>
     lost (fold enq es q) = lost q + (length es - (cap - length (cont q)))"
proof (induction es arbitrary: q)
  case (Cons e es)
  note IH = Cons.IH [OF enq_ok [OF Cons.prems, of e]]
  show ?case
  proof (cases "length (cont q) < cap")
    case True
    then have "cap - length (cont q) = Suc (cap - Suc (length (cont q)))" by simp
    then show ?thesis using IH enq_room [OF Cons.prems True, of e] by auto
  next
    case False
    then show ?thesis using IH enq_full [OF Cons.prems False, of e] by simp
  qed
qed simp

lemma deq_many:
  assumes "ok q" and "cont q = []" and "deqAll (fold enq es q) = (out, q')"
  shows "out = take cap es \<and> lost q' = lost q + (length es - cap) \<and> ok q' \<and> cont q' = []"
  using enq_many [OF assms(1), of es] deq [OF _ assms(3)] assms(2) by simp

end

lemma drainFrom_map:
  "j \<le> 256 \<Longrightarrow> drainFrom j sl t (t + of_nat j) = map (\<lambda>i. sl (slotOf (t + of_nat i))) [0..<j]"
proof (induction j arbitrary: t)
  case (Suc j)
  have u: "unat (of_nat (Suc j) :: 64 word) = Suc j" using Suc.prems by (simp add: unat_of_nat del: of_nat_Suc)
  have ne: "t \<noteq> t + of_nat (Suc j)"
  proof
    assume "t = t + of_nat (Suc j)"
    then have "(of_nat (Suc j) :: 64 word) = 0" by (simp only: add_cancel_right_right)
    then show False using u by simp
  qed
  have "drainFrom j sl (t + 1) (t + 1 + of_nat j) = map (\<lambda>i. sl (slotOf (t + 1 + of_nat i))) [0..<j]"
    by (rule Suc.IH) (use Suc.prems in simp)
  then have "drainFrom (Suc j) sl t (t + of_nat (Suc j)) = sl (slotOf t) # map (\<lambda>i. sl (slotOf (t + of_nat (Suc i)))) [0..<j]"
    using ne by (simp add: add.assoc)
  also have "\<dots> = map (\<lambda>i. sl (slotOf (t + of_nat i))) (0 # map Suc [0..<j])" by simp
  also have "0 # map Suc [0..<j] = [0..<Suc j]" by (simp add: map_Suc_upt upt_conv_Cons del: upt_Suc)
  finally show ?case .
qed simp

lemma slot_offset: "slotOf (t + of_nat i) = slotOf (of_nat (unat t + i))"
  by simp

lemma push_queue:
  assumes "ring_ok r" and "unat (rgHead r - rgTail r) < 256"
  shows "unat (rgHead r + 1 - rgTail r) = Suc (unat (rgHead r - rgTail r))"
    "ringQueue (push e r) = ringQueue r @ [e]"
proof -
  let ?t = "rgTail r"
  define n where "n = unat (rgHead r - ?t)"
  have h: "rgHead r = ?t + of_nat n" by (simp add: n_def)
  have lt: "n < 256" using assms(2) by (simp add: n_def)
  have "rgHead r + 1 - ?t = of_nat (Suc n)" by (simp add: h)
  then have n: "unat (rgHead r + 1 - ?t) = Suc n" using lt by (simp add: unat_of_nat del: of_nat_Suc)
  then show "unat (rgHead r + 1 - ?t) = Suc (unat (rgHead r - ?t))" by (simp add: n_def)
  have "slotOf (?t + of_nat i) \<noteq> slotOf (?t + of_nat n)" if "i < n" for i
    unfolding slot_offset by (rule slotOf_apart) (use that lt in auto)
  moreover have "unat (of_nat n :: 64 word) = n" using lt by (simp add: unat_of_nat)
  ultimately show "ringQueue (push e r) = ringQueue r @ [e]"
    using lt n h by (simp add: ringQueue_def push_def Let_def dropRingSize_def n_def [symmetric])
qed

interpretation ring: bounded_queue dropRingSize push drain rgOverflow ringQueue ring_ok
proof unfold_locales
  show "ring_ok (push e q)" if "ring_ok q" for e q
    using push_queue(1) [OF that] that by (auto simp: push_def ring_ok_def Let_def dropRingSize_def)
  show "ringQueue (push e q) = ringQueue q @ [e] \<and> rgOverflow (push e q) = rgOverflow q"
    if "ring_ok q" "length (ringQueue q) < dropRingSize" for e q
    using push_queue(2) [OF that(1), of e] that(2) by (simp add: ringQueue_def dropRingSize_def push_def Let_def)
  show "ringQueue (push e q) = ringQueue q \<and> rgOverflow (push e q) = Suc (rgOverflow q)"
    if "ring_ok q" "\<not> length (ringQueue q) < dropRingSize" for e q
    using that by (simp add: ringQueue_def push_def Let_def)
  show "es = ringQueue q \<and> ring_ok q' \<and> ringQueue q' = [] \<and> rgOverflow q' = rgOverflow q"
    if "ring_ok q" "drain q = (es, q')" for es q q'
    using that drainFrom_map [of "unat (rgHead q - rgTail q)" "rgSlots q" "rgTail q"]
    by (auto simp: drain_def ring_ok_def dropRingSize_def ringQueue_def)
qed

subsection \<open>Runs and gaps\<close>

definition expandRun :: "dropRun \<Rightarrow> dropEntry list" where
  "expandRun d = map (\<lambda>q. \<lparr>dePseq = q, deReason = drReason d\<rparr>) [drFrom d..<Suc (drTo d)]"

lemma fold_addToRuns:
  "(\<forall>d \<in> set runs. drFrom d \<le> drTo d) \<Longrightarrow>
     concat (map expandRun (fold addToRuns es runs)) = concat (map expandRun runs) @ es \<and>
     (\<forall>d \<in> set (fold addToRuns es runs). drFrom d \<le> drTo d)"
proof (induction es arbitrary: runs)
  case (Cons e es)
  have new: "(\<forall>d \<in> set (addToRuns e runs). drFrom d \<le> drTo d) \<and>
    concat (map expandRun (addToRuns e runs)) = concat (map expandRun runs) @ [e]"
  proof (cases "runs \<noteq> [] \<and> drReason (last runs) = deReason e \<and> drTo (last runs) + 1 = dePseq e")
    case True
    then obtain rs d where r: "runs = rs @ [d]" by (metis append_butlast_last_id)
    then have "drFrom d \<le> drTo d" using Cons.prems by simp
    then have "expandRun (d\<lparr>drTo := dePseq e\<rparr>) = expandRun d @ [e]" using True r by (auto simp: expandRun_def)
    then show ?thesis using True r Cons.prems by (auto simp: addToRuns_def)
  next
    case False
    then show ?thesis using Cons.prems by (auto simp: addToRuns_def expandRun_def)
  qed
  then show ?case using Cons.IH [of "addToRuns e runs"] by simp
qed simp

lemma dropRuns_expand: "concat (map expandRun (dropRuns es)) = es"
  using fold_addToRuns [of "[]" es] by (simp add: dropRuns_def)

text \<open>The dropped ones among emissions numbered from \<open>q + 1\<close>.\<close>

fun droppedOf :: "nat \<Rightarrow> nat option list \<Rightarrow> dropEntry list" where
  "droppedOf q [] = []"
| "droppedOf q (None # os) = droppedOf (Suc q) os"
| "droppedOf q (Some reason # os) = \<lparr>dePseq = Suc q, deReason = reason\<rparr> # droppedOf (Suc q) os"

lemma fold_emitted:
  "pRing (fold emitted os p) = fold push (droppedOf (pPseq p) os) (pRing p) \<and>
     pPseq (fold emitted os p) = pPseq p + length os \<and> pOverflowSeen (fold emitted os p) = pOverflowSeen p \<and>
     pDropped (fold emitted os p) c = pDropped p c + length (filter (\<lambda>x. x = Some c) os)"
proof (induction os arbitrary: p)
  case (Cons o1 os)
  show ?case
  proof (cases o1)
    case None
    have "emitted None p = p\<lparr>pPseq := Suc (pPseq p), pAccepted := Suc (pAccepted p)\<rparr>" by (simp add: emitted_def Let_def)
    then show ?thesis using Cons.IH [of "emitted None p"] None by simp
  next
    case (Some reason)
    have "emitted (Some reason) p = dropP (Suc (pPseq p)) reason (p\<lparr>pPseq := Suc (pPseq p)\<rparr>)" by (simp add: emitted_def Let_def)
    then show ?thesis using Cons.IH [of "emitted (Some reason) p"] Some by (simp add: dropP_def)
  qed
qed simp

text \<open>The state in which a heartbeat leaves a producer.\<close>

definition drained :: "Producer \<Rightarrow> bool" where
  "drained p \<longleftrightarrow> ring_ok (pRing p) \<and> ringQueue (pRing p) = [] \<and> pOverflowSeen p = rgOverflow (pRing p)"

lemma newProducer_drained: "drained (newProducer i st)"
  by (simp add: drained_def newProducer_def emptyRing_def ring_ok_def ringQueue_def)

section \<open>Properties\<close>

text \<open>
  C14. In every interleaving of a producer that pushes and a writer that drains, over however many
  rounds and with the indices wrapping, the writer reads the entries that were pushed, each once
  and in their order, and never a slot that is being overwritten. At most 256 pushed entries are
  unread.
\<close>

theorem ring_interleaved:
  assumes "ringReach s"
  shows "rsRead s = take (length (rsRead s)) (rsPushed s) \<and> length (rsPushed s) \<le> length (rsRead s) + 256"
  using ringReach_inv [OF assms] by (auto simp: ring_inv_def)

lemma ringReach_step: "ringReach s \<Longrightarrow> ringStep s s' \<Longrightarrow> ringReach s'"
  unfolding ringReach_def by simp

text \<open>The steps of a push, with nothing in between, are \<open>push\<close>.\<close>

lemma push_steps:
  assumes "ringReach s" and "rsPush s = PIdle" and "unat (rgHead (rsRing s) - rgTail (rsRing s)) < dropRingSize"
  shows "ringReach (s\<lparr>rsRing := push e (rsRing s), rsPush := PIdle, rsPushed := rsPushed s @ [e]\<rparr>)"
proof -
  note r1 = ringReach_step [OF assms(1) pushCheck [OF assms(2,3), of e]]
  note r2 = ringReach_step [OF r1 pushSlot [of _ e]]
  note r3 = ringReach_step [OF r2 pushHead [of _ e]]
  then show ?thesis using assms(2,3) by (simp add: push_def Let_def)
qed

theorem ring_interleaved_witness:
  "\<exists>s. ringReach s \<and> rsPushed s = [\<lparr>dePseq = 4, deReason = 0\<rparr>, \<lparr>dePseq = 7, deReason = 1\<rparr>] \<and>
     rsRead s = [\<lparr>dePseq = 4, deReason = 0\<rparr>] \<and> rsRead s = take (length (rsRead s)) (rsPushed s)"
proof -
  let ?e = "\<lparr>dePseq = 4, deReason = 0\<rparr>" and ?f = "\<lparr>dePseq = 7, deReason = 1\<rparr>"
  define s1 where "s1 = ringStart\<lparr>rsRing := push ?e (rsRing ringStart), rsPush := PIdle, rsPushed := rsPushed ringStart @ [?e]\<rparr>"
  have "ringReach ringStart" by (simp add: ringReach_def)
  then have r1: "ringReach s1"
    unfolding s1_def by (rule push_steps) (simp_all add: ringStart_def emptyRing_def dropRingSize_def)
  define s2 where "s2 = s1\<lparr>rsDrain := DReading (rgTail (rsRing s1)) (rgHead (rsRing s1))\<rparr>"
  have r2: "ringReach s2"
    unfolding s2_def by (rule ringReach_step [OF r1 drainStart]) (simp add: s1_def ringStart_def)
  define s3 where "s3 = s2\<lparr>rsRing := push ?f (rsRing s2), rsPush := PIdle, rsPushed := rsPushed s2 @ [?f]\<rparr>"
  have r3: "ringReach s3"
    unfolding s3_def by (rule push_steps [OF r2])
      (simp_all add: s2_def s1_def ringStart_def emptyRing_def dropRingSize_def push_def slotOf_def)
  define s4 where "s4 = s3\<lparr>rsDrain := DReading (0 + 1) 1, rsRead := rsRead s3 @ [rgSlots (rsRing s3) (slotOf 0)]\<rparr>"
  have r4: "ringReach s4"
    unfolding s4_def by (rule ringReach_step [OF r3 drainRead])
      (simp_all add: s3_def s2_def s1_def ringStart_def emptyRing_def dropRingSize_def push_def)
  have "rsPushed s4 = [?e, ?f]" "rsRead s4 = [?e]"
    by (simp_all add: s4_def s3_def s2_def s1_def ringStart_def emptyRing_def dropRingSize_def push_def slotOf_def Let_def)
  then show ?thesis using r4 ring_interleaved [OF r4] by blast
qed

text \<open>
  C23. The gap records of a heartbeat account for the drops since the last one. If at most 256
  records were dropped in between, the runs expand to exactly the dropped numbers with their
  reasons and the records say so; if more were, they expand to the first 256 and every record
  says it is not exact. The producer is then ready for the next heartbeat.
\<close>

theorem producer_gaps_exact:
  assumes "drained p" and "producerGaps (fold emitted os p) = (gaps, p')"
  shows "concat (map (\<lambda>g. expandRun (gRun g)) gaps) = take dropRingSize (droppedOf (pPseq p) os) \<and>
    (\<forall>g \<in> set gaps. gExact g \<longleftrightarrow> length (droppedOf (pPseq p) os) \<le> dropRingSize) \<and> drained p'"
proof -
  let ?D = "droppedOf (pPseq p) os"
  obtain es r where d: "drain (fold push ?D (pRing p)) = (es, r)" by (cases "drain (fold push ?D (pRing p))")
  note q = ring.deq_many [OF _ _ d]
  have out: "es = take dropRingSize ?D" "rgOverflow r = rgOverflow (pRing p) + (length ?D - dropRingSize)"
    "ring_ok r" "ringQueue r = []"
    using q assms(1) by (simp_all add: drained_def)
  have g: "gaps = map (\<lambda>d. \<lparr>gRun = d, gExact = (rgOverflow r = pOverflowSeen p), gOverflows = rgOverflow r,
        gTotal = pDropped (fold emitted os p) (drReason d)\<rparr>) (dropRuns es)"
    and p': "p' = (fold emitted os p)\<lparr>pRing := r, pOverflowSeen := rgOverflow r\<rparr>"
    using assms(2) d by (auto simp: producerGaps_def Let_def fold_emitted)
  have "concat (map (\<lambda>g. expandRun (gRun g)) gaps) = take dropRingSize ?D"
    using dropRuns_expand [of es] out by (simp add: g comp_def)
  moreover have "gExact x \<longleftrightarrow> length ?D \<le> dropRingSize" if "x \<in> set gaps" for x
    using that out assms(1) by (auto simp: g drained_def)
  moreover have "drained p'" using out by (simp add: drained_def p')
  ultimately show ?thesis by blast
qed

theorem producer_gaps_exact_witness:
  "\<exists>gaps p'. producerGaps (fold emitted [None, Some 0, Some 0, None, Some 1] (newProducer ''w1'' ''data'')) = (gaps, p') \<and>
     concat (map (\<lambda>g. expandRun (gRun g)) gaps) =
       [\<lparr>dePseq = 2, deReason = 0\<rparr>, \<lparr>dePseq = 3, deReason = 0\<rparr>, \<lparr>dePseq = 5, deReason = 1\<rparr>] \<and> list_all gExact gaps"
proof -
  let ?os = "[None, Some 0, Some 0, None, Some 1]" and ?p = "newProducer ''w1'' ''data''"
  obtain gaps p' where g: "producerGaps (fold emitted ?os ?p) = (gaps, p')" by (cases "producerGaps (fold emitted ?os ?p)")
  have D: "droppedOf (pPseq ?p) ?os = [\<lparr>dePseq = 2, deReason = 0\<rparr>, \<lparr>dePseq = 3, deReason = 0\<rparr>, \<lparr>dePseq = 5, deReason = 1\<rparr>]"
    by (simp add: newProducer_def)
  show ?thesis
    using producer_gaps_exact [OF newProducer_drained g] g unfolding D by (simp add: dropRingSize_def list_all_iff)
qed

end
