(* ===== verification/Audit_Writer.thy ===== *)
theory Audit_Writer
  imports Audit_Segment Audit_Producer
begin

text \<open>
  The audit writer (src/pkg/audit/writer.go): the durable path \<open>Write\<close>, the queued path
  \<open>Append\<close>, and the loop that stamps, encodes and appends records, rotates the segment, syncs and
  answers. \<open>write\<close> calls itself through the records a rotation and the end of a run of failures
  write, so that its recursion need not end; the model counts the depth of the calls and
  is \<open>None\<close> when the depth given is not enough.

  The loop takes its next item from whichever of its channels is ready; here that choice is
  the sequence of events. A request of the durable path has a number, under which its answer is
  kept.
\<close>

section \<open>Definitions\<close>

subsection \<open>Records\<close>

definition validStream :: "string \<Rightarrow> bool" where
  "validStream s \<longleftrightarrow> s \<in> {''mgmt'', ''data'', ''audit_system''}"

definition ValidReason :: "string \<Rightarrow> bool" where
  "ValidReason r \<longleftrightarrow>
     r \<in> {''ok'', ''auth'', ''authz'', ''login_failed'', ''admission'', ''ratelimit'', ''quota'',
          ''circuit_breaker'', ''backend_tls'', ''backend_conn'', ''timeout'', ''client_abort'',
          ''upstream_error'', ''audit_unavailable'', ''gateway_shutdown'', ''store_outcome_unknown''}"

definition Validate :: "Record \<Rightarrow> bool" where
  "Validate r \<longleftrightarrow>
     validStream (rStream r) \<and> EventType r \<noteq> [] \<and> ValidReason (oReason (rOutcome r)) \<and>
     (if rStream r = ''mgmt'' then
        rMgmt r \<noteq> None \<and> rData r = None \<and> rSys r = None \<and> Phase r \<in> {[], ''intent'', ''result''}
      else if rStream r = ''data'' then
        rData r \<noteq> None \<and> rMgmt r = None \<and> rSys r = None \<and> Phase r = []
      else rSys r \<noteq> None \<and> rMgmt r = None \<and> rData r = None \<and> Phase r = [])"

text \<open>\<open>sanitize\<close>: the path of a management record ends before the first query or fragment delimiter.\<close>

definition cutPath :: "string \<Rightarrow> string" where
  "cutPath p = takeWhile (\<lambda>c. c \<noteq> CHR ''?'' \<and> c \<noteq> CHR ''#'') p"

definition sanitize :: "Record \<Rightarrow> bool \<times> Record" where
  "sanitize r =
     (case rMgmt r of
        None \<Rightarrow> (False, r)
      | Some m \<Rightarrow>
          if cutPath (mdPath m) \<noteq> mdPath m then (True, r\<lparr>rMgmt := Some (m\<lparr>mdPath := cutPath (mdPath m)\<rparr>)\<rparr>)
          else (False, r))"

definition sysEvent :: "SysDetail \<Rightarrow> string" where
  "sysEvent d =
     (case d of
        SysWriterStart _ \<Rightarrow> ''sys.writer.start''
      | SysWriterPanic _ _ \<Rightarrow> ''sys.writer.panic''
      | SysWriterRestart _ _ \<Rightarrow> ''sys.writer.restart''
      | SysSegmentRecovered _ _ _ \<Rightarrow> ''sys.segment.recovered''
      | SysSegmentOpen _ _ _ \<Rightarrow> ''sys.segment.open''
      | SysSegmentSeal _ _ _ \<Rightarrow> ''sys.segment.seal''
      | SysRotationFailed _ \<Rightarrow> ''sys.segment.rotation_failed''
      | SysCompressFailed _ \<Rightarrow> ''sys.segment.compress_failed''
      | SysWriteFailed _ _ _ \<Rightarrow> ''sys.writer.write_failed''
      | SysHeartbeat _ \<Rightarrow> ''sys.heartbeat''
      | SysProducerGap _ _ _ _ _ _ _ _ \<Rightarrow> ''sys.producer.gap''
      | SysReserveBreached _ _ \<Rightarrow> ''sys.disk.reserve_breached''
      | SysLostToRetention _ _ _ _ \<Rightarrow> ''sys.segment.lost_to_retention''
      | SysPrune _ _ _ _ \<Rightarrow> ''sys.segment.prune''
      | SysPruneFailed _ \<Rightarrow> ''sys.segment.prune_failed''
      | SysIntentOrphaned _ _ \<Rightarrow> ''sys.intent.orphaned''
      | SysSink e _ \<Rightarrow> ''sys.sink.'' @ e)"

definition sysRecord :: "SysDetail \<Rightarrow> Record" where
  "sysRecord d =
     \<lparr>EventID = [], TS = None, rStream = ''audit_system'', EventType = sysEvent d, rClass = [], Phase = [],
      rOutcome = \<lparr>oOK = True, oReason = ''ok''\<rparr>, rMgmt = None, rData = None, rSys = Some d,
      producerID = [], pseq = 0\<rparr>"

subsection \<open>The writer's state\<close>

datatype auditErr = ErrUnavailable | ErrWriteFailed | ErrDiskReserve | ErrInvalid

record failInterval =
  fiFirst :: int
  fiLast :: int
  fiCount :: nat

record panicInfo =
  pnLastSeq :: nat
  pnMsg :: string
  pnRestart :: nat

record Retention =
  MaxAge :: int
  MaxBytes :: int
  ReserveBytes :: int
  MaxPrunePerPass :: int

record Writer =
  wSg :: segmenter
  wSeq :: nat
  wRunning :: bool
  wSyncQ :: "(nat \<times> Record) list"
  wQueue :: "nat \<Rightarrow> Record list"
  wPending :: "(nat \<times> Record) list"
  wAnswers :: "(nat \<times> auditErr option) list"
  wFailing :: "failInterval option"
  wAppended :: bool
  wSysDepth :: nat
  wRecovered :: "recovery option"
  wPanic :: "panicInfo option"
  wLastWrite :: int
  wArrivals :: "string \<rightharpoonup> nat"
  wProducers :: "Producer list"
  wAccepted :: "string \<Rightarrow> nat"
  wDropped :: "string \<Rightarrow> string \<Rightarrow> nat"
  wWriteFailures :: nat
  wSyncFailures :: nat
  wMgmtTimeouts :: nat
  wUnattributed :: nat
  wPathSanitized :: nat
  wRotations :: nat
  wReserveBreached :: bool
  wRetention :: Retention
  wHolds :: "string \<rightharpoonup> string"
  wGrand :: "string \<rightharpoonup> int option"
  wPruneOwed :: "int \<rightharpoonup> bool"
  wPassSaw :: "int option"
  wSealedBytes :: int
  wPruned :: nat
  wLostToRetention :: nat
  wReserveBreaches :: nat
  wHeartbeats :: nat
  wRestarts :: nat
  wOrphanedIntents :: nat
  wLastOrphan :: string
  wQueueSize :: nat

definition wNow :: "osLib \<Rightarrow> Writer \<Rightarrow> int" where
  "wNow os w = nowAt os (sgTick (wSg w))"

definition tickW :: "Writer \<Rightarrow> Writer" where
  "tickW w = w\<lparr>wSg := (wSg w)\<lparr>sgTick := Suc (sgTick (wSg w))\<rparr>\<rparr>"

definition noteWriteFailure :: "osLib \<Rightarrow> Writer \<Rightarrow> Writer" where
  "noteWriteFailure os w =
     (let t = wNow os w;
          fi = (case wFailing w of None \<Rightarrow> \<lparr>fiFirst = t, fiLast = t, fiCount = 0\<rparr> | Some fi \<Rightarrow> fi)
      in w\<lparr>wWriteFailures := Suc (wWriteFailures w),
           wFailing := Some (fi\<lparr>fiLast := t, fiCount := Suc (fiCount fi)\<rparr>)\<rparr>)"

definition noteArrival :: "Record \<Rightarrow> Writer \<Rightarrow> Writer" where
  "noteArrival r w =
     (if producerID r = [] then w
      else w\<lparr>wUnattributed := wUnattributed w + (if producerID r = ''w?'' then 1 else 0),
             wArrivals := (wArrivals w)(producerID r \<mapsto> pseq r)\<rparr>)"

subsection \<open>Writing one record\<close>

text \<open>
  The bodies below take the recursive call as their first argument: \<open>self r w\<close> writes \<open>r\<close> and
  says whether it was appended.
\<close>

type_synonym writeFn = "Record \<Rightarrow> Writer \<Rightarrow> (bool \<times> Writer) option"

definition writeSystem :: "osLib \<Rightarrow> writeFn \<Rightarrow> SysDetail \<Rightarrow> Writer \<Rightarrow> Writer option" where
  "writeSystem os self d w =
     (case self ((sysRecord d)\<lparr>TS := Some (wNow os w)\<rparr>) (w\<lparr>wSysDepth := Suc (wSysDepth w)\<rparr>) of
        None \<Rightarrow> None
      | Some (ok, w') \<Rightarrow> Some (w'\<lparr>wSysDepth := wSysDepth w' - 1\<rparr>))"

definition rotateBody :: "osLib \<Rightarrow> writeFn \<Rightarrow> Writer \<Rightarrow> (bool \<times> Writer) option" where
  "rotateBody os self w =
     (case segRotate os (Suc (wSeq w)) (wSg w) of
        ((u, c, ok), sg) \<Rightarrow>
          (let w = w\<lparr>wSg := sg\<rparr> in
           if \<not> ok then
             (case writeSystem os self (SysRotationFailed u) w of None \<Rightarrow> None | Some w \<Rightarrow> Some (False, w))
           else
             (let w = w\<lparr>wRotations := Suc (wRotations w)\<rparr> in
              case writeSystem os self (SysSegmentSeal u c (wSeq w)) w of
                None \<Rightarrow> None
              | Some w \<Rightarrow>
                  (case writeSystem os self (SysSegmentOpen (sgUUID (wSg w)) u (sgFirstSeq (wSg w))) w of
                     None \<Rightarrow> None
                   | Some w \<Rightarrow> Some (True, w)))))"

definition stampOf :: "Writer \<Rightarrow> nat \<Rightarrow> stamp" where
  "stampOf w seq =
     \<lparr>stInstance = sgInstance (wSg w), stBoot = sgBoot (wSg w), stSegment = sgUUID (wSg w), stSeq = seq\<rparr>"

definition prepare :: "osLib \<Rightarrow> Record \<Rightarrow> Writer \<Rightarrow> Record \<times> Writer" where
  "prepare os r w =
     (let (r, w) = (if EventID r = [] then (r\<lparr>EventID := uuidAt os (sgTick (wSg w))\<rparr>, tickW w) else (r, w));
          r = (if TS r = None then r\<lparr>TS := Some (wNow os w)\<rparr> else r);
          (cutAny, r) = sanitize r;
          w = (if cutAny then w\<lparr>wPathSanitized := Suc (wPathSanitized w)\<rparr> else w)
      in (r, noteArrival r w))"

definition appendRecord :: "osLib \<Rightarrow> writeFn \<Rightarrow> Record \<Rightarrow> Writer \<Rightarrow> (bool \<times> Writer) option" where
  "appendRecord os self r w =
     (let seq = Suc (wSeq w) in
      case segAppend os (LRecord (stampOf w seq) r) seq (TS r) (wSg w) of
        (False, sg) \<Rightarrow> Some (False, noteWriteFailure os (w\<lparr>wSg := sg\<rparr>))
      | (True, sg) \<Rightarrow>
          (let w = w\<lparr>wSg := sg, wSeq := seq, wAppended := True,
                     wAccepted := (wAccepted w)(rStream r := Suc (wAccepted w (rStream r)))\<rparr>
           in case wFailing w of
                None \<Rightarrow> Some (True, w)
              | Some fi \<Rightarrow>
                  if wSysDepth w \<noteq> 0 then Some (True, w)
                  else (case writeSystem os self (SysWriteFailed (fiFirst fi) (fiLast fi) (fiCount fi))
                               (w\<lparr>wFailing := None\<rparr>) of
                          None \<Rightarrow> None
                        | Some w \<Rightarrow> Some (True, w))))"

definition writeBody :: "osLib \<Rightarrow> writeFn \<Rightarrow> Record \<Rightarrow> Writer \<Rightarrow> (bool \<times> Writer) option" where
  "writeBody os self r w =
     (let (r, w) = prepare os r w;
          l = LRecord (stampOf w (Suc (wSeq w))) r
      in if needsRotate os (lineBytes os l) (wSg w) then
           (case rotateBody os self w of None \<Rightarrow> None | Some (ok, w) \<Rightarrow> appendRecord os self r w)
         else appendRecord os self r w)"

fun writeRec :: "osLib \<Rightarrow> nat \<Rightarrow> Record \<Rightarrow> Writer \<Rightarrow> (bool \<times> Writer) option" where
  "writeRec os 0 r w = None"
| "writeRec os (Suc n) r w = writeBody os (writeRec os n) r w"

definition rotateW :: "osLib \<Rightarrow> nat \<Rightarrow> Writer \<Rightarrow> (bool \<times> Writer) option" where
  "rotateW os n w = rotateBody os (writeRec os n) w"

definition writeSystemDurable :: "osLib \<Rightarrow> nat \<Rightarrow> SysDetail \<Rightarrow> Writer \<Rightarrow> (bool \<times> Writer) option" where
  "writeSystemDurable os n d w =
     (case writeRec os n ((sysRecord d)\<lparr>TS := Some (wNow os w)\<rparr>) (w\<lparr>wSysDepth := Suc (wSysDepth w)\<rparr>) of
        None \<Rightarrow> None
      | Some (False, w) \<Rightarrow> Some (False, w\<lparr>wSysDepth := wSysDepth w - 1\<rparr>)
      | Some (True, w) \<Rightarrow>
          (case segSync os (wSg w) of
             (False, sg) \<Rightarrow>
               (let w = noteWriteFailure os (w\<lparr>wSg := sg, wSyncFailures := Suc (wSyncFailures w)\<rparr>)
                in Some (False, w\<lparr>wSysDepth := wSysDepth w - 1\<rparr>))
           | (True, sg) \<Rightarrow>
               (let w = w\<lparr>wSg := sg\<rparr> in Some (True, w\<lparr>wLastWrite := wNow os w, wSysDepth := wSysDepth w - 1\<rparr>))))"

subsection \<open>The loop\<close>

definition answer :: "nat \<Rightarrow> auditErr option \<Rightarrow> Writer \<Rightarrow> Writer" where
  "answer q e w = (if q \<in> fst ` set (wAnswers w) then w else w\<lparr>wAnswers := wAnswers w @ [(q, e)]\<rparr>)"

definition failPending :: "auditErr \<Rightarrow> Writer \<Rightarrow> Writer" where
  "failPending e w = (fold (\<lambda>(q, r) w. answer q (Some e) w) (wPending w) w)\<lparr>wPending := []\<rparr>"

definition handleSync :: "osLib \<Rightarrow> nat \<Rightarrow> nat \<times> Record \<Rightarrow> Writer \<Rightarrow> Writer option" where
  "handleSync os n sr w =
     (case writeRec os n (snd sr) w of
        None \<Rightarrow> None
      | Some (False, w) \<Rightarrow> Some (answer (fst sr) (Some ErrWriteFailed) w)
      | Some (True, w) \<Rightarrow> Some (w\<lparr>wPending := wPending w @ [sr]\<rparr>))"

definition flush :: "osLib \<Rightarrow> Writer \<Rightarrow> Writer" where
  "flush os w =
     (if wPending w = [] \<and> sgF (wSg w) = None then w
      else case segSync os (wSg w) of
             (False, sg) \<Rightarrow>
               failPending ErrWriteFailed
                 (noteWriteFailure os (w\<lparr>wSg := sg, wSyncFailures := Suc (wSyncFailures w)\<rparr>))
           | (True, sg) \<Rightarrow>
               (let w = w\<lparr>wSg := sg\<rparr>;
                    w = (if wAppended w then w\<lparr>wLastWrite := wNow os w, wAppended := False\<rparr> else w)
                in (fold (\<lambda>(q, r) w. answer q None w) (wPending w) w)\<lparr>wPending := []\<rparr>))"

definition queueFor :: "Record \<Rightarrow> nat" where
  "queueFor r =
     (if rStream r = ''data'' \<and> rClass r = ''security'' then 1 else if rStream r = ''data'' then 0 else 2)"

definition dropCount :: "string \<Rightarrow> string \<Rightarrow> Writer \<Rightarrow> Writer" where
  "dropCount st why w =
     w\<lparr>wDropped := (wDropped w)(st := (wDropped w st)(why := Suc (wDropped w st why)))\<rparr>"

text \<open>
  \<open>Write\<close> up to its wait: the request is refused, or stands in the channel. The channel holds
  \<open>wQueueSize\<close> requests; while it is full the call waits, which is the call not having
  happened yet.
\<close>

definition Write :: "osLib \<Rightarrow> nat \<Rightarrow> Record \<Rightarrow> Writer \<Rightarrow> Writer" where
  "Write os q r w =
     (let r = (if TS r = None then r\<lparr>TS := Some (wNow os w)\<rparr> else r) in
      if \<not> Validate r then answer q (Some ErrInvalid) (dropCount (rStream r) ''invalid'' w)
      else if \<not> wRunning w then answer q (Some ErrUnavailable) (dropCount (rStream r) ''writer_down'' w)
      else if wReserveBreached w then answer q (Some ErrDiskReserve) (dropCount (rStream r) ''disk_reserve'' w)
      else if length (wSyncQ w) < wQueueSize w then w\<lparr>wSyncQ := wSyncQ w @ [(q, r)]\<rparr>
      else w)"

text \<open>The caller's deadline passes: the call returns, the request stays where it is.\<close>

definition writeTimeout :: "nat \<Rightarrow> Writer \<Rightarrow> Writer" where
  "writeTimeout q w =
     (if q \<in> fst ` set (wAnswers w) then w
      else answer q (Some ErrUnavailable) (w\<lparr>wMgmtTimeouts := Suc (wMgmtTimeouts w)\<rparr>))"

definition Append :: "osLib \<Rightarrow> Record \<Rightarrow> Writer \<Rightarrow> bool \<times> Writer" where
  "Append os r w =
     (let r = (if TS r = None then r\<lparr>TS := Some (wNow os w)\<rparr> else r); c = queueFor r in
      if \<not> Validate r then (False, dropCount (rStream r) ''invalid'' w)
      else if \<not> wRunning w then (False, dropCount (rStream r) ''writer_down'' w)
      else if length (wQueue w c) < wQueueSize w
      then (True, w\<lparr>wQueue := (wQueue w)(c := wQueue w c @ [r])\<rparr>)
      else (False, dropCount (rStream r) ''queue_full'' w))"

text \<open>\<open>Emit\<close> on the \<open>i\<close>-th registered producer; \<open>emitFate\<close> is the reason of the drop, if there is one.\<close>

definition emitFate :: "Record \<Rightarrow> Writer \<Rightarrow> nat option" where
  "emitFate r w =
     (if \<not> Validate r then Some 2
      else if \<not> wRunning w then Some 1
      else if length (wQueue w (queueFor r)) < wQueueSize w then None
      else Some 0)"

definition Emit :: "osLib \<Rightarrow> nat \<Rightarrow> Record \<Rightarrow> Writer \<Rightarrow> bool \<times> Writer" where
  "Emit os i r w =
     (let p = wProducers w ! i;
          r = r\<lparr>producerID := pId p, pseq := Suc (pPseq p),
                rStream := (if rStream r = [] then pStream p else rStream r),
                TS := (if TS r = None then Some (wNow os w) else TS r)\<rparr>;
          fate = emitFate r w;
          w = w\<lparr>wProducers := (wProducers w)[i := emitted fate p]\<rparr>
      in case fate of
           None \<Rightarrow> (True, w\<lparr>wQueue := (wQueue w)(queueFor r := wQueue w (queueFor r) @ [r])\<rparr>)
         | Some _ \<Rightarrow> (False, w))"

text \<open>The heartbeat: the gap records of each producer, then the record with the counters.\<close>

fun writeGaps :: "osLib \<Rightarrow> nat \<Rightarrow> Producer \<Rightarrow> gapRec list \<Rightarrow> Writer \<Rightarrow> Writer option" where
  "writeGaps os n p [] w = Some w"
| "writeGaps os n p (g # gs) w =
     (case writeSystem os (writeRec os n)
             (SysProducerGap (pId p) (pStream p) (drFrom (gRun g)) (drTo (gRun g)) (drReason (gRun g)) (gExact g) (gOverflows g) (gTotal g)) w of
        None \<Rightarrow> None
      | Some w \<Rightarrow> writeGaps os n p gs w)"

fun emitGapsFrom :: "osLib \<Rightarrow> nat \<Rightarrow> nat list \<Rightarrow> Writer \<Rightarrow> Writer option" where
  "emitGapsFrom os n [] w = Some w"
| "emitGapsFrom os n (i # is) w =
     (let (gaps, p) = producerGaps (wProducers w ! i) in
      case writeGaps os n p gaps (w\<lparr>wProducers := (wProducers w)[i := p]\<rparr>) of
        None \<Rightarrow> None
      | Some w \<Rightarrow> emitGapsFrom os n is w)"

definition emitProducerGaps :: "osLib \<Rightarrow> nat \<Rightarrow> Writer \<Rightarrow> Writer option" where
  "emitProducerGaps os n w = emitGapsFrom os n [0..<length (wProducers w)] w"

definition heartbeat :: "osLib \<Rightarrow> nat \<Rightarrow> Writer \<Rightarrow> Writer option" where
  "heartbeat os n w =
     (case emitProducerGaps os n (w\<lparr>wHeartbeats := Suc (wHeartbeats w)\<rparr>) of
        None \<Rightarrow> None
      | Some w \<Rightarrow> writeSystem os (writeRec os n) (SysHeartbeat (wSeq w)) w)"

definition enqueueSystem :: "osLib \<Rightarrow> SysDetail \<Rightarrow> Writer \<Rightarrow> Writer" where
  "enqueueSystem os d w =
     (let r = (sysRecord d)\<lparr>TS := Some (wNow os w)\<rparr> in
      if length (wQueue w 2) < wQueueSize w then w\<lparr>wQueue := (wQueue w)(2 := wQueue w 2 @ [r])\<rparr>
      else dropCount ''audit_system'' ''queue_full'' w)"

text \<open>The compression worker beside the loop: a failure is reported through the control queue.\<close>

definition compressWorker :: "osLib \<Rightarrow> Writer \<Rightarrow> Writer" where
  "compressWorker os w =
     (let sg = compressStep os (wSg w); w' = w\<lparr>wSg := sg\<rparr> in
      case sgCompressQ (wSg w) of
        [] \<Rightarrow> w'
      | t # _ \<Rightarrow>
          if sgCompressFailed sg = sgCompressFailed (wSg w) then w'
          else (let (u, sg) = uuidOf (NPlain t) sg in enqueueSystem os (SysCompressFailed u) (w'\<lparr>wSg := sg\<rparr>)))"

section \<open>Lemmas\<close>

subsection \<open>What a step keeps\<close>

lemma noteArrival_sel [simp]:
  "wSg (noteArrival r w) = wSg w" "wSysDepth (noteArrival r w) = wSysDepth w"
  "wFailing (noteArrival r w) = wFailing w" "wSeq (noteArrival r w) = wSeq w"
  "wPending (noteArrival r w) = wPending w" "wAnswers (noteArrival r w) = wAnswers w"
  by (simp_all add: noteArrival_def)

lemma tickW_sel [simp]:
  "wSg (tickW w) = (wSg w)\<lparr>sgTick := Suc (sgTick (wSg w))\<rparr>" "wSysDepth (tickW w) = wSysDepth w"
  "wFailing (tickW w) = wFailing w" "wSeq (tickW w) = wSeq w"
  "wPending (tickW w) = wPending w" "wAnswers (tickW w) = wAnswers w"
  by (simp_all add: tickW_def)

lemma sanitize_sel [simp]:
  "rSys (snd (sanitize r)) = rSys r" "EventID (snd (sanitize r)) = EventID r"
  by (simp_all add: sanitize_def split: option.split)

text \<open>\<open>prepare\<close> touches the segmenter only in its tick.\<close>

lemma prepare_wSg:
  "wSg (snd (prepare os r w)) = (if EventID r = [] then (wSg w)\<lparr>sgTick := Suc (sgTick (wSg w))\<rparr> else wSg w)"
  by (simp add: prepare_def Let_def split: prod.split)

lemma prepare_sel:
  "wSysDepth (snd (prepare os r w)) = wSysDepth w" "wFailing (snd (prepare os r w)) = wFailing w"
  "wSeq (snd (prepare os r w)) = wSeq w" "wPending (snd (prepare os r w)) = wPending w"
  "wAnswers (snd (prepare os r w)) = wAnswers w"
  by (simp_all add: prepare_def Let_def split: prod.split)

lemma prepare_rec:
  "rSys (fst (prepare os r w)) = rSys r"
  "EventID (fst (prepare os r w)) = (if EventID r = [] then uuidAt os (sgTick (wSg w)) else EventID r)"
proof -
  have *: "rSys r2 = rSys r1 \<and> EventID r2 = EventID r1" if "sanitize r1 = (b, r2)" for r1 r2 b
    using sanitize_sel [of r1] that by simp
  show "rSys (fst (prepare os r w)) = rSys r"
    "EventID (fst (prepare os r w)) = (if EventID r = [] then uuidAt os (sgTick (wSg w)) else EventID r)"
    by (auto simp: prepare_def Let_def split: prod.split dest!: *)
qed

lemma prepare_sg:
  assumes "prepare os r w = (r', w')"
  shows "sgF (wSg w') = sgF (wSg w)" "sgCount (wSg w') = sgCount (wSg w)" "sgSize (wSg w') = sgSize (wSg w)"
    "sgMaxBytes (wSg w') = sgMaxBytes (wSg w)" "sgMaxAge (wSg w') = sgMaxAge (wSg w)"
    "sgOpened (wSg w') = sgOpened (wSg w)" "sgDir (wSg w') = sgDir (wSg w)"
    "sgTick (wSg w) \<le> sgTick (wSg w')" "sgTick (wSg w') \<le> Suc (sgTick (wSg w))"
    "wSysDepth w' = wSysDepth w" "wFailing w' = wFailing w" "wSeq w' = wSeq w" "rSys r' = rSys r"
  using prepare_wSg [of os r w] prepare_sel [of os r w] prepare_rec [of os r w] assms by (simp_all split: if_splits)

subsection \<open>Rotation that never ends\<close>

text \<open>The active segment cannot be renamed, holds a record and is due to be sealed.\<close>

definition cannotSeal :: "osLib \<Rightarrow> Writer \<Rightarrow> bool" where
  "cannotSeal os w \<longleftrightarrow>
     sgF (wSg w) \<noteq> None \<and> sgCount (wSg w) \<noteq> 0 \<and>
     (nameOf (sgDir (wSg w)) NActive = None \<or> (\<forall>k. \<not> renameOkAt os k)) \<and>
     (0 < sgMaxBytes (wSg w) \<and> sgMaxBytes (wSg w) \<le> int (sgSize (wSg w)) \<or>
      0 < sgMaxAge (wSg w) \<and> (\<forall>k \<ge> sgTick (wSg w). sgMaxAge (wSg w) \<le> nowAt os k - sgOpened (wSg w)))"

lemma cannotSeal_prepare:
  assumes "cannotSeal os w" and "prepare os r w = (r', w')"
  shows "cannotSeal os w'"
  using assms(1) prepare_sg [OF assms(2)] by (auto simp: cannotSeal_def)

lemma cannotSeal_needsRotate:
  assumes "cannotSeal os w" and "0 < n"
  shows "needsRotate os n (wSg w)"
  using assms by (auto simp: cannotSeal_def needsRotate_def)

lemma cannotSeal_segRotate:
  assumes "cannotSeal os w"
  shows "\<exists>u c. segRotate os q (wSg w) =
    ((u, c, False), (wSg w)\<lparr>sgTick := Suc (sgTick (wSg w)), sgRotationFailed := Suc (sgRotationFailed (wSg w))\<rparr>)"
  using assms by (auto simp: cannotSeal_def segRotate_def seal_def Let_def split: option.split bool.split)

lemma cannotSeal_writeRec:
  assumes pos: "\<And>st r. 0 < lineBytes os (LRecord st r)"
  shows "cannotSeal os w \<Longrightarrow> writeRec os n r w = None"
proof (induction n arbitrary: r w)
  case 0
  show ?case by simp
next
  case (Suc n)
  obtain r1 w1 where p: "prepare os r w = (r1, w1)" by (cases "prepare os r w")
  have c1: "cannotSeal os w1" by (rule cannotSeal_prepare [OF Suc.prems p])
  obtain u c where ro: "segRotate os (Suc (wSeq w1)) (wSg w1) =
      ((u, c, False), (wSg w1)\<lparr>sgTick := Suc (sgTick (wSg w1)), sgRotationFailed := Suc (sgRotationFailed (wSg w1))\<rparr>)"
    using cannotSeal_segRotate [OF c1] by blast
  define w2 where "w2 = w1\<lparr>wSg := (wSg w1)\<lparr>sgTick := Suc (sgTick (wSg w1)),
    sgRotationFailed := Suc (sgRotationFailed (wSg w1))\<rparr>, wSysDepth := Suc (wSysDepth w1)\<rparr>"
  have "cannotSeal os w2" using c1 by (auto simp: cannotSeal_def w2_def)
  then have "writeRec os n x w2 = None" for x by (rule Suc.IH)
  then have "rotateBody os (writeRec os n) w1 = None"
    by (simp add: rotateBody_def ro writeSystem_def w2_def)
  then show ?case
    using cannotSeal_needsRotate [OF c1 pos] by (simp add: writeBody_def p Let_def)
qed

subsection \<open>A write returns\<close>

lemma writeSystem_mono:
  assumes "\<forall>r w x. f r w = Some x \<longrightarrow> g r w = Some x" and "writeSystem os f d w = Some y"
  shows "writeSystem os g d w = Some y"
proof -
  obtain p where p: "f ((sysRecord d)\<lparr>TS := Some (wNow os w)\<rparr>) (w\<lparr>wSysDepth := Suc (wSysDepth w)\<rparr>) = Some p"
    using assms(2) by (auto simp: writeSystem_def split: option.splits)
  show ?thesis using assms(2) by (simp add: writeSystem_def p assms(1) [rule_format, OF p])
qed

lemma rotateBody_mono:
  assumes "\<forall>r w x. f r w = Some x \<longrightarrow> g r w = Some x" and "rotateBody os f w = Some y"
  shows "rotateBody os g w = Some y"
proof -
  note m = writeSystem_mono [OF assms(1)]
  obtain u c ok sg where s: "segRotate os (Suc (wSeq w)) (wSg w) = ((u, c, ok), sg)" by (metis prod.exhaust)
  show ?thesis
  proof (cases ok)
    case False
    then show ?thesis
      using assms(2) by (auto simp: rotateBody_def s split: option.splits dest: m)
  next
    case True
    then obtain w1 where w1: "writeSystem os f (SysSegmentSeal u c (wSeq w)) (w\<lparr>wSg := sg, wRotations := Suc (wRotations w)\<rparr>) = Some w1"
      using assms(2) by (auto simp: rotateBody_def s split: option.splits)
    then obtain w2 where w2: "writeSystem os f (SysSegmentOpen (sgUUID (wSg w1)) u (sgFirstSeq (wSg w1))) w1 = Some w2"
      using assms(2) True by (auto simp: rotateBody_def s split: option.splits)
    show ?thesis
      using assms(2) True by (simp add: rotateBody_def s w1 w2 m [OF w1] m [OF w2])
  qed
qed

lemma appendRecord_mono:
  assumes "\<forall>r w x. f r w = Some x \<longrightarrow> g r w = Some x" and "appendRecord os f r w = Some y"
  shows "appendRecord os g r w = Some y"
proof -
  note m = writeSystem_mono [OF assms(1)]
  show ?thesis
    using assms(2)
    by (auto simp: appendRecord_def Let_def split: prod.splits bool.splits option.splits if_splits dest: m)
qed

lemma writeRec_Suc_mono: "writeRec os n r w = Some y \<Longrightarrow> writeRec os (Suc n) r w = Some y"
proof (induction n arbitrary: r w y)
  case 0
  then show ?case by simp
next
  case (Suc n)
  obtain r1 w1 where p: "prepare os r w = (r1, w1)" by (cases "prepare os r w")
  have ih: "\<forall>r w x. writeRec os n r w = Some x \<longrightarrow> writeRec os (Suc n) r w = Some x" using Suc.IH by blast
  have body: "writeBody os (writeRec os n) r w = Some y" using Suc.prems by simp
  have "writeBody os (writeRec os (Suc n)) r w = Some y"
  proof (cases "needsRotate os (lineBytes os (LRecord (stampOf w1 (Suc (wSeq w1))) r1)) (wSg w1)")
    case True
    then obtain ok w2 where ro: "rotateBody os (writeRec os n) w1 = Some (ok, w2)"
      and ap: "appendRecord os (writeRec os n) r1 w2 = Some y"
      using body by (auto simp: writeBody_def p Let_def split: option.splits)
    have "rotateBody os (writeRec os (Suc n)) w1 = Some (ok, w2)" by (rule rotateBody_mono [OF ih ro])
    moreover have "appendRecord os (writeRec os (Suc n)) r1 w2 = Some y" by (rule appendRecord_mono [OF ih ap])
    ultimately show ?thesis by (simp add: writeBody_def p Let_def True)
  next
    case False
    then have ap: "appendRecord os (writeRec os n) r1 w1 = Some y" using body by (simp add: writeBody_def p Let_def)
    have "appendRecord os (writeRec os (Suc n)) r1 w1 = Some y" by (rule appendRecord_mono [OF ih ap])
    then show ?thesis by (simp add: writeBody_def p Let_def False)
  qed
  then show ?case by simp
qed

lemma writeRec_mono:
  assumes "writeRec os n r w = Some y" and "n \<le> m"
  shows "writeRec os m r w = Some y"
  using assms(2) by (induction m rule: dec_induct) (use assms(1) writeRec_Suc_mono in auto)

lemma writeSystem_depth:
  assumes "\<forall>r w b w'. f r w = Some (b, w') \<longrightarrow> wSysDepth w' = wSysDepth w" and "writeSystem os f d w = Some w'"
  shows "wSysDepth w' = wSysDepth w"
  using assms(2) by (auto simp: writeSystem_def split: option.splits prod.splits dest: assms(1) [rule_format])

lemma rotateBody_depth:
  assumes "\<forall>r w b w'. f r w = Some (b, w') \<longrightarrow> wSysDepth w' = wSysDepth w" and "rotateBody os f w = Some (ok, w')"
  shows "wSysDepth w' = wSysDepth w"
  using assms(2)
  by (auto simp: rotateBody_def Let_def split: option.splits prod.splits if_splits dest!: writeSystem_depth [OF assms(1)])

lemma appendRecord_depth:
  assumes "\<forall>r w b w'. f r w = Some (b, w') \<longrightarrow> wSysDepth w' = wSysDepth w" and "appendRecord os f r w = Some (ok, w')"
  shows "wSysDepth w' = wSysDepth w"
  using assms(2)
  by (auto simp: appendRecord_def noteWriteFailure_def Let_def split: option.splits prod.splits if_splits bool.splits
      dest!: writeSystem_depth [OF assms(1)])

lemma writeRec_depth: "writeRec os n r w = Some (b, w') \<Longrightarrow> wSysDepth w' = wSysDepth w"
proof (induction n arbitrary: r w b w')
  case (Suc n)
  obtain r1 w1 where p: "prepare os r w = (r1, w1)" by (cases "prepare os r w")
  have ih: "\<forall>r w b w'. writeRec os n r w = Some (b, w') \<longrightarrow> wSysDepth w' = wSysDepth w" using Suc.IH by blast
  note d = rotateBody_depth [OF ih] appendRecord_depth [OF ih]
  show ?case
    using Suc.prems prepare_sg(10) [OF p]
    by (auto simp: writeBody_def p Let_def split: option.splits prod.splits if_splits dest!: d)
qed simp

text \<open>
  When a write returns: renames succeed, the names in headers and in the records a rotation writes
  are of bounded length, a header and two such records fit into a segment, and the clock
  does not advance by the maximal age of a segment within four consecutive reads.
\<close>

definition shortHeader :: "nat \<Rightarrow> segmentHeader \<Rightarrow> bool" where
  "shortHeader L h \<longleftrightarrow> length (hUUID h) \<le> L \<and> length (hPrev h) \<le> L \<and> length (hInstance h) \<le> L \<and> length (hBoot h) \<le> L"

definition shortStamp :: "nat \<Rightarrow> stamp \<Rightarrow> bool" where
  "shortStamp L st \<longleftrightarrow> length (stInstance st) \<le> L \<and> length (stBoot st) \<le> L \<and> length (stSegment st) \<le> L"

definition housekeeping :: "nat \<Rightarrow> SysDetail \<Rightarrow> bool" where
  "housekeeping L d \<longleftrightarrow>
     (case d of
        SysSegmentSeal u c q \<Rightarrow> length u \<le> L
      | SysSegmentOpen u p q \<Rightarrow> length u \<le> L \<and> length p \<le> L
      | SysRotationFailed u \<Rightarrow> length u \<le> L
      | _ \<Rightarrow> False)"

definition roomy :: "osLib \<Rightarrow> nat \<Rightarrow> nat \<Rightarrow> int \<Rightarrow> bool" where
  "roomy os L B m \<longleftrightarrow>
     m \<le> 0 \<or>
     (\<forall>h. shortHeader L h \<longrightarrow> lineBytes os (LHeader h) \<le> B) \<and>
     (\<forall>st d t e. shortStamp L st \<and> housekeeping L d \<and> length e \<le> L \<longrightarrow>
        lineBytes os (LRecord st ((sysRecord d)\<lparr>TS := t, EventID := e\<rparr>)) \<le> B) \<and>
     3 * int B \<le> m"

definition slowClock :: "osLib \<Rightarrow> int \<Rightarrow> bool" where
  "slowClock os m \<longleftrightarrow> m \<le> 0 \<or> (\<forall>j k. j \<le> k \<and> k \<le> j + 4 \<longrightarrow> nowAt os k - nowAt os j < m)"

definition shortIds :: "osLib \<Rightarrow> nat \<Rightarrow> segmenter \<Rightarrow> bool" where
  "shortIds os L s \<longleftrightarrow>
     (\<forall>k. length (uuidAt os k) \<le> L) \<and> length (sgUUID s) \<le> L \<and> length (sgPrev s) \<le> L \<and>
     length (sgInstance s) \<le> L \<and> length (sgBoot s) \<le> L"

definition calm :: "osLib \<Rightarrow> nat \<Rightarrow> nat \<Rightarrow> segmenter \<Rightarrow> bool" where
  "calm os L B s \<longleftrightarrow>
     (\<forall>k. renameOkAt os k) \<and> shortIds os L s \<and> roomy os L B (sgMaxBytes s) \<and> slowClock os (sgMaxAge s) \<and>
     (case nameOf (sgDir s) NActive of
        None \<Rightarrow> sgF s = None
      | Some i \<Rightarrow> sgF s \<noteq> None \<or> fileBytes os (adFiles (sgDir s) i) = 0)"

text \<open>A segment that has at most \<open>m\<close> records of a rotation behind its header, or none open.\<close>

definition fresh :: "osLib \<Rightarrow> nat \<Rightarrow> nat \<Rightarrow> nat \<Rightarrow> segmenter \<Rightarrow> bool" where
  "fresh os L B m s \<longleftrightarrow>
     calm os L B s \<and>
     (sgF s = None \<or>
      sgCount s \<le> m \<and> (0 < sgMaxBytes s \<longrightarrow> sgSize s \<le> Suc m * B) \<and>
      (\<exists>j. sgOpened s = nowAt os j \<and> j \<le> sgTick s \<and> sgTick s \<le> j + 1 + 2 * m))"

lemma calm_tick: "calm os L B s \<Longrightarrow> calm os L B (s\<lparr>sgTick := k\<rparr>)"
  by (simp add: calm_def shortIds_def split: option.splits)

lemma openActive_calm:
  assumes c: "calm os L B s" and n: "sgF s = None" and o: "openActive os q s = (ok, s')"
  shows "calm os L B s' \<and> (sgF s' = None \<or>
    sgCount s' = 0 \<and> (0 < sgMaxBytes s' \<longrightarrow> sgSize s' \<le> B) \<and> sgOpened s' = nowAt os (sgTick s)) \<and>
    sgTick s' = Suc (sgTick s)"
  using o
proof (cases rule: openActive_cases)
  case noOpen
  then show ?thesis using c n by (simp add: calm_tick)
next
  case (noMode i d)
  have "fileBytes os (adFiles d i) = 0"
    using openPathD(2,4) [OF noMode(1)] c n by (auto simp: calm_def split: option.splits)
  then show ?thesis using openPathD(1) [OF noMode(1), of NActive] c n noMode by (simp add: calm_def shortIds_def)
next
  case (header i d h k f)
  have e: "fileBytes os (adFiles d i) = 0"
    using openPathD(2,4) [OF header(1)] c n by (auto simp: calm_def split: option.splits)
  have "shortHeader L h" using c by (simp add: shortHeader_def calm_def shortIds_def header(2))
  moreover have "k \<le> lineBytes os (LHeader h)" by (rule writeLine_bytes [OF header(3)])
  ultimately have "0 < sgMaxBytes s \<Longrightarrow> k \<le> B" using c by (fastforce simp: calm_def roomy_def)
  then show ?thesis using openPathD(1) [OF header(1), of NActive] c e by (simp add: calm_def shortIds_def header(4))
qed

lemma appendTo_calm:
  assumes "calm os L B s" and "sgF s = Some i" and "appendTo os i l q ts s = (ok, s')"
  shows "calm os L B s' \<and> sgF s' = Some i \<and> sgTick s' = Suc (sgTick s) \<and> sgOpened s' = sgOpened s \<and>
    sgCount s' \<le> Suc (sgCount s) \<and> sgSize s' \<le> sgSize s + lineBytes os l \<and> sgMaxBytes s' = sgMaxBytes s"
  using assms(3)
  by (cases rule: appendTo_cases) (use assms(1,2) in \<open>simp_all add: calm_def shortIds_def split: option.splits\<close>)

lemma segAppend_calm:
  assumes c: "calm os L B s" and a: "segAppend os l q ts s = (ok, s')"
  shows "calm os L B s'"
  using a
proof (cases rule: segAppend_cases)
  case (handle i)
  then show ?thesis using appendTo_calm [OF c] by blast
next
  case (reopened s1 i)
  then show ?thesis using openActive_calm [OF c] appendTo_calm by blast
next
  case lost
  then show ?thesis using openActive_calm [OF c] by blast
qed

lemma segAppend_fresh:
  assumes f: "fresh os L B m s" and l: "0 < sgMaxBytes s \<Longrightarrow> lineBytes os l \<le> B"
    and mb: "sgMaxBytes s' = sgMaxBytes s" and a: "segAppend os l q ts (s\<lparr>sgTick := Suc (sgTick s)\<rparr>) = (ok, s')"
  shows "fresh os L B (Suc m) s'"
proof -
  let ?s = "s\<lparr>sgTick := Suc (sgTick s)\<rparr>"
  have c: "calm os L B ?s" using f by (simp add: fresh_def calm_tick)
  show ?thesis
    using a
  proof (cases rule: segAppend_cases)
    case (handle i)
    note t = appendTo_calm [OF c handle]
    have i: "sgF s = Some i" using handle(1) by simp
    then obtain j where j: "sgOpened s = nowAt os j" "j \<le> sgTick s" "sgTick s \<le> j + 1 + 2 * m"
      using f by (auto simp: fresh_def)
    have "0 < sgMaxBytes s \<Longrightarrow> sgSize s' \<le> Suc m * B + B"
      using f l t i by (fastforce simp: fresh_def)
    moreover have "sgCount s \<le> m" using f i by (simp add: fresh_def)
    ultimately show ?thesis using t j mb by (auto simp: fresh_def intro!: exI [of _ j])
  next
    case (reopened s1 i)
    note t1 = openActive_calm [OF c reopened(1,2)]
    note t = appendTo_calm [OF conjunct1 [OF t1] reopened(3,4)]
    have "0 < sgMaxBytes s \<Longrightarrow> sgSize s' \<le> B + B"
      using t1 t l mb reopened(3) by (fastforce simp: fresh_def)
    then show ?thesis using t t1 mb reopened(3) by (auto simp: fresh_def intro!: exI [of _ "Suc (sgTick s)"])
  next
    case lost
    note t = openActive_calm [OF c lost(1,3)]
    then show ?thesis using mb by (auto simp: fresh_def intro!: exI [of _ "Suc (sgTick s)"])
  qed
qed


lemma openActive_limits:
  "openActive os q s = (ok, s') \<Longrightarrow> sgMaxBytes s' = sgMaxBytes s \<and> sgMaxAge s' = sgMaxAge s \<and>
     sgInstance s' = sgInstance s \<and> sgBoot s' = sgBoot s"
  by (erule openActive_cases) simp_all

lemma appendTo_limits:
  "appendTo os i l q ts s = (ok, s') \<Longrightarrow> sgMaxBytes s' = sgMaxBytes s \<and> sgMaxAge s' = sgMaxAge s \<and>
     sgInstance s' = sgInstance s \<and> sgBoot s' = sgBoot s"
  by (erule appendTo_cases) simp_all

lemma segAppend_limits:
  "segAppend os l q ts s = (ok, s') \<Longrightarrow> sgMaxBytes s' = sgMaxBytes s \<and> sgMaxAge s' = sgMaxAge s \<and>
     sgInstance s' = sgInstance s \<and> sgBoot s' = sgBoot s"
  by (erule segAppend_cases) (auto dest!: openActive_limits appendTo_limits)

lemma slowClockD:
  "slowClock os a \<Longrightarrow> 0 < a \<Longrightarrow> j \<le> k \<Longrightarrow> k \<le> j + 4 \<Longrightarrow> nowAt os k - nowAt os j < a"
  by (simp add: slowClock_def)

lemma fresh_needsRotate:
  assumes f: "fresh os L B m s" and m: "m \<le> 1" and n: "0 < sgMaxBytes s \<Longrightarrow> n \<le> B"
  shows "\<not> needsRotate os n (s\<lparr>sgTick := Suc (sgTick s)\<rparr>)"
proof (cases "sgF s = None \<or> sgCount s = 0")
  case False
  then obtain j where j: "sgOpened s = nowAt os j" "j \<le> sgTick s" "sgTick s \<le> j + 1 + 2 * m"
    and s: "0 < sgMaxBytes s \<longrightarrow> sgSize s \<le> Suc m * B" using f unfolding fresh_def by blast
  have c: "calm os L B s" using f by (simp add: fresh_def)
  have "\<not> (0 < sgMaxAge s \<and> sgMaxAge s \<le> nowAt os (Suc (sgTick s)) - sgOpened s)"
    using slowClockD [of os "sgMaxAge s" j "Suc (sgTick s)"] c j m by (auto simp: calm_def)
  moreover have "\<not> (0 < sgMaxBytes s \<and> sgMaxBytes s < int (sgSize s + n))"
  proof
    assume a: "0 < sgMaxBytes s \<and> sgMaxBytes s < int (sgSize s + n)"
    then have "3 * int B \<le> sgMaxBytes s" using c by (auto simp: calm_def roomy_def)
    moreover have "Suc m * B \<le> 2 * B" using m by simp
    moreover have "sgSize s \<le> Suc m * B" "n \<le> B" using a n s by auto
    ultimately show False using a by linarith
  qed
  ultimately show ?thesis by (simp add: needsRotate_def)
qed (auto simp: needsRotate_def)

text \<open>The record a rotation writes, as \<open>prepare\<close> completes it.\<close>

lemma prepare_sysRecord:
  "prepare os ((sysRecord d)\<lparr>TS := Some t\<rparr>) w =
     ((sysRecord d)\<lparr>TS := Some t, EventID := uuidAt os (sgTick (wSg w))\<rparr>, tickW w)"
  by (simp add: prepare_def sysRecord_def sanitize_def noteArrival_def)

lemma appendRecord_deep:
  assumes "wSysDepth w \<noteq> 0"
  shows "\<exists>ok sg w'. segAppend os (LRecord (stampOf w (Suc (wSeq w))) r) (Suc (wSeq w)) (TS r) (wSg w) = (ok, sg) \<and>
    appendRecord os f r w = Some (ok, w') \<and> wSg w' = sg"
proof -
  obtain ok sg where a: "segAppend os (LRecord (stampOf w (Suc (wSeq w))) r) (Suc (wSeq w)) (TS r) (wSg w) = (ok, sg)"
    by (metis prod.exhaust)
  show ?thesis
    using assms by (cases ok) (auto simp: appendRecord_def a Let_def noteWriteFailure_def split: option.splits)
qed

lemma housekeeping_write:
  assumes f: "fresh os L B m (wSg w)" and m: "m \<le> 1" and h: "housekeeping L d"
  shows "\<exists>w'. writeSystem os (writeRec os (Suc n)) d w = Some w' \<and> fresh os L B (Suc m) (wSg w')"
proof -
  define w1 where "w1 = tickW (w\<lparr>wSysDepth := Suc (wSysDepth w)\<rparr>)"
  define r where "r = (sysRecord d)\<lparr>TS := Some (wNow os w), EventID := uuidAt os (sgTick (wSg w))\<rparr>"
  let ?l = "LRecord (stampOf w1 (Suc (wSeq w1))) r"
  have p: "prepare os ((sysRecord d)\<lparr>TS := Some (wNow os w)\<rparr>) (w\<lparr>wSysDepth := Suc (wSysDepth w)\<rparr>) = (r, w1)"
    by (simp add: prepare_sysRecord w1_def r_def)
  have c: "calm os L B (wSg w)" using f by (simp add: fresh_def)
  have short: "shortStamp L (stampOf w1 (Suc (wSeq w1)))"
    using c by (simp add: calm_def shortIds_def shortStamp_def stampOf_def w1_def)
  have uuid: "length (uuidAt os (sgTick (wSg w))) \<le> L" using c by (simp add: calm_def shortIds_def)
  have l: "0 < sgMaxBytes (wSg w) \<Longrightarrow> lineBytes os ?l \<le> B"
    using c short uuid h by (auto simp: calm_def roomy_def r_def)
  have sg1: "wSg w1 = (wSg w)\<lparr>sgTick := Suc (sgTick (wSg w))\<rparr>" by (simp add: w1_def)
  have no: "\<not> needsRotate os (lineBytes os ?l) (wSg w1)"
    unfolding sg1 by (rule fresh_needsRotate [OF f m l])
  obtain ok sg w' where a: "segAppend os ?l (Suc (wSeq w1)) (TS r) (wSg w1) = (ok, sg)"
    and ar: "appendRecord os (writeRec os n) r w1 = Some (ok, w')" and sg: "wSg w' = sg"
    using appendRecord_deep [of w1 os r "writeRec os n"] by (auto simp: w1_def)
  have mb: "sgMaxBytes sg = sgMaxBytes (wSg w)" using segAppend_limits [OF a] by (simp add: sg1)
  have "fresh os L B (Suc m) sg" by (rule segAppend_fresh [OF f l mb a [unfolded sg1]])
  moreover have "writeSystem os (writeRec os (Suc n)) d w = Some (w'\<lparr>wSysDepth := wSysDepth w' - 1\<rparr>)"
    using no by (simp add: writeSystem_def writeBody_def p Let_def ar)
  ultimately show ?thesis by (simp add: sg)
qed

lemma segRotate_calm:
  assumes c: "calm os L B s" and r: "segRotate os q s = ((u, k, ok), s')"
  shows "fresh os L B 0 s' \<and> (ok \<longrightarrow> length u \<le> L) \<and> length u \<le> L"
proof -
  obtain u1 k1 ok1 s1 where se: "seal os s = ((u1, k1, ok1), s1)" by (metis prod.exhaust)
  have s1: "calm os L B s1 \<and> sgF s1 = None \<and> length u1 \<le> L"
    using se
  proof (cases rule: seal_cases)
    case closed
    then show ?thesis using c by simp
  next
    case (kept i)
    then show ?thesis using c by (auto simp: calm_def split: option.splits)
  next
    case (renamed i a t n wok f d s2)
    then show ?thesis
      using c by (auto simp: calm_def shortIds_def cacheRange_def cacheUUID_def enqueueCompress_def split: option.splits)
  qed
  obtain ok2 s2 where o: "openActive os q s1 = (ok2, s2)" by (cases "openActive os q s1")
  have "s' = s2" "u = u1" using r s1 by (auto simp: segRotate_def se o)
  then show ?thesis using openActive_calm [OF _ _ o] s1 by (auto simp: fresh_def)
qed

lemma rotateBody_calm:
  assumes c: "calm os L B (wSg w)"
  shows "\<exists>ok w'. rotateBody os (writeRec os (Suc n)) w = Some (ok, w') \<and> calm os L B (wSg w')"
proof -
  obtain u k ok sg where r: "segRotate os (Suc (wSeq w)) (wSg w) = ((u, k, ok), sg)" by (metis prod.exhaust)
  note f = segRotate_calm [OF c r]
  show ?thesis
  proof (cases ok)
    case False
    obtain w' where "writeSystem os (writeRec os (Suc n)) (SysRotationFailed u) (w\<lparr>wSg := sg\<rparr>) = Some w'" "fresh os L B 1 (wSg w')"
      using housekeeping_write [of os L B 0 "w\<lparr>wSg := sg\<rparr>" "SysRotationFailed u" n] f by (auto simp: housekeeping_def)
    then show ?thesis using False by (auto simp: rotateBody_def r fresh_def)
  next
    case True
    let ?w = "w\<lparr>wSg := sg, wRotations := Suc (wRotations w)\<rparr>"
    obtain w1 where w1: "writeSystem os (writeRec os (Suc n)) (SysSegmentSeal u k (wSeq w)) ?w = Some w1" "fresh os L B 1 (wSg w1)"
      using housekeeping_write [of os L B 0 ?w "SysSegmentSeal u k (wSeq w)" n] f by (auto simp: housekeeping_def)
    then have "length (sgUUID (wSg w1)) \<le> L" by (simp add: fresh_def calm_def shortIds_def)
    then obtain w2 where w2: "writeSystem os (writeRec os (Suc n)) (SysSegmentOpen (sgUUID (wSg w1)) u (sgFirstSeq (wSg w1))) w1 = Some w2"
        "fresh os L B 2 (wSg w2)"
      using housekeeping_write [OF w1(2), of "SysSegmentOpen (sgUUID (wSg w1)) u (sgFirstSeq (wSg w1))" n] f
      by (auto simp: housekeeping_def numeral_2_eq_2)
    then show ?thesis using True w1 by (auto simp: rotateBody_def r fresh_def)
  qed
qed

lemma prepare_calm:
  assumes "calm os L B (wSg w)" and "prepare os r w = (r', w')"
  shows "calm os L B (wSg w')"
  using prepare_wSg [of os r w] assms by (simp add: calm_tick)

text \<open>What precedes the append in \<open>write\<close>.\<close>

lemma writeBody_append:
  assumes c: "calm os L B (wSg w)"
  shows "\<exists>r' w'. writeBody os (writeRec os (Suc n)) r w = appendRecord os (writeRec os (Suc n)) r' w' \<and>
    calm os L B (wSg w') \<and> wSysDepth w' = wSysDepth w"
proof -
  obtain r1 w1 where p: "prepare os r w = (r1, w1)" by (cases "prepare os r w")
  have c1: "calm os L B (wSg w1)" by (rule prepare_calm [OF c p])
  obtain ok w2 where r: "rotateBody os (writeRec os (Suc n)) w1 = Some (ok, w2)" and c2: "calm os L B (wSg w2)"
    using rotateBody_calm [OF c1] by blast
  have d: "wSysDepth w2 = wSysDepth w1" by (rule rotateBody_depth [OF _ r]) (use writeRec_depth in blast)
  show ?thesis
    by (cases "needsRotate os (lineBytes os (LRecord (stampOf w1 (Suc (wSeq w1))) r1)) (wSg w1)")
      (use p r c1 c2 d prepare_sg(10) [OF p] in \<open>auto simp: writeBody_def Let_def\<close>)
qed

lemma write_deep:
  assumes c: "calm os L B (wSg w)" and d: "wSysDepth w \<noteq> 0"
  shows "\<exists>b w'. writeRec os (Suc (Suc n)) r w = Some (b, w')"
proof -
  obtain r1 w1 where e: "writeBody os (writeRec os (Suc n)) r w = appendRecord os (writeRec os (Suc n)) r1 w1"
    and d1: "wSysDepth w1 \<noteq> 0" using writeBody_append [OF c] d by metis
  show ?thesis using appendRecord_deep [OF d1, of os r1 "writeRec os (Suc n)"] e by auto
qed

lemma writeSystem_deep:
  assumes "calm os L B (wSg w)"
  shows "writeSystem os (writeRec os (Suc (Suc n))) d w \<noteq> None"
  using write_deep [of os L B "w\<lparr>wSysDepth := Suc (wSysDepth w)\<rparr>" n] assms
  by (fastforce simp: writeSystem_def simp del: writeRec.simps split: option.splits)

lemma appendRecord_returns:
  assumes c: "calm os L B (wSg w)"
  shows "appendRecord os (writeRec os (Suc (Suc n))) r w \<noteq> None"
proof -
  let ?l = "LRecord (stampOf w (Suc (wSeq w))) r"
  obtain ok sg where a: "segAppend os ?l (Suc (wSeq w)) (TS r) (wSg w) = (ok, sg)" by (metis prod.exhaust)
  have "calm os L B sg" by (rule segAppend_calm [OF c a])
  then have no: "writeSystem os (writeRec os (Suc (Suc n))) d (w\<lparr>wSg := sg, wSeq := q, wAppended := b, wAccepted := acc, wFailing := None\<rparr>) \<noteq> None"
    for d q b acc by (intro writeSystem_deep) simp
  show ?thesis
    by (auto simp: appendRecord_def a Let_def no simp del: writeRec.simps not_None_eq split: bool.splits option.splits)
qed

subsection \<open>Segments smaller than a record\<close>

text \<open>Every operation succeeds, but no record fits into a segment.\<close>

definition tooSmall :: "osLib \<Rightarrow> segmenter \<Rightarrow> bool" where
  "tooSmall os s \<longleftrightarrow>
     (\<forall>k. openOkAt os k \<and> modeOkAt os k \<and> hdrCutAt os k = None \<and> recCutAt os k = None \<and> ftrCutAt os k = None \<and>
        renameOkAt os k \<and> sealSyncOkAt os k \<and> closeOkAt os k) \<and>
     0 < sgMaxBytes s \<and> (\<forall>st r. sgMaxBytes s < int (lineBytes os (LRecord st r))) \<and>
     sgF s \<noteq> None \<and> nameOf (sgDir s) NActive \<noteq> None"

lemma tooSmall_tick: "tooSmall os s \<Longrightarrow> tooSmall os (s\<lparr>sgTick := k\<rparr>)"
  by (simp add: tooSmall_def)

lemma tooSmall_segRotate:
  assumes t: "tooSmall os s"
  shows "\<exists>u c s'. segRotate os q s = ((u, c, True), s') \<and> tooSmall os s' \<and> sgCount s' = 0"
proof -
  obtain u c ok s1 where se: "seal os s = ((u, c, ok), s1)" by (metis prod.exhaust)
  have s1: "ok \<and> sgF s1 = None \<and> sgMaxBytes s1 = sgMaxBytes s"
    using se
  proof (cases rule: seal_cases)
    case (renamed i a t n wok f d s2)
    then show ?thesis using t
      by (auto simp: tooSmall_def writeLine_def cacheRange_def cacheUUID_def enqueueCompress_def)
  qed (use t in \<open>auto simp: tooSmall_def\<close>)
  obtain ok2 s2 where o: "openActive os q s1 = (ok2, s2)" by (cases "openActive os q s1")
  have "ok2 \<and> tooSmall os s2 \<and> sgCount s2 = 0"
    using o
  proof (cases rule: openActive_cases)
    case (header i d h n f)
    then show ?thesis using t s1 openPathD(1) [OF header(1), of NActive] by (simp add: tooSmall_def writeLine_def)
  qed (use t in \<open>simp_all add: tooSmall_def\<close>)
  then show ?thesis using s1 by (auto simp: segRotate_def se o)
qed

lemma tooSmall_segAppend:
  assumes "tooSmall os s"
  shows "\<exists>s'. segAppend os l q ts s = (True, s') \<and> tooSmall os s' \<and> sgCount s' \<noteq> 0"
  using assms by (auto simp: segAppend_def appendTo_def writeLine_def Let_def tooSmall_def)

lemma tooSmall_write:
  assumes "tooSmall os (wSg w)" and "sgCount (wSg w) = 0"
  shows "\<exists>w'. writeSystem os (writeRec os (Suc n)) d w = Some w' \<and> tooSmall os (wSg w') \<and> sgCount (wSg w') \<noteq> 0"
proof -
  define w1 where "w1 = tickW (w\<lparr>wSysDepth := Suc (wSysDepth w)\<rparr>)"
  define r where "r = (sysRecord d)\<lparr>TS := Some (wNow os w), EventID := uuidAt os (sgTick (wSg w))\<rparr>"
  have p: "prepare os ((sysRecord d)\<lparr>TS := Some (wNow os w)\<rparr>) (w\<lparr>wSysDepth := Suc (wSysDepth w)\<rparr>) = (r, w1)"
    by (simp add: prepare_sysRecord w1_def r_def)
  have no: "\<not> needsRotate os k (wSg w1)" for k using assms(2) by (simp add: needsRotate_def w1_def)
  have "tooSmall os (wSg w1)" using assms(1) by (simp add: w1_def tooSmall_tick)
  then obtain sg where a: "segAppend os (LRecord (stampOf w1 (Suc (wSeq w1))) r) (Suc (wSeq w1)) (TS r) (wSg w1) = (True, sg)"
      "tooSmall os sg" "sgCount sg \<noteq> 0" using tooSmall_segAppend by blast
  have "wSysDepth w1 \<noteq> 0" by (simp add: w1_def)
  then obtain w' where "appendRecord os (writeRec os n) r w1 = Some (True, w')" "tooSmall os (wSg w')" "sgCount (wSg w') \<noteq> 0"
    using appendRecord_deep [of w1 os r "writeRec os n"] a by auto
  then show ?thesis using no by (simp add: writeSystem_def writeBody_def p Let_def)
qed

lemma tooSmall_writeRec: "tooSmall os (wSg w) \<Longrightarrow> sgCount (wSg w) \<noteq> 0 \<Longrightarrow> writeRec os n r w = None"
proof (induction n arbitrary: r w)
  case (Suc n)
  obtain r1 w1 where p: "prepare os r w = (r1, w1)" by (cases "prepare os r w")
  have t1: "tooSmall os (wSg w1)" and c1: "sgCount (wSg w1) \<noteq> 0"
    using prepare_wSg [of os r w] Suc.prems p by (simp_all add: tooSmall_tick)
  obtain u c sg where r: "segRotate os (Suc (wSeq w1)) (wSg w1) = ((u, c, True), sg)" "tooSmall os sg" "sgCount sg = 0"
    using tooSmall_segRotate [OF t1] by blast
  let ?w = "w1\<lparr>wSg := sg, wRotations := Suc (wRotations w1)\<rparr>"
  have "rotateBody os (writeRec os n) w1 = None"
  proof (cases n)
    case 0
    then show ?thesis by (simp add: rotateBody_def r writeSystem_def)
  next
    case (Suc m)
    obtain w2 where w2: "writeSystem os (writeRec os n) (SysSegmentSeal u c (wSeq w1)) ?w = Some w2"
        "tooSmall os (wSg w2)" "sgCount (wSg w2) \<noteq> 0"
      using tooSmall_write [of os ?w m] r Suc by auto
    have "writeSystem os (writeRec os n) d w2 = None" for d
      using Suc.IH [of "w2\<lparr>wSysDepth := Suc (wSysDepth w2)\<rparr>"] w2 by (simp add: writeSystem_def)
    then show ?thesis using w2 by (simp add: rotateBody_def r)
  qed
  moreover have "needsRotate os (lineBytes os (LRecord (stampOf w1 (Suc (wSeq w1))) r1)) (wSg w1)"
  proof -
    have "sgMaxBytes (wSg w1) < int (lineBytes os (LRecord (stampOf w1 (Suc (wSeq w1))) r1))" using t1 by (simp add: tooSmall_def)
    then have "sgMaxBytes (wSg w1) < int (sgSize (wSg w1) + lineBytes os (LRecord (stampOf w1 (Suc (wSeq w1))) r1))" by simp
    moreover have "sgF (wSg w1) \<noteq> None" "0 < sgMaxBytes (wSg w1)" using t1 by (auto simp: tooSmall_def)
    ultimately show ?thesis using c1 unfolding needsRotate_def by blast
  qed
  ultimately show ?case by (simp add: writeBody_def p Let_def)
qed simp
subsection \<open>Examples\<close>

text \<open>A system on which every operation succeeds, and a writer with one record in its active segment.\<close>

definition exOs :: osLib where
  "exOs = \<lparr>textBytes = (\<lambda>_. 80), nowAt = (\<lambda>k. int k), uuidAt = (\<lambda>_. ''u''), openOkAt = (\<lambda>_. True), modeOkAt = (\<lambda>_. True),
     hdrCutAt = (\<lambda>_. None), recCutAt = (\<lambda>_. None), ftrCutAt = (\<lambda>_. None), truncOkAt = (\<lambda>_. True), renameOkAt = (\<lambda>_. True),
     sealSyncOkAt = (\<lambda>_. True), closeOkAt = (\<lambda>_. True), syncOkAt = (\<lambda>_. True), gzipOkAt = (\<lambda>_. True), removeOkAt = (\<lambda>_. True),
     removeGzOkAt = (\<lambda>_. True)\<rparr>"

definition exSeg :: "int \<Rightarrow> segmenter" where
  "exSeg maxBytes = (newSegmenter \<lparr>adNames = [(NActive, 0)], adFiles = (\<lambda>_. emptyFile), adNext = 1\<rparr> ''gw'' ''b1'' maxBytes 3600 0)
     \<lparr>sgF := Some 0, sgSize := 200, sgCount := 1\<rparr>"

definition exWriter :: "segmenter \<Rightarrow> Writer" where
  "exWriter sg =
     \<lparr>wSg = sg, wSeq = 1, wRunning = True, wSyncQ = [], wQueue = (\<lambda>_. []), wPending = [], wAnswers = [], wFailing = None,
      wAppended = False, wSysDepth = 0, wRecovered = None, wPanic = None, wLastWrite = 0, wArrivals = Map.empty,
      wProducers = [], wAccepted = (\<lambda>_. 0),
      wDropped = (\<lambda>_ _. 0), wWriteFailures = 0, wSyncFailures = 0, wMgmtTimeouts = 0, wUnattributed = 0, wPathSanitized = 0,
      wRotations = 0, wReserveBreached = False, wRetention = \<lparr>MaxAge = 0, MaxBytes = 0, ReserveBytes = 0, MaxPrunePerPass = 0\<rparr>,
      wHolds = Map.empty, wGrand = Map.empty, wPruneOwed = Map.empty, wPassSaw = None, wSealedBytes = 0, wPruned = 0,
      wLostToRetention = 0, wReserveBreaches = 0, wHeartbeats = 0, wRestarts = 0, wOrphanedIntents = 0, wLastOrphan = [],
      wQueueSize = 4\<rparr>"

definition exIntent :: Record where
  "exIntent = \<lparr>EventID = ''e1'', TS = None, rStream = ''mgmt'', EventType = ''mgmt.rule.create'', rClass = [], Phase = ''intent'',
     rOutcome = \<lparr>oOK = True, oReason = ''ok''\<rparr>, rMgmt = Some \<lparr>mdPath = ''/rules''\<rparr>, rData = None, rSys = None,
     producerID = [], pseq = 0\<rparr>"

subsection \<open>Properties\<close>

text \<open>
  C13. A write returns. If renames succeed, a header and the two records of a rotation fit into a
  segment, and the clock does not run through a segment's maximal age between neighbouring reads,
  then \<open>write\<close> returns for every record and in every state of the writer: its calls of itself,
  through the records of a rotation and the report on a run of failures, are nested three deep at
  most. Writes, flushes, opens, footers and truncations may fail at any point.
\<close>

theorem write_returns:
  assumes "calm os L B (wSg w)"
  shows "\<exists>b w'. \<forall>n \<ge> 3. writeRec os n r w = Some (b, w')"
proof -
  obtain r1 w1 where e: "writeBody os (writeRec os (Suc (Suc 0))) r w = appendRecord os (writeRec os (Suc (Suc 0))) r1 w1"
    and c1: "calm os L B (wSg w1)" using writeBody_append [OF assms] by metis
  have "writeRec os 3 r w = appendRecord os (writeRec os (Suc (Suc 0))) r1 w1"
    using e by (simp add: numeral_3_eq_3)
  then have "writeRec os 3 r w \<noteq> None" using appendRecord_returns [OF c1, of 0] by simp
  then obtain b w' where "writeRec os 3 r w = Some (b, w')" by auto
  then show ?thesis using writeRec_mono by blast
qed

theorem write_returns_witness:
  "calm exOs 8 80 (wSg (exWriter (exSeg 250))) \<and> needsRotate exOs 80 (exSeg 250) \<and>
     (\<exists>b w'. \<forall>n \<ge> 3. writeRec exOs n exIntent (exWriter (exSeg 250)) = Some (b, w'))"
proof -
  have c: "calm exOs 8 80 (wSg (exWriter (exSeg 250)))"
    by (simp add: calm_def shortIds_def roomy_def slowClock_def exOs_def exWriter_def exSeg_def newSegmenter_def nameOf_def lineBytes_def)
  moreover have "needsRotate exOs 80 (exSeg 250)" by (simp add: needsRotate_def exSeg_def newSegmenter_def)
  ultimately show ?thesis using write_returns [OF c, of exIntent] by blast
qed

text \<open>
  C39. A rotation that cannot rename never ends. While the active segment holds a record and has
  reached its size, and its file is gone or renames are refused, \<open>rotate\<close> reports the
  failure through \<open>write\<close>, which finds the same segment due and rotates again: for no depth of
  calls does a write return, whatever the record.
\<close>

theorem failed_rotation_recurses:
  assumes "\<And>st r. 0 < lineBytes os (LRecord st r)" and "sgF (wSg w) = Some i" and "sgCount (wSg w) \<noteq> 0"
    and "nameOf (sgDir (wSg w)) NActive = None \<or> (\<forall>k. \<not> renameOkAt os k)"
    and "0 < sgMaxBytes (wSg w)" and "sgMaxBytes (wSg w) \<le> int (sgSize (wSg w))"
  shows "writeRec os n r w = None"
  by (rule cannotSeal_writeRec) (use assms in \<open>auto simp: cannotSeal_def\<close>)

theorem failed_rotation_recurses_witness:
  "writeRec (exOs\<lparr>renameOkAt := (\<lambda>_. False)\<rparr>) 1000 exIntent (exWriter (exSeg 200)) = None"
  by (rule failed_rotation_recurses) (simp_all add: exOs_def exWriter_def exSeg_def newSegmenter_def lineBytes_def)

text \<open>
  C40. A limit smaller than a record stops the writer. If no record fits into a segment, then,
  with every operation of the file system succeeding, the record that reports a sealed segment fills the new one, the
  record that reports the new one is due for the next, and so on: a write into a segment that holds a record
  returns for no depth of calls.
\<close>

theorem small_segment_recurses:
  assumes "\<And>k. openOkAt os k" "\<And>k. modeOkAt os k" "\<And>k. renameOkAt os k" "\<And>k. sealSyncOkAt os k" "\<And>k. closeOkAt os k"
    and "\<And>k. hdrCutAt os k = None" "\<And>k. recCutAt os k = None" "\<And>k. ftrCutAt os k = None"
    and "sgF (wSg w) = Some i" and "nameOf (sgDir (wSg w)) NActive = Some i" and "sgCount (wSg w) \<noteq> 0"
    and "0 < sgMaxBytes (wSg w)" and "\<And>st r. sgMaxBytes (wSg w) < int (lineBytes os (LRecord st r))"
  shows "writeRec os n r w = None"
  by (rule tooSmall_writeRec) (use assms in \<open>simp_all add: tooSmall_def\<close>)

theorem small_segment_recurses_witness:
  "writeRec exOs 1000 exIntent (exWriter (exSeg 64)) = None"
  by (rule small_segment_recurses [where i = 0])
    (simp_all add: exOs_def exWriter_def exSeg_def newSegmenter_def lineBytes_def nameOf_def)

end
