(* ===== verification/Audit_Trail.thy ===== *)
theory Audit_Trail
  imports Audit_Writer "HOL-Library.Sublist"
begin

text \<open>
  What the audit writer keeps of its trail. \<open>sgOk\<close> is the invariant of the directory and the open
  segment, \<open>grows\<close> the relation between the directory before and after: files only gain lines, and
  what is on stable storage stays there. The interface \<open>trail_relation\<close> lifts a relation that every operation
  of the segmenter respects to \<open>write\<close> and what is built from it, through the recursion of
  rotations and failure reports; it is used for growth, for sequence numbers and for durability.
\<close>

section \<open>The directory\<close>

definition dirOk :: "adir \<Rightarrow> bool" where
  "dirOk d \<longleftrightarrow>
     (\<forall>i \<ge> adNext d. adFiles d i = emptyFile) \<and>
     (\<forall>i. sfSynced (adFiles d i) \<le> length (sfLines (adFiles d i))) \<and>
     (\<forall>n i. nameOf d n = Some i \<longrightarrow> i < adNext d) \<and>
     (\<forall>n m i. nameOf d n = Some i \<longrightarrow> nameOf d m = Some i \<longrightarrow> n = m)"

lemma dirOkD:
  assumes "dirOk d"
  shows "adNext d \<le> i \<Longrightarrow> adFiles d i = emptyFile" "sfSynced (adFiles d i) \<le> length (sfLines (adFiles d i))"
    "nameOf d n = Some i \<Longrightarrow> i < adNext d" "nameOf d n = Some i \<Longrightarrow> nameOf d m = Some i \<Longrightarrow> n = m"
  using assms unfolding dirOk_def by blast+

lemma dirOkI:
  assumes "\<And>i. adNext d \<le> i \<Longrightarrow> adFiles d i = emptyFile" "\<And>i. sfSynced (adFiles d i) \<le> length (sfLines (adFiles d i))"
    "\<And>n i. nameOf d n = Some i \<Longrightarrow> i < adNext d" "\<And>n m i. nameOf d n = Some i \<Longrightarrow> nameOf d m = Some i \<Longrightarrow> n = m"
  shows "dirOk d"
  using assms unfolding dirOk_def by blast

definition grows :: "adir \<Rightarrow> adir \<Rightarrow> bool" where
  "grows d d' \<longleftrightarrow>
     (\<forall>i. prefix (sfLines (adFiles d i)) (sfLines (adFiles d' i)) \<and> sfSynced (adFiles d i) \<le> sfSynced (adFiles d' i)) \<and>
     adNext d \<le> adNext d'"

lemma grows_refl [simp]: "grows d d"
  by (simp add: grows_def)

lemma grows_trans: "grows d e \<Longrightarrow> grows e f \<Longrightarrow> grows d f"
  unfolding grows_def by (meson order_trans prefix_order.trans)

lemma growsD: "grows d d' \<Longrightarrow> prefix (sfLines (adFiles d i)) (sfLines (adFiles d' i))"
  "grows d d' \<Longrightarrow> sfSynced (adFiles d i) \<le> sfSynced (adFiles d' i)"
  by (auto simp: grows_def)

text \<open>Names change, files do not.\<close>

lemma grows_names: "adFiles d' = adFiles d \<Longrightarrow> adNext d' = adNext d \<Longrightarrow> grows d d'"
  by (simp add: grows_def)

lemma setFile_ok:
  assumes "dirOk d" and "i < adNext d" and "prefix (sfLines (adFiles d i)) (sfLines f)"
    and "sfSynced (adFiles d i) \<le> sfSynced f" and "sfSynced f \<le> length (sfLines f)"
  shows "dirOk (setFile i f d)" "grows d (setFile i f d)"
  using assms by (auto simp: dirOk_def grows_def)

lemma delName_ok: "dirOk d \<Longrightarrow> dirOk (delName n d)" "grows d (delName n d)"
  by (auto simp: dirOk_def grows_def)

lemma createFile_ok:
  assumes "dirOk d" and "createFile n f d = (i, d')" and "sfSynced f \<le> length (sfLines f)"
  shows "dirOk d'" "grows d d'"
proof -
  note c = createFileD [OF assms(2)]
  have old: "nameOf d m = Some j \<Longrightarrow> j < adNext d" for m j using dirOkD(3) [OF assms(1)] .
  show "dirOk d'"
  proof (rule dirOkI)
    show "adFiles d' j = emptyFile" if "adNext d' \<le> j" for j
      using that c(1,3,4) dirOkD(1) [OF assms(1), of j] by simp
    show "sfSynced (adFiles d' j) \<le> length (sfLines (adFiles d' j))" for j
      using c(3) dirOkD(2) [OF assms(1), of j] assms(3) by simp
    show "j < adNext d'" if "nameOf d' m = Some j" for m j
      using that c(1,4) c(2) [of m] old [of m j] by (cases "m = n") simp_all
    show "m = k" if "nameOf d' m = Some j" "nameOf d' k = Some j" for m k j
      using that c(1) c(2) [of m] c(2) [of k] old [of m j] old [of k j] dirOkD(4) [OF assms(1), of m j k]
      by (cases "m = n"; cases "k = n") simp_all
  qed
  show "grows d d'"
    using c(1,3,4) dirOkD(1) [OF assms(1), of "adNext d"] by (auto simp: grows_def emptyFile_def)
qed

lemma renameTo_ok:
  assumes "dirOk d" and "nameOf d old = Some i" and "nameOf d new = None"
  shows "dirOk (renameTo old new i d)" "grows d (renameTo old new i d)"
proof -
  show "dirOk (renameTo old new i d)"
  proof (rule dirOkI)
    show "j < adNext (renameTo old new i d)" if "nameOf (renameTo old new i d) m = Some j" for m j
      using that assms(2) dirOkD(3) [OF assms(1)] by (auto split: if_splits)
    show "m = k" if "nameOf (renameTo old new i d) m = Some j" "nameOf (renameTo old new i d) k = Some j" for m k j
      using that assms(2) dirOkD(4) [OF assms(1)] by (auto split: if_splits)
  qed (use dirOkD(1,2) [OF assms(1)] in auto)
  show "grows d (renameTo old new i d)" by (rule grows_names) simp_all
qed

lemma openPath_ok:
  assumes "dirOk d" and "openPath d = (i, d')"
  shows "dirOk d'" "grows d d'" "nameOf d' NActive = Some i"
proof -
  have "dirOk d' \<and> grows d d'"
    using assms createFile_ok [OF assms(1), of NActive emptyFile i d']
    by (auto simp: openPath_def emptyFile_def split: option.splits)
  then show "dirOk d'" "grows d d'" by auto
  show "nameOf d' NActive = Some i" using openPathD(1) [OF assms(2), of NActive] by simp
qed

section \<open>Files\<close>

lemma writeLine_lines:
  assumes "writeLine os short l f = (n, ok, f')"
  shows "prefix (sfLines f) (sfLines f')" "sfSynced f' = sfSynced f"
  using assms by (auto simp: writeLine_def addLine_def Let_def split: option.splits if_splits)

lemma addLine_lines: "prefix (sfLines f) (sfLines (addLine os l f))" "sfSynced (addLine os l f) = sfSynced f"
  by (auto simp: addLine_def)

lemma syncFile_lines: "sfLines (syncFile f) = sfLines f" "sfSynced (syncFile f) = length (sfLines f)"
  "fileBytes os (syncFile f) = fileBytes os f"
  by (simp_all add: syncFile_def fileBytes_def)

lemma fileBytes_addLine: "fileBytes os (addLine os l f) = fileBytes os f + lineBytes os l"
  by (simp add: fileBytes_def addLine_def lineBytes_def)

lemma fileBytes_torn: "fileBytes os (f\<lparr>sfTorn := sfTorn f + n\<rparr>) = fileBytes os f + n"
  by (simp add: fileBytes_def)

lemma cutBytes_all: "cutBytes os (sum_list (map (lineBytes os) ls) + t) ls (t + n) = (ls, t)"
  by (induction ls) auto

text \<open>Cutting a file back to its length before a short write brings it back as it was.\<close>

lemma truncate_back:
  assumes "sfSynced f \<le> length (sfLines f)"
  shows "truncateTo os (fileBytes os f) (f\<lparr>sfTorn := sfTorn f + n\<rparr>) = f"
  using assms by (simp add: truncateTo_def fileBytes_def cutBytes_all min_def)

section \<open>The segmenter\<close>

definition sgOk :: "osLib \<Rightarrow> segmenter \<Rightarrow> bool" where
  "sgOk os s \<longleftrightarrow>
     dirOk (sgDir s) \<and>
     (\<forall>i. sgF s = Some i \<longrightarrow> nameOf (sgDir s) NActive = Some i \<and> sgSize s = fileBytes os (adFiles (sgDir s) i))"

lemma sgOkD:
  assumes "sgOk os s"
  shows "dirOk (sgDir s)" "sgF s = Some i \<Longrightarrow> nameOf (sgDir s) NActive = Some i"
    "sgF s = Some i \<Longrightarrow> sgSize s = fileBytes os (adFiles (sgDir s) i)" "sgF s = Some i \<Longrightarrow> i < adNext (sgDir s)"
  using assms dirOkD(3) [of "sgDir s" NActive i] by (auto simp: sgOk_def)

lemma sgOk_same:
  assumes "sgOk os s" and "sgDir s' = sgDir s" and "sgF s' = sgF s" and "sgSize s' = sgSize s"
  shows "sgOk os s'"
  using assms by (simp add: sgOk_def)

lemma openActive_ok:
  assumes s: "sgOk os s" and o: "openActive os q s = (ok, s')" and n: "sgF s = None"
  shows "sgOk os s' \<and> grows (sgDir s) (sgDir s')"
  using o
proof (cases rule: openActive_cases)
  case noOpen
  then show ?thesis using s n by (simp add: sgOk_def)
next
  case (noMode i d)
  then show ?thesis using openPath_ok [OF sgOkD(1) [OF s] noMode(1)] n by (simp add: sgOk_def)
next
  case (header i d h k f)
  note p = openPath_ok [OF sgOkD(1) [OF s] header(1)]
  note l = writeLine_lines [OF header(3)]
  have i: "i < adNext d" using dirOkD(3) [OF p(1,3)] .
  have "sfSynced f \<le> length (sfLines f)"
    using l prefix_length_le [OF l(1)] dirOkD(2) [OF p(1), of i] by simp
  note f = setFile_ok [OF p(1) i l(1) _ this]
  show ?thesis
    using f l(2) grows_trans [OF p(2)] p(3) writeLine_fileBytes [OF header(3)] by (simp add: header(4) sgOk_def)
qed

lemma appendTo_ok:
  assumes s: "sgOk os s" and i: "sgF s = Some i" and a: "appendTo os i l q ts s = (ok, s')"
  shows "sgOk os s' \<and> grows (sgDir s) (sgDir s')"
proof -
  let ?f = "adFiles (sgDir s) i"
  note d = sgOkD(1) [OF s] and n = sgOkD(2-4) [OF s i]
  have sy: "sfSynced ?f \<le> length (sfLines ?f)" using dirOkD(2) [OF d] .
  show ?thesis
    using a
  proof (cases rule: appendTo_cases)
    case whole
    have "sfSynced (addLine os l ?f) \<le> length (sfLines (addLine os l ?f))"
      using sy addLine_lines [where f = ?f and l = l] prefix_length_le [of "sfLines ?f"] by (metis order_trans)
    note f = setFile_ok [OF d n(3) addLine_lines(1) _ this]
    show ?thesis using f n i by (simp add: whole(3) sgOk_def addLine_lines fileBytes_addLine)
  next
    case (cutBack k f)
    have "truncateTo os (sgSize s) f = ?f" using truncate_back [OF sy] n by (simp add: cutBack(4))
    then show ?thesis using setFile_ok [OF d n(3), of ?f] sy n i by (simp add: cutBack(5) sgOk_def)
  next
    case (torn k f)
    have "sfLines f = sfLines ?f" "sfSynced f = sfSynced ?f" by (simp_all add: torn(4))
    then show ?thesis using setFile_ok [OF d n(3), of f] sy n i by (simp add: torn(4,5) sgOk_def fileBytes_torn)
  qed
qed

lemma segAppend_ok:
  assumes s: "sgOk os s" and a: "segAppend os l q ts s = (ok, s')"
  shows "sgOk os s' \<and> grows (sgDir s) (sgDir s')"
  using a
proof (cases rule: segAppend_cases)
  case (handle i)
  then show ?thesis using appendTo_ok [OF s] by blast
next
  case (reopened s1 i)
  then show ?thesis using openActive_ok [OF s] appendTo_ok grows_trans by blast
next
  case lost
  then show ?thesis using openActive_ok [OF s] by blast
qed

lemma segSync_ok:
  assumes s: "sgOk os s" and a: "segSync os s = (ok, s')"
  shows "sgOk os s' \<and> grows (sgDir s) (sgDir s')"
proof (cases "sgF s")
  case None
  then show ?thesis using s a by (simp add: segSync_def)
next
  case (Some i)
  let ?f = "adFiles (sgDir s) i"
  note d = sgOkD(1) [OF s] and n = sgOkD(2-4) [OF s Some]
  have "dirOk (setFile i (syncFile ?f) (sgDir s))" "grows (sgDir s) (setFile i (syncFile ?f) (sgDir s))"
    using setFile_ok [OF d n(3), of "syncFile ?f"] dirOkD(2) [OF d, of i] by (simp_all add: syncFile_lines)
  then show ?thesis
    using a Some n s by (auto simp: segSync_def Let_def sgOk_def syncFile_lines split: if_splits)
qed

lemma seal_ok:
  assumes s: "sgOk os s" and a: "seal os s = ((u, c, ok), s')"
  shows "sgOk os s' \<and> grows (sgDir s) (sgDir s')"
  using a
proof (cases rule: seal_cases)
  case (renamed i a t k wok f d s1)
  note D = sgOkD(1) [OF s] and n = sgOkD(2-4) [OF s renamed(1)]
  have ai: "a = i" using n(1) renamed(2) by simp
  have new: "nameOf (sgDir s) (NPlain t) = None" using sealedName_least(1) renamed(5) by simp
  note r = renameTo_ok [OF D n(1) new]
  note l = writeLine_lines [OF renamed(7)]
  define g where "g = (if sealSyncOkAt os (sgTick s) then syncFile f else f)"
  have len: "sfSynced f \<le> length (sfLines f)" using l prefix_length_le [OF l(1)] dirOkD(2) [OF D, of i] by simp
  have g: "sfLines g = sfLines f" "sfSynced f \<le> sfSynced g" "sfSynced g \<le> length (sfLines g)"
    using len by (simp_all add: g_def syncFile_lines)
  have "dirOk (setFile i g d) \<and> grows d (setFile i g d)"
    using setFile_ok [OF r(1), of i g] n(3) l g by (simp add: renamed(6) ai)
  moreover have "grows (sgDir s) d" using r(2) by (simp add: renamed(6) ai)
  moreover have "sgDir s' = setFile i g d" "sgF s' = None"
    by (simp_all add: renamed(9,10) cacheRange_def cacheUUID_def enqueueCompress_def g_def)
  ultimately show ?thesis using grows_trans by (auto simp: sgOk_def)
qed (use s in \<open>auto simp: sgOk_def\<close>)

lemma segRotate_ok:
  assumes s: "sgOk os s" and r: "segRotate os q s = (x, s')"
  shows "sgOk os s' \<and> grows (sgDir s) (sgDir s')"
proof -
  obtain u c ok s1 where se: "seal os s = ((u, c, ok), s1)" by (metis prod.exhaust)
  note s1 = seal_ok [OF s se]
  show ?thesis
  proof (cases "\<not> ok \<and> sgF s1 \<noteq> None")
    case True
    then show ?thesis using r s1 by (auto simp: segRotate_def se)
  next
    case False
    have n: "sgF s1 = None"
      using se False by (auto elim!: seal_cases simp: cacheRange_def cacheUUID_def enqueueCompress_def)
    obtain ok2 s2 where o: "openActive os q s1 = (ok2, s2)" by (cases "openActive os q s1")
    have "s' = s2" using r False by (auto simp: segRotate_def se o)
    then show ?thesis using openActive_ok [OF conjunct1 [OF s1] o n] s1 grows_trans by blast
  qed
qed

section \<open>Relations kept by a write\<close>

text \<open>
  A relation between the segmenter with the last sequence number, before and after. It
  has to hold across every operation of the segmenter that \<open>write\<close> calls.
\<close>

locale trail_relation =
  fixes os :: osLib and R :: "segmenter \<times> nat \<Rightarrow> segmenter \<times> nat \<Rightarrow> bool"
  assumes R_refl: "R x x"
    and R_trans: "R x y \<Longrightarrow> R y z \<Longrightarrow> R x z"
    and R_tick: "R (s, q) (s\<lparr>sgTick := Suc (sgTick s)\<rparr>, q)"
    and R_rotate: "segRotate os (Suc q) s = (out, s') \<Longrightarrow> R (s, q) (s', q)"
    and R_append: "segAppend os (LRecord \<lparr>stInstance = sgInstance s, stBoot = sgBoot s, stSegment = sgUUID s, stSeq = Suc q\<rparr> r)
      (Suc q) ts s = (ok, s') \<Longrightarrow> R (s, q) (s', if ok then Suc q else q)"
    and R_sync: "segSync os s = (ok, s') \<Longrightarrow> R (s, q) (s', q)"
begin

definition kept :: "Writer \<Rightarrow> Writer \<Rightarrow> bool" where
  "kept w w' \<longleftrightarrow> R (wSg w, wSeq w) (wSg w', wSeq w')"

lemma kept_refl: "wSg w' = wSg w \<Longrightarrow> wSeq w' = wSeq w \<Longrightarrow> kept w w'"
  by (simp add: kept_def R_refl)

lemma kept_trans: "kept u v \<Longrightarrow> kept v w \<Longrightarrow> kept u w"
  unfolding kept_def by (rule R_trans)

lemma kept_via: "kept u v \<Longrightarrow> wSg u' = wSg u \<Longrightarrow> wSeq u' = wSeq u \<Longrightarrow> wSg v' = wSg v \<Longrightarrow> wSeq v' = wSeq v \<Longrightarrow> kept u' v'"
  by (simp add: kept_def)

definition keeps :: "writeFn \<Rightarrow> bool" where
  "keeps f \<longleftrightarrow> (\<forall>r w b w'. f r w = Some (b, w') \<longrightarrow> kept w w')"

lemma prepare_kept: "prepare os r w = (r', w') \<Longrightarrow> kept w w'"
  using prepare_wSg [of os r w] prepare_sel(3) [of os r w] by (simp add: kept_def R_refl R_tick)

lemma writeSystem_kept:
  assumes "keeps f" and "writeSystem os f d w = Some w'"
  shows "kept w w'"
  using assms(2) by (auto simp: writeSystem_def split: option.splits
      dest!: assms(1) [unfolded keeps_def, rule_format] intro: kept_via)

lemma rotateBody_kept:
  assumes f: "keeps f" and r: "rotateBody os f w = Some (ok, w')"
  shows "kept w w'"
proof -
  obtain u c ok1 sg where s: "segRotate os (Suc (wSeq w)) (wSg w) = ((u, c, ok1), sg)" by (metis prod.exhaust)
  have k: "kept w (w\<lparr>wSg := sg\<rparr>)" "kept w (w\<lparr>wSg := sg, wRotations := n\<rparr>)" for n
    using R_rotate [OF s] by (simp_all add: kept_def)
  show ?thesis
    using r by (auto simp: rotateBody_def s Let_def split: if_splits option.splits
        dest!: writeSystem_kept [OF f] intro: kept_trans k)
qed

lemma append_kept:
  assumes "segAppend os (LRecord (stampOf w (Suc (wSeq w))) r) (Suc (wSeq w)) ts (wSg w) = (ok, sg)"
  shows "R (wSg w, wSeq w) (sg, if ok then Suc (wSeq w) else wSeq w)"
  using R_append [of "wSg w" "wSeq w"] assms by (simp add: stampOf_def)

lemma appendRecord_kept:
  assumes f: "keeps f" and r: "appendRecord os f r w = Some (ok, w')"
  shows "kept w w'"
proof -
  obtain b sg where s: "segAppend os (LRecord (stampOf w (Suc (wSeq w))) r) (Suc (wSeq w)) (TS r) (wSg w) = (b, sg)"
    by (metis prod.exhaust)
  note k = append_kept [OF s]
  show ?thesis
  proof (cases b)
    case False
    then show ?thesis using r k by (auto simp: appendRecord_def s Let_def noteWriteFailure_def kept_def)
  next
    case True
    let ?w = "w\<lparr>wSg := sg, wSeq := Suc (wSeq w), wAppended := True,
      wAccepted := (wAccepted w)(rStream r := Suc (wAccepted w (rStream r)))\<rparr>"
    have w: "kept w ?w" "kept w (?w\<lparr>wFailing := None\<rparr>)" using k True by (simp_all add: kept_def)
    show ?thesis
      using r True by (auto simp: appendRecord_def s Let_def split: option.splits if_splits
          dest!: writeSystem_kept [OF f] intro: kept_trans w)
  qed
qed

lemma writeBody_kept:
  assumes f: "keeps f" and r: "writeBody os f r w = Some (ok, w')"
  shows "kept w w'"
proof -
  obtain r1 w1 where p: "prepare os r w = (r1, w1)" by (cases "prepare os r w")
  show ?thesis
    using r by (auto simp: writeBody_def p Let_def split: option.splits if_splits
        dest!: rotateBody_kept [OF f] appendRecord_kept [OF f] intro: kept_trans prepare_kept [OF p])
qed

lemma writeRec_keeps: "keeps (writeRec os n)"
proof (induction n)
  case (Suc n)
  then show ?case using writeBody_kept by (simp add: keeps_def)
qed (simp add: keeps_def)

lemma write_kept: "writeRec os n r w = Some (b, w') \<Longrightarrow> kept w w'"
  using writeRec_keeps [of n] unfolding keeps_def by blast

lemma rotateW_kept: "rotateW os n w = Some (b, w') \<Longrightarrow> kept w w'"
  unfolding rotateW_def by (rule rotateBody_kept [OF writeRec_keeps])

lemma writeSystemDurable_kept:
  assumes "writeSystemDurable os n d w = Some (b, w')"
  shows "kept w w'"
proof -
  obtain ok w1 where w1: "writeRec os n ((sysRecord d)\<lparr>TS := Some (wNow os w)\<rparr>) (w\<lparr>wSysDepth := Suc (wSysDepth w)\<rparr>) = Some (ok, w1)"
    using assms by (auto simp: writeSystemDurable_def split: option.splits)
  then have k1: "kept w w1" by (auto dest!: write_kept intro: kept_via)
  obtain ok2 sg where s: "segSync os (wSg w1) = (ok2, sg)" by (cases "segSync os (wSg w1)")
  have k2: "R (wSg w1, wSeq w1) (sg, wSeq w1)" by (rule R_sync [OF s])
  show ?thesis
  proof (cases ok)
    case False
    then show ?thesis using assms w1 k1 by (auto simp: writeSystemDurable_def kept_def)
  next
    case True
    then have "wSg w' = sg \<and> wSeq w' = wSeq w1"
      using assms w1 s by (cases ok2) (auto simp: writeSystemDurable_def noteWriteFailure_def Let_def)
    then show ?thesis using k1 k2 R_trans by (auto simp: kept_def)
  qed
qed

lemma handleSync_kept: "handleSync os n sr w = Some w' \<Longrightarrow> kept w w'"
  by (auto simp: handleSync_def answer_def split: option.splits prod.splits bool.splits if_splits
      dest!: write_kept intro: kept_via)

end
section \<open>Growth\<close>

definition growRel :: "osLib \<Rightarrow> segmenter \<times> nat \<Rightarrow> segmenter \<times> nat \<Rightarrow> bool" where
  "growRel os x y \<longleftrightarrow> (sgOk os (fst x) \<longrightarrow> sgOk os (fst y) \<and> grows (sgDir (fst x)) (sgDir (fst y))) \<and> snd x \<le> snd y"

interpretation growth: trail_relation os "growRel os" for os
proof unfold_locales
  show "growRel os x z" if "growRel os x y" "growRel os y z" for x y z
    using that grows_trans unfolding growRel_def by (meson order_trans)
qed (auto simp: growRel_def dest: segRotate_ok segAppend_ok segSync_ok intro: sgOk_same)

section \<open>The records on the trail\<close>

definition fileRecs :: "segFile \<Rightarrow> (stamp \<times> Record) set" where
  "fileRecs f = {(st, r). LRecord st r \<in> set (sfLines f)}"

definition trailRecs :: "adir \<Rightarrow> (stamp \<times> Record) set" where
  "trailRecs d = (\<Union>i. fileRecs (adFiles d i))"

lemma fileRecs_emptyFile [simp]: "fileRecs emptyFile = {}"
  by (simp add: fileRecs_def emptyFile_def)

lemma fileRecs_torn [simp]: "fileRecs (f\<lparr>sfTorn := n\<rparr>) = fileRecs f" "fileRecs (f\<lparr>sfSynced := n\<rparr>) = fileRecs f"
  "fileRecs (syncFile f) = fileRecs f"
  by (simp_all add: fileRecs_def syncFile_def)

lemma fileRecs_addLine:
  "fileRecs (addLine os l f) =
     (case l of LRecord st r \<Rightarrow> if sfTorn f = 0 then insert (st, r) (fileRecs f) else fileRecs f | _ \<Rightarrow> fileRecs f)"
  by (auto simp: fileRecs_def addLine_def split: aline.split)

lemma fileRecs_writeLine:
  assumes "writeLine os short l f = (n, ok, f')" and "\<nexists>st r. l = LRecord st r"
  shows "fileRecs f' = fileRecs f"
  using assms by (auto simp: writeLine_def fileRecs_addLine Let_def split: option.splits aline.splits)

lemma trailRecs_setFile:
  assumes "fileRecs f = fileRecs (adFiles d i) \<union> X"
  shows "trailRecs (setFile i f d) = trailRecs d \<union> X"
proof -
  have "fileRecs (adFiles (setFile i f d) j) = (if j = i then fileRecs (adFiles d i) \<union> X else fileRecs (adFiles d j))" for j
    using assms by simp
  then have "trailRecs (setFile i f d) = (\<Union>j. if j = i then fileRecs (adFiles d i) \<union> X else fileRecs (adFiles d j))"
    by (simp only: trailRecs_def)
  also have "\<dots> = trailRecs d \<union> X" by (auto simp: trailRecs_def split: if_splits)
  finally show ?thesis .
qed

lemma trailRecs_files: "adFiles d' = adFiles d \<Longrightarrow> trailRecs d' = trailRecs d"
  by (simp add: trailRecs_def)

lemma trailRecs_createFile:
  assumes "dirOk d" and "createFile n f d = (i, d')"
  shows "trailRecs d' = trailRecs d \<union> fileRecs f"
proof -
  note c = createFileD [OF assms(2)]
  have "fileRecs (adFiles d i) = {}" using dirOkD(1) [OF assms(1), of i] c(1) by simp
  then have "trailRecs (setFile i f d) = trailRecs d \<union> fileRecs f" by (intro trailRecs_setFile) simp
  moreover have "adFiles d' = adFiles (setFile i f d)" using c(3) by simp
  ultimately show ?thesis using trailRecs_files by metis
qed

lemma trailRecs_openPath:
  assumes "dirOk d" and "openPath d = (i, d')"
  shows "trailRecs d' = trailRecs d"
  using assms trailRecs_createFile [OF assms(1), of NActive emptyFile i d'] by (auto simp: openPath_def split: option.splits)

lemma openActive_recs:
  assumes "sgOk os s" and "openActive os q s = (ok, s')"
  shows "trailRecs (sgDir s') = trailRecs (sgDir s)"
  using assms(2)
proof (cases rule: openActive_cases)
  case (noMode i d)
  then show ?thesis using trailRecs_openPath [OF sgOkD(1) [OF assms(1)] noMode(1)] by simp
next
  case (header i d h n f)
  have "fileRecs f = fileRecs (adFiles d i)" by (rule fileRecs_writeLine [OF header(3)]) simp
  then show ?thesis
    using trailRecs_setFile [of f d i "{}"] trailRecs_openPath [OF sgOkD(1) [OF assms(1)] header(1)] by (simp add: header(4))
qed simp

lemma seal_recs:
  assumes "seal os s = ((u, c, ok), s')"
  shows "trailRecs (sgDir s') = trailRecs (sgDir s)"
  using assms
proof (cases rule: seal_cases)
  case (renamed i a t n wok f d s1)
  have "fileRecs f = fileRecs (adFiles d i)" using fileRecs_writeLine [OF renamed(7)] by (simp add: renamed(6))
  then have "trailRecs (setFile i g d) = trailRecs d" if "fileRecs g = fileRecs f" for g
    using trailRecs_setFile [of g d i "{}"] that by simp
  moreover have "trailRecs d = trailRecs (sgDir s)" by (rule trailRecs_files) (simp add: renamed(6))
  ultimately show ?thesis
    by (simp add: renamed(9,10) cacheRange_def cacheUUID_def enqueueCompress_def)
qed simp_all

lemma segRotate_recs:
  assumes s: "sgOk os s" and r: "segRotate os q s = (out, s')"
  shows "trailRecs (sgDir s') = trailRecs (sgDir s)"
proof -
  obtain u c ok s1 where se: "seal os s = ((u, c, ok), s1)" by (metis prod.exhaust)
  obtain ok2 s2 where o: "openActive os q s1 = (ok2, s2)" by (cases "openActive os q s1")
  have "s' = s1 \<or> s' = s2" using r by (auto simp: segRotate_def se o split: if_splits)
  then show ?thesis using openActive_recs [OF _ o] seal_ok [OF s se] seal_recs [OF se] by auto
qed

text \<open>Headers are written whole, and a record that is not is cut back.\<close>

definition wholeLines :: "osLib \<Rightarrow> bool" where
  "wholeLines os \<longleftrightarrow> (\<forall>k. hdrCutAt os k = None \<and> truncOkAt os k)"

definition activeWhole :: "segmenter \<Rightarrow> bool" where
  "activeWhole s \<longleftrightarrow> (\<forall>i. nameOf (sgDir s) NActive = Some i \<longrightarrow> sfTorn (adFiles (sgDir s) i) = 0)"

lemma addLine_whole [simp]: "sfTorn (addLine os l f) = 0"
  by (simp add: addLine_def)

lemma openActive_whole:
  assumes "wholeLines os" and "activeWhole s" and "openActive os q s = (ok, s')"
  shows "activeWhole s'"
  using assms(3)
proof (cases rule: openActive_cases)
  case noOpen
  then show ?thesis using assms(2) by (simp add: activeWhole_def)
next
  case (noMode i d)
  then show ?thesis
    using assms(2) openPathD(1) [OF noMode(1), of NActive] openPathD(2,4) [OF noMode(1)]
    by (auto simp: activeWhole_def emptyFile_def split: if_splits)
next
  case (header i d h n f)
  then have "sfTorn f = 0" using assms(1) by (auto simp: wholeLines_def writeLine_def)
  then show ?thesis using openPathD(1) [OF header(1), of NActive] by (simp add: header(4) activeWhole_def)
qed

lemma appendTo_whole:
  assumes w: "wholeLines os" and s: "sgOk os s" and a: "activeWhole s" and i: "sgF s = Some i"
    and ap: "appendTo os i (LRecord st r) q ts s = (ok, s')"
  shows "activeWhole s' \<and> trailRecs (sgDir s') = trailRecs (sgDir s) \<union> (if ok then {(st, r)} else {})"
proof -
  let ?f = "adFiles (sgDir s) i"
  note n = sgOkD(2-4) [OF s i]
  have t: "sfTorn ?f = 0" using a n(1) by (simp add: activeWhole_def)
  show ?thesis
    using ap
  proof (cases rule: appendTo_cases)
    case whole
    have "trailRecs (setFile i (addLine os (LRecord st r) ?f) (sgDir s)) = trailRecs (sgDir s) \<union> {(st, r)}"
      by (rule trailRecs_setFile) (simp add: fileRecs_addLine t)
    then show ?thesis using n(1) whole(1) by (simp add: whole(3) activeWhole_def)
  next
    case (cutBack k f)
    have "truncateTo os (sgSize s) f = ?f"
      using truncate_back [OF dirOkD(2) [OF sgOkD(1) [OF s]]] n by (simp add: cutBack(4))
    then show ?thesis using cutBack(1) trailRecs_setFile [of ?f "sgDir s" i "{}"] t n(1) by (simp add: cutBack(5) activeWhole_def)
  next
    case (torn k f)
    have "k = 0" using torn(2) w by (auto simp: wholeLines_def)
    then have f: "f = ?f" by (simp add: torn(4))
    then show ?thesis using torn(1) trailRecs_setFile [of ?f "sgDir s" i "{}"] t n(1) by (simp add: torn(5) activeWhole_def)
  qed
qed

lemma segAppend_whole:
  assumes w: "wholeLines os" and s: "sgOk os s" and a: "activeWhole s"
    and ap: "segAppend os (LRecord st r) q ts s = (ok, s')"
  shows "activeWhole s' \<and> trailRecs (sgDir s') = trailRecs (sgDir s) \<union> (if ok then {(st, r)} else {})"
  using ap
proof (cases rule: segAppend_cases)
  case (handle i)
  then show ?thesis using appendTo_whole [OF w s a] by blast
next
  case (reopened s1 i)
  note o = openActive_ok [OF s reopened(2,1)] openActive_whole [OF w a reopened(2)] openActive_recs [OF s reopened(2)]
  show ?thesis using appendTo_whole [OF w conjunct1 [OF o(1)] o(2) reopened(3,4)] o(3) by simp
next
  case lost
  then show ?thesis using openActive_whole [OF w a lost(3)] openActive_recs [OF s lost(3)] by simp
qed

lemma seal_whole:
  assumes "sgOk os s" and "activeWhole s" and "seal os s = ((u, c, ok), s')"
  shows "activeWhole s'"
  using assms(3)
proof (cases rule: seal_cases)
  case (renamed i a t n wok f d s1)
  then show ?thesis by (simp add: activeWhole_def cacheRange_def cacheUUID_def enqueueCompress_def)
qed (use assms(2) in \<open>simp_all add: activeWhole_def\<close>)

lemma segRotate_whole:
  assumes w: "wholeLines os" and s: "sgOk os s" "activeWhole s" and r: "segRotate os q s = (out, s')"
  shows "activeWhole s'"
proof -
  obtain u c ok s1 where se: "seal os s = ((u, c, ok), s1)" by (metis prod.exhaust)
  obtain ok2 s2 where o: "openActive os q s1 = (ok2, s2)" by (cases "openActive os q s1")
  have "s' = s1 \<or> s' = s2" using r by (auto simp: segRotate_def se o split: if_splits)
  then show ?thesis using openActive_whole [OF w _ o] seal_whole [OF s se] by auto
qed

lemma segSync_whole:
  assumes "activeWhole s" and "segSync os s = (ok, s')"
  shows "activeWhole s' \<and> trailRecs (sgDir s') = trailRecs (sgDir s)"
proof (cases "sgF s")
  case (Some i)
  let ?f = "adFiles (sgDir s) i"
  have "trailRecs (setFile i (syncFile ?f) (sgDir s)) = trailRecs (sgDir s)"
    using trailRecs_setFile [of "syncFile ?f" "sgDir s" i "{}"] by simp
  then show ?thesis
    using assms Some by (auto simp: segSync_def Let_def activeWhole_def syncFile_def split: if_splits)
qed (use assms in \<open>simp add: segSync_def\<close>)

definition wholeOk :: "osLib \<Rightarrow> segmenter \<Rightarrow> bool" where
  "wholeOk os s \<longleftrightarrow> sgOk os s \<and> activeWhole s"

definition wholeRel :: "osLib \<Rightarrow> segmenter \<times> nat \<Rightarrow> segmenter \<times> nat \<Rightarrow> bool" where
  "wholeRel os x y \<longleftrightarrow> (wholeLines os \<longrightarrow> wholeOk os (fst x) \<longrightarrow> wholeOk os (fst y))"

interpretation whole: trail_relation os "wholeRel os" for os
  by unfold_locales
    (auto simp: wholeRel_def wholeOk_def activeWhole_def [of "_\<lparr>sgTick := _\<rparr>"] activeWhole_def [symmetric]
      intro: sgOk_same dest: segRotate_ok segRotate_whole segAppend_ok segAppend_whole segSync_ok segSync_whole)

section \<open>Sequence numbers\<close>

text \<open>The records of a boot have the numbers from 1 to \<open>q\<close>, each once.\<close>

definition seqOk :: "string \<Rightarrow> (stamp \<times> Record) set \<Rightarrow> nat \<Rightarrow> bool" where
  "seqOk boot X q \<longleftrightarrow>
     (\<forall>st r. (st, r) \<in> X \<and> stBoot st = boot \<longrightarrow> 1 \<le> stSeq st \<and> stSeq st \<le> q) \<and>
     (\<forall>k. 1 \<le> k \<and> k \<le> q \<longrightarrow> (\<exists>st r. (st, r) \<in> X \<and> stBoot st = boot \<and> stSeq st = k)) \<and>
     (\<forall>st r st' r'. (st, r) \<in> X \<and> (st', r') \<in> X \<and> stBoot st = boot \<and> stBoot st' = boot \<and> stSeq st = stSeq st' \<longrightarrow>
        st = st' \<and> r = r')"

lemma seqOk_insert:
  assumes "seqOk boot X q" and "stBoot st = boot" and "stSeq st = Suc q"
  shows "seqOk boot (X \<union> {(st, r)}) (Suc q)"
proof -
  have le: "stSeq st' \<le> q" if "(st', r') \<in> X" "stBoot st' = boot" for st' r'
    using assms(1) that unfolding seqOk_def by blast
  have "\<exists>st' r'. (st', r') \<in> X \<union> {(st, r)} \<and> stBoot st' = boot \<and> stSeq st' = k" if "1 \<le> k \<and> k \<le> Suc q" for k
  proof (cases "k = Suc q")
    case False
    then show ?thesis using assms(1) that unfolding seqOk_def by (meson UnCI le_SucE)
  qed (use assms in auto)
  moreover have "1 \<le> stSeq st' \<and> stSeq st' \<le> Suc q" if "(st', r') \<in> X \<union> {(st, r)}" "stBoot st' = boot" for st' r'
    using assms that unfolding seqOk_def by (auto intro: le_SucI)
  moreover have "a = b \<and> r1 = r2" if "(a, r1) \<in> X \<union> {(st, r)}" "(b, r2) \<in> X \<union> {(st, r)}" "stBoot a = boot" "stBoot b = boot"
      "stSeq a = stSeq b" for a b r1 r2
  proof (cases "(a, r1) \<in> X \<and> (b, r2) \<in> X")
    case True
    then show ?thesis using assms(1) that unfolding seqOk_def by blast
  next
    case False
    then show ?thesis using that assms(3) le [of a r1] le [of b r2] by auto
  qed
  ultimately show ?thesis unfolding seqOk_def by blast
qed

lemma seal_boot: "seal os s = (out, s') \<Longrightarrow> sgBoot s' = sgBoot s \<and> sgInstance s' = sgInstance s"
  by (cases out) (auto elim!: seal_cases simp: cacheRange_def cacheUUID_def enqueueCompress_def)

lemma segRotate_boot: "segRotate os q s = (out, s') \<Longrightarrow> sgBoot s' = sgBoot s \<and> sgInstance s' = sgInstance s"
  by (auto simp: segRotate_def split: prod.splits if_splits dest!: seal_boot openActive_limits)

lemma segSync_boot: "segSync os s = (ok, s') \<Longrightarrow> sgBoot s' = sgBoot s \<and> sgF s' = sgF s"
  by (auto simp: segSync_def Let_def split: option.splits if_splits)

definition trailOk :: "osLib \<Rightarrow> segmenter \<Rightarrow> nat \<Rightarrow> bool" where
  "trailOk os s q \<longleftrightarrow> wholeOk os s \<and> seqOk (sgBoot s) (trailRecs (sgDir s)) q"

definition seqRel :: "osLib \<Rightarrow> segmenter \<times> nat \<Rightarrow> segmenter \<times> nat \<Rightarrow> bool" where
  "seqRel os x y \<longleftrightarrow> (wholeLines os \<longrightarrow> trailOk os (fst x) (snd x) \<longrightarrow> trailOk os (fst y) (snd y) \<and> sgBoot (fst y) = sgBoot (fst x))"

lemma seqRel_rotate:
  assumes "segRotate os (Suc q) s = (out, s')"
  shows "seqRel os (s, q) (s', q)"
  using whole.R_rotate [OF assms] segRotate_recs [OF _ assms] segRotate_boot [OF assms]
  by (auto simp: seqRel_def trailOk_def wholeRel_def wholeOk_def)

lemma seqRel_append:
  assumes "segAppend os (LRecord \<lparr>stInstance = sgInstance s, stBoot = sgBoot s, stSegment = sgUUID s, stSeq = Suc q\<rparr> r)
    (Suc q) ts s = (ok, s')"
  shows "seqRel os (s, q) (s', if ok then Suc q else q)"
  using segAppend_whole [OF _ _ _ assms] segAppend_ok [OF _ assms] segAppend_limits [OF assms]
    seqOk_insert [of "sgBoot s" "trailRecs (sgDir s)" q]
  by (auto simp: seqRel_def trailOk_def wholeOk_def)

lemma seqRel_sync:
  assumes "segSync os s = (ok, s')"
  shows "seqRel os (s, q) (s', q)"
  using segSync_whole [OF _ assms] segSync_ok [OF _ assms] segSync_boot [OF assms]
  by (auto simp: seqRel_def trailOk_def wholeOk_def)

interpretation numbers: trail_relation os "seqRel os" for os
proof unfold_locales
  show "seqRel os (s, q) (s\<lparr>sgTick := Suc (sgTick s)\<rparr>, q)" for s q
    using whole.R_tick [of os s q] by (auto simp: seqRel_def trailOk_def wholeOk_def activeWhole_def intro: sgOk_same)
  show "seqRel os x x" for x by (simp add: seqRel_def)
  show "seqRel os x z" if "seqRel os x y" "seqRel os y z" for x y z using that by (auto simp: seqRel_def)
qed (rule seqRel_rotate seqRel_append seqRel_sync, assumption)+

section \<open>Stable storage\<close>

definition durable :: "adir \<Rightarrow> stamp \<Rightarrow> Record \<Rightarrow> bool" where
  "durable d st r \<longleftrightarrow> (\<exists>i k. k < sfSynced (adFiles d i) \<and> sfLines (adFiles d i) ! k = LRecord st r)"

lemma durable_grows:
  assumes "dirOk d" and "grows d d'" and "durable d st r"
  shows "durable d' st r"
proof -
  obtain i k where k: "k < sfSynced (adFiles d i)" "sfLines (adFiles d i) ! k = LRecord st r" using assms(3) by (auto simp: durable_def)
  then have "k < length (sfLines (adFiles d i))" using dirOkD(2) [OF assms(1), of i] by simp
  then have "sfLines (adFiles d' i) ! k = LRecord st r" using growsD(1) [OF assms(2), of i] k by (auto simp: prefix_def nth_append)
  moreover have "k < sfSynced (adFiles d' i)" using growsD(2) [OF assms(2), of i] k by simp
  ultimately show ?thesis unfolding durable_def by blast
qed

lemma synced_durable:
  assumes "(st, r) \<in> fileRecs (adFiles d i)" and "sfSynced (adFiles d i) = length (sfLines (adFiles d i))"
  shows "durable d st r"
proof -
  obtain k where "k < length (sfLines (adFiles d i))" "sfLines (adFiles d i) ! k = LRecord st r"
    using assms(1) by (auto simp: fileRecs_def in_set_conv_nth)
  then show ?thesis using assms(2) unfolding durable_def by metis
qed

lemma fileRecs_grows: "grows d d' \<Longrightarrow> fileRecs (adFiles d i) \<subseteq> fileRecs (adFiles d' i)"
  using growsD(1) [of d d' i] by (auto simp: fileRecs_def dest: set_mono_prefix)

lemma trailRecs_grows: "grows d d' \<Longrightarrow> trailRecs d \<subseteq> trailRecs d'"
  using fileRecs_grows [of d d'] by (fastforce simp: trailRecs_def)

text \<open>Every record is on stable storage or in the open segment.\<close>

definition settled :: "osLib \<Rightarrow> segmenter \<Rightarrow> bool" where
  "settled os s \<longleftrightarrow>
     sgOk os s \<and>
     (\<forall>st r. (st, r) \<in> trailRecs (sgDir s) \<longrightarrow>
        durable (sgDir s) st r \<or> (\<exists>i. sgF s = Some i \<and> (st, r) \<in> fileRecs (adFiles (sgDir s) i)))"

lemma settled_step:
  assumes s: "settled os s" and ok: "sgOk os s'" and g: "grows (sgDir s) (sgDir s')"
    and F: "\<And>i. sgF s = Some i \<Longrightarrow> sgF s' = Some i \<or> sfSynced (adFiles (sgDir s') i) = length (sfLines (adFiles (sgDir s') i))"
    and new: "\<And>st r. (st, r) \<in> trailRecs (sgDir s') \<Longrightarrow> (st, r) \<notin> trailRecs (sgDir s) \<Longrightarrow>
      \<exists>i. sgF s' = Some i \<and> (st, r) \<in> fileRecs (adFiles (sgDir s') i)"
  shows "settled os s'"
proof -
  have "durable (sgDir s') st r \<or> (\<exists>i. sgF s' = Some i \<and> (st, r) \<in> fileRecs (adFiles (sgDir s') i))"
    if "(st, r) \<in> trailRecs (sgDir s')" for st r
  proof (cases "(st, r) \<in> trailRecs (sgDir s)")
    case False
    then show ?thesis using new that by blast
  next
    case True
    then consider "durable (sgDir s) st r" | i where "sgF s = Some i" "(st, r) \<in> fileRecs (adFiles (sgDir s) i)"
      using s by (auto simp: settled_def)
    then show ?thesis
    proof cases
      case 1
      then show ?thesis using durable_grows [OF _ g] s by (auto simp: settled_def sgOk_def)
    next
      case 2
      then show ?thesis using F [OF 2(1)] fileRecs_grows [OF g, of i] synced_durable by blast
    qed
  qed
  then show ?thesis using ok by (simp add: settled_def)
qed

lemma openActive_settled:
  assumes s: "settled os s" and n: "sgF s = None" and o: "openActive os q s = (ok, s')"
  shows "settled os s'"
proof -
  have sg: "sgOk os s" using s by (simp add: settled_def)
  note a = openActive_ok [OF sg o n]
  show ?thesis
    by (rule settled_step [OF s conjunct1 [OF a] conjunct2 [OF a]]) (use openActive_recs [OF sg o] n in auto)
qed

lemma appendTo_settled:
  assumes s: "settled os s" and i: "sgF s = Some i" and a: "appendTo os i l q ts s = (ok, s')"
  shows "settled os s'"
proof (rule settled_step [OF s])
  have sg: "sgOk os s" using s by (simp add: settled_def)
  note A = appendTo_ok [OF sg i a]
  show "sgOk os s'" "grows (sgDir s) (sgDir s')" using A by auto
  have F: "sgF s' = Some i" using a i by (cases rule: appendTo_cases) auto
  then show "sgF s' = Some j \<or> sfSynced (adFiles (sgDir s') j) = length (sfLines (adFiles (sgDir s') j))" if "sgF s = Some j" for j
    using that i by simp
  have "adFiles (sgDir s') j = adFiles (sgDir s) j" if "j \<noteq> i" for j
    using a that by (cases rule: appendTo_cases) auto
  then show "\<exists>j. sgF s' = Some j \<and> (st, r) \<in> fileRecs (adFiles (sgDir s') j)"
    if "(st, r) \<in> trailRecs (sgDir s')" "(st, r) \<notin> trailRecs (sgDir s)" for st r
    using that F by (auto simp: trailRecs_def) metis
qed

lemma segAppend_settled:
  assumes s: "settled os s" and a: "segAppend os l q ts s = (ok, s')"
  shows "settled os s'"
  using a
proof (cases rule: segAppend_cases)
  case (reopened s1 i)
  then show ?thesis using openActive_settled [OF s] appendTo_settled by blast
qed (use appendTo_settled [OF s] openActive_settled [OF s] in auto)

lemma segSync_settled:
  assumes s: "settled os s" and a: "segSync os s = (ok, s')"
  shows "settled os s' \<and> (ok \<longrightarrow> (\<forall>st r. (st, r) \<in> trailRecs (sgDir s') \<longrightarrow> durable (sgDir s') st r))"
proof -
  have sg: "sgOk os s" using s by (simp add: settled_def)
  have recs: "trailRecs (sgDir s') = trailRecs (sgDir s)"
    using a trailRecs_setFile [of "syncFile (adFiles (sgDir s) i)" "sgDir s" i "{}" for i]
    by (auto simp: segSync_def Let_def split: option.splits if_splits)
  note k = segSync_ok [OF sg a]
  have st: "settled os s'"
    by (rule settled_step [OF s conjunct1 [OF k] conjunct2 [OF k]]) (use segSync_boot [OF a] recs in auto)
  moreover have "durable (sgDir s') st r" if "ok" "(st, r) \<in> trailRecs (sgDir s')" for st r
  proof -
    have "sfSynced (adFiles (sgDir s') i) = length (sfLines (adFiles (sgDir s') i))" if "sgF s' = Some i" for i
      using a \<open>ok\<close> that segSync_boot [OF a] by (auto simp: segSync_def Let_def syncFile_def split: if_splits option.splits)
    then show ?thesis using st that(2) synced_durable by (fastforce simp: settled_def)
  qed
  ultimately show ?thesis by blast
qed

lemma seal_settled:
  assumes s: "settled os s" and a: "seal os s = ((u, c, ok), s')" and y: "sealSyncOkAt os (sgTick s)"
  shows "settled os s'"
proof (rule settled_step [OF s])
  have sg: "sgOk os s" using s by (simp add: settled_def)
  show "sgOk os s'" "grows (sgDir s) (sgDir s')" using seal_ok [OF sg a] by auto
  show "sgF s' = Some j \<or> sfSynced (adFiles (sgDir s') j) = length (sfLines (adFiles (sgDir s') j))" if "sgF s = Some j" for j
    using a that y by (cases rule: seal_cases) (auto simp: cacheRange_def cacheUUID_def enqueueCompress_def syncFile_def)
qed (use seal_recs [OF a] in auto)

lemma cache_sel [simp]:
  "sgF (cacheRange u r s) = sgF s" "sgF (cacheUUID n u s) = sgF s" "sgF (enqueueCompress t s) = sgF s"
  "sgDir (cacheRange u r s) = sgDir s" "sgDir (cacheUUID n u s) = sgDir s" "sgDir (enqueueCompress t s) = sgDir s"
  by (simp_all add: cacheRange_def cacheUUID_def enqueueCompress_def)

lemma seal_handle: "seal os s = ((u, c, ok), s') \<Longrightarrow> sgF s' = None \<or> \<not> ok \<and> sgF s' = sgF s"
  by (erule seal_cases) simp_all

lemma segRotate_settled:
  assumes s: "settled os s" and r: "segRotate os q s = (out, s')" and y: "\<forall>k. sealSyncOkAt os k"
  shows "settled os s'"
proof -
  obtain u c ok s1 where se: "seal os s = ((u, c, ok), s1)" by (metis prod.exhaust)
  note s1 = seal_settled [OF s se] 
  obtain ok2 s2 where o: "openActive os q s1 = (ok2, s2)" by (cases "openActive os q s1")
  show ?thesis
  proof (cases "sgF s1")
    case None
    then have "s' = s2" using r by (auto simp: segRotate_def se o)
    then show ?thesis using openActive_settled [OF _ None o] s1 y by blast
  next
    case (Some i)
    then have "\<not> ok" using seal_handle [OF se] by simp
    then have "s' = s1" using r Some by (auto simp: segRotate_def se)
    then show ?thesis using s1 y by blast
  qed
qed

definition settledRel :: "osLib \<Rightarrow> segmenter \<times> nat \<Rightarrow> segmenter \<times> nat \<Rightarrow> bool" where
  "settledRel os x y \<longleftrightarrow> ((\<forall>k. sealSyncOkAt os k) \<longrightarrow> settled os (fst x) \<longrightarrow> settled os (fst y))"

lemma settled_tick: "settled os s \<Longrightarrow> settled os (s\<lparr>sgTick := k\<rparr>)"
  by (auto simp: settled_def intro: sgOk_same)

interpretation stable: trail_relation os "settledRel os" for os
  by unfold_locales
    (auto simp: settledRel_def intro: settled_tick dest: segRotate_settled segAppend_settled segSync_settled)

section \<open>What a write leaves alone\<close>

text \<open>The fields of the writer that \<open>write\<close> does not touch.\<close>

definition frame where
  "frame w = (wRunning w, wSyncQ w, wQueue w, wPending w, wAnswers w, wRecovered w, wPanic w, wProducers w,
     wReserveBreached w, wRetention w, wHolds w, wGrand w, wPruneOwed w, wPassSaw w, wDropped w, wQueueSize w, wPruned w)"

lemma frameD:
  assumes "frame w = frame w'"
  shows "wRunning w = wRunning w'" "wSyncQ w = wSyncQ w'" "wQueue w = wQueue w'" "wPending w = wPending w'"
    "wAnswers w = wAnswers w'" "wRecovered w = wRecovered w'" "wProducers w = wProducers w'" "wRetention w = wRetention w'"
    "wHolds w = wHolds w'" "wGrand w = wGrand w'" "wPruneOwed w = wPruneOwed w'" "wReserveBreached w = wReserveBreached w'"
    "wPassSaw w = wPassSaw w'" "wPruned w = wPruned w'"
  using assms by (simp_all add: frame_def)

lemma prepare_frame: "frame (snd (prepare os r w)) = frame w"
proof -
  have "frame (noteArrival r w) = frame w" "frame (tickW w) = frame w" "frame (w\<lparr>wPathSanitized := n\<rparr>) = frame w" for r w n
    by (simp_all add: frame_def noteArrival_def tickW_def)
  then show ?thesis by (simp add: prepare_def Let_def split: prod.split)
qed

definition frames :: "writeFn \<Rightarrow> bool" where
  "frames f \<longleftrightarrow> (\<forall>r w b w'. f r w = Some (b, w') \<longrightarrow> frame w' = frame w)"

lemma writeSystem_frame:
  assumes "frames f" and "writeSystem os f d w = Some w'"
  shows "frame w' = frame w"
proof -
  obtain b w1 where "f ((sysRecord d)\<lparr>TS := Some (wNow os w)\<rparr>) (w\<lparr>wSysDepth := Suc (wSysDepth w)\<rparr>) = Some (b, w1)"
    and w': "w' = w1\<lparr>wSysDepth := wSysDepth w1 - 1\<rparr>"
    using assms(2) by (auto simp: writeSystem_def split: option.splits)
  then have "frame w1 = frame (w\<lparr>wSysDepth := Suc (wSysDepth w)\<rparr>)" using assms(1) unfolding frames_def by blast
  then show ?thesis by (simp add: frame_def w')
qed

lemma rotateBody_frame:
  assumes "frames f" and "rotateBody os f w = Some (ok, w')"
  shows "frame w' = frame w"
proof -
  have s: "frame (w\<lparr>wSg := sg\<rparr>) = frame w" "frame (w\<lparr>wSg := sg, wRotations := n\<rparr>) = frame w" for sg n
    by (simp_all add: frame_def)
  show ?thesis
    using assms(2) by (auto simp: rotateBody_def Let_def s split: option.splits prod.splits if_splits
        dest!: writeSystem_frame [OF assms(1)])
qed

lemma appendRecord_frame:
  assumes "frames f" and "appendRecord os f r w = Some (ok, w')"
  shows "frame w' = frame w"
proof -
  have s: "frame (noteWriteFailure os (w\<lparr>wSg := sg\<rparr>)) = frame w"
    "frame (w\<lparr>wSg := sg, wSeq := q, wAppended := a, wAccepted := acc\<rparr>) = frame w"
    "frame (w\<lparr>wSg := sg, wSeq := q, wAppended := a, wAccepted := acc, wFailing := fl\<rparr>) = frame w" for sg q a acc fl
    by (simp_all add: frame_def noteWriteFailure_def Let_def)
  show ?thesis
    using assms(2) by (auto simp: appendRecord_def Let_def s split: option.splits prod.splits if_splits bool.splits
        dest!: writeSystem_frame [OF assms(1)])
qed

lemma writeRec_frames: "frames (writeRec os n)"
proof (induction n)
  case (Suc n)
  show ?case
    unfolding frames_def
  proof (intro allI impI)
    fix r w b w'
    assume a: "writeRec os (Suc n) r w = Some (b, w')"
    obtain r1 w1 where p: "prepare os r w = (r1, w1)" by (cases "prepare os r w")
    have "frame w1 = frame w" using prepare_frame [of os r w] p by simp
    then show "frame w' = frame w"
      using a by (auto simp: writeBody_def p Let_def split: option.splits if_splits
          dest!: rotateBody_frame [OF Suc.IH] appendRecord_frame [OF Suc.IH])
  qed
qed (simp add: frames_def)

lemma write_frame: "writeRec os n r w = Some (b, w') \<Longrightarrow> frame w' = frame w"
  using writeRec_frames [of os n] unfolding frames_def by blast

lemma rotateW_frame: "rotateW os n w = Some (b, w') \<Longrightarrow> frame w' = frame w"
  unfolding rotateW_def by (rule rotateBody_frame [OF writeRec_frames])

lemma writeSystemDurable_frame:
  assumes "writeSystemDurable os n d w = Some (b, w')"
  shows "frame w' = frame w"
proof -
  obtain ok w1 where w1: "writeRec os n ((sysRecord d)\<lparr>TS := Some (wNow os w)\<rparr>) (w\<lparr>wSysDepth := Suc (wSysDepth w)\<rparr>) = Some (ok, w1)"
    using assms by (auto simp: writeSystemDurable_def split: option.splits)
  have "frame w1 = frame w" using write_frame [OF w1] by (simp add: frame_def)
  moreover have "frame w' = frame w1"
    using assms w1 by (auto simp: writeSystemDurable_def Let_def frame_def noteWriteFailure_def split: bool.splits prod.splits)
  ultimately show ?thesis by simp
qed

section \<open>A record that was written\<close>

lemma write_onTrail:
  assumes os: "wholeLines os" and s: "wholeOk os (wSg w)" and r: "writeRec os n r w = Some (True, w')"
  shows "\<exists>st. (st, fst (prepare os r w)) \<in> trailRecs (sgDir (wSg w'))"
proof (cases n)
  case (Suc m)
  obtain r1 w1 where p: "prepare os r w = (r1, w1)" by (cases "prepare os r w")
  obtain w2 where a: "appendRecord os (writeRec os m) r1 w2 = Some (True, w')" and k: "whole.kept os w1 w2"
    using r Suc by (auto simp: writeBody_def p Let_def split: if_splits option.splits
        dest!: whole.rotateBody_kept [OF whole.writeRec_keeps] intro: whole.kept_refl)
  have "wholeOk os (wSg w1)" using whole.prepare_kept [OF p] os s by (simp add: whole.kept_def wholeRel_def)
  then have w2: "wholeOk os (wSg w2)" using k os by (simp add: whole.kept_def wholeRel_def)
  let ?st = "stampOf w2 (Suc (wSeq w2))"
  obtain ok sg where sg: "segAppend os (LRecord ?st r1) (Suc (wSeq w2)) (TS r1) (wSg w2) = (ok, sg)" by (metis prod.exhaust)
  have ok: "ok" using a by (auto simp: appendRecord_def sg Let_def split: bool.splits)
  have rec: "(?st, r1) \<in> trailRecs (sgDir sg)" and sgok: "sgOk os sg"
    using segAppend_whole [OF os _ _ sg] segAppend_ok [OF _ sg] w2 ok by (auto simp: wholeOk_def)
  have "grows (sgDir sg) (sgDir (wSg w'))"
  proof -
    have g: "grows (sgDir (wSg v)) (sgDir (wSg v'))"
      if "writeSystem os (writeRec os m) d v = Some v'" "sgOk os (wSg v)" for d v v'
      using growth.writeSystem_kept [OF growth.writeRec_keeps that(1)] that(2) by (simp add: growth.kept_def growRel_def)
    show ?thesis
      using a ok sgok by (auto simp: appendRecord_def sg Let_def split: option.splits if_splits dest!: g)
  qed
  then show ?thesis using rec trailRecs_grows by (auto simp: p)
qed (use r in simp)

lemma systemDurable_durable:
  assumes os: "wholeLines os" "\<forall>k. sealSyncOkAt os k" and s: "wholeOk os (wSg w)" "settled os (wSg w)"
    and r: "writeSystemDurable os n d w = Some (True, w')"
  shows "\<exists>st r. durable (sgDir (wSg w')) st r \<and> rSys r = Some d"
proof -
  let ?r = "(sysRecord d)\<lparr>TS := Some (wNow os w)\<rparr>" and ?w = "w\<lparr>wSysDepth := Suc (wSysDepth w)\<rparr>"
  obtain ok w1 where w1: "writeRec os n ?r ?w = Some (ok, w1)"
    using r by (auto simp: writeSystemDurable_def split: option.splits)
  have ok: ok using r w1 by (auto simp: writeSystemDurable_def split: bool.splits)
  obtain ok2 sg where sg: "segSync os (wSg w1) = (ok2, sg)" by (cases "segSync os (wSg w1)")
  have ok2: "ok2" "wSg w' = sg" using r w1 ok sg by (auto simp: writeSystemDurable_def Let_def split: bool.splits)
  obtain st where st: "(st, fst (prepare os ?r ?w)) \<in> trailRecs (sgDir (wSg w1))"
    using write_onTrail [OF os(1) _ w1 [unfolded \<open>ok\<close> [THEN eqTrueI]]] ok s(1) by auto
  have set1: "settled os (wSg w1)"
    using stable.write_kept [OF w1] os(2) s(2) by (simp add: stable.kept_def settledRel_def)
  have "rSys (fst (prepare os ?r ?w)) = Some d" by (simp add: prepare_rec) (simp add: sysRecord_def)
  moreover have "(st, fst (prepare os ?r ?w)) \<in> trailRecs (sgDir sg)"
    using st trailRecs_grows segSync_ok [OF _ sg] set1 by (auto simp: settled_def)
  ultimately show ?thesis using segSync_settled [OF set1 sg] ok2 by blast
qed

section \<open>Sealed segments\<close>

text \<open>
  A write leaves the sealed segments as they are: their names, their files, and the UUID that
  is read for them.
\<close>

definition sealedKept :: "segmenter \<Rightarrow> segmenter \<Rightarrow> bool" where
  "sealedKept s s' \<longleftrightarrow>
     (\<forall>n i. n \<noteq> NActive \<and> nameOf (sgDir s) n = Some i \<longrightarrow>
        nameOf (sgDir s') n = Some i \<and> adFiles (sgDir s') i = adFiles (sgDir s) i \<and> fst (uuidOf n s') = fst (uuidOf n s))"

lemma sealedKeptD:
  assumes "sealedKept s s'" and "n \<noteq> NActive" and "nameOf (sgDir s) n = Some i"
  shows "nameOf (sgDir s') n = Some i" "adFiles (sgDir s') i = adFiles (sgDir s) i" "fst (uuidOf n s') = fst (uuidOf n s)"
  using assms unfolding sealedKept_def by blast+

lemma sealedKept_refl [simp]: "sealedKept s s"
  by (simp add: sealedKept_def)

lemma sealedKept_trans:
  assumes "sealedKept s t" and "sealedKept t u"
  shows "sealedKept s u"
  unfolding sealedKept_def
proof (intro allI impI)
  fix n i
  assume "n \<noteq> NActive \<and> nameOf (sgDir s) n = Some i"
  then show "nameOf (sgDir u) n = Some i \<and> adFiles (sgDir u) i = adFiles (sgDir s) i \<and> fst (uuidOf n u) = fst (uuidOf n s)"
    using sealedKeptD [OF assms(1), of n i] sealedKeptD [OF assms(2), of n i] by simp
qed

lemma uuidOf_fst: "fst (uuidOf n s) = (case sgUuids s n of Some u \<Rightarrow> u | None \<Rightarrow> readHeaderUUID (sgDir s) n)"
  by (simp add: uuidOf_def Let_def split: option.split)

lemma readHeaderUUID_cong:
  "nameOf d' n = nameOf d n \<Longrightarrow> (\<And>i. nameOf d n = Some i \<Longrightarrow> adFiles d' i = adFiles d i) \<Longrightarrow> readHeaderUUID d' n = readHeaderUUID d n"
  by (simp add: readHeaderUUID_def split: option.split)

lemma sealedKeptI:
  assumes "\<And>n i. n \<noteq> NActive \<Longrightarrow> nameOf (sgDir s) n = Some i \<Longrightarrow>
    nameOf (sgDir s') n = Some i \<and> adFiles (sgDir s') i = adFiles (sgDir s) i \<and> sgUuids s' n = sgUuids s n"
  shows "sealedKept s s'"
  unfolding sealedKept_def
proof (intro allI impI)
  fix n i
  assume n: "n \<noteq> NActive \<and> nameOf (sgDir s) n = Some i"
  then have k: "nameOf (sgDir s') n = Some i" "adFiles (sgDir s') i = adFiles (sgDir s) i" "sgUuids s' n = sgUuids s n"
    using assms by blast+
  have "readHeaderUUID (sgDir s') n = readHeaderUUID (sgDir s) n" by (rule readHeaderUUID_cong) (use k n in auto)
  then show "nameOf (sgDir s') n = Some i \<and> adFiles (sgDir s') i = adFiles (sgDir s) i \<and> fst (uuidOf n s') = fst (uuidOf n s)"
    using k by (simp add: uuidOf_fst split: option.split)
qed

lemma openActive_sealed:
  assumes s: "sgOk os s" and o: "openActive os q s = (ok, s')"
  shows "sealedKept s s'"
  using o
proof (cases rule: openActive_cases)
  case noOpen
  then show ?thesis by (intro sealedKeptI) simp
next
  case (noMode i d)
  note p = openPathD [OF noMode(1)]
  show ?thesis
  proof (rule sealedKeptI)
    fix n j
    assume n: "n \<noteq> NActive" "nameOf (sgDir s) n = Some j"
    have "j < adNext (sgDir s)" using dirOkD(3) [OF sgOkD(1) [OF s] n(2)] .
    then show "nameOf (sgDir s') n = Some j \<and> adFiles (sgDir s') j = adFiles (sgDir s) j \<and> sgUuids s' n = sgUuids s n"
      using n p(1) [of n] p(2,3) by (auto simp: noMode)
  qed
next
  case (header i d h k f)
  note p = openPathD [OF header(1)]
  show ?thesis
  proof (rule sealedKeptI)
    fix n j
    assume n: "n \<noteq> NActive" "nameOf (sgDir s) n = Some j"
    have j: "j < adNext (sgDir s)" using dirOkD(3) [OF sgOkD(1) [OF s] n(2)] .
    have "j \<noteq> i"
      using p(3,4) j dirOkD(4) [OF sgOkD(1) [OF s] n(2), of NActive] n(1) by (cases "nameOf (sgDir s) NActive") auto
    then show "nameOf (sgDir s') n = Some j \<and> adFiles (sgDir s') j = adFiles (sgDir s) j \<and> sgUuids s' n = sgUuids s n"
      using n j p(1) [of n] p(2,3) by (auto simp: header(4))
  qed
qed

lemma active_apart:
  assumes "sgOk os s" and "sgF s = Some i" and "n \<noteq> NActive" and "nameOf (sgDir s) n = Some j"
  shows "j \<noteq> i"
  using dirOkD(4) [OF sgOkD(1) [OF assms(1)] assms(4), of NActive] sgOkD(2) [OF assms(1,2)] assms(3) by auto

lemma appendTo_sealed:
  assumes s: "sgOk os s" and i: "sgF s = Some i" and a: "appendTo os i l q ts s = (ok, s')"
  shows "sealedKept s s'"
proof (rule sealedKeptI)
  fix n j
  assume n: "n \<noteq> NActive" "nameOf (sgDir s) n = Some j"
  show "nameOf (sgDir s') n = Some j \<and> adFiles (sgDir s') j = adFiles (sgDir s) j \<and> sgUuids s' n = sgUuids s n"
    using a active_apart [OF s i n] n by (cases rule: appendTo_cases) auto
qed

lemma segAppend_sealed:
  assumes s: "sgOk os s" and a: "segAppend os l q ts s = (ok, s')"
  shows "sealedKept s s'"
  using a
proof (cases rule: segAppend_cases)
  case (reopened s1 i)
  then show ?thesis
    using openActive_sealed [OF s reopened(2)] appendTo_sealed [OF _ reopened(3,4)] openActive_ok [OF s reopened(2,1)] sealedKept_trans
    by blast
qed (use appendTo_sealed [OF s] openActive_sealed [OF s] in auto)

lemma segSync_sealed:
  assumes s: "sgOk os s" and a: "segSync os s = (ok, s')"
  shows "sealedKept s s'"
proof (rule sealedKeptI)
  fix n j
  assume n: "n \<noteq> NActive" "nameOf (sgDir s) n = Some j"
  show "nameOf (sgDir s') n = Some j \<and> adFiles (sgDir s') j = adFiles (sgDir s) j \<and> sgUuids s' n = sgUuids s n"
    using a active_apart [OF s _ n] n by (cases "sgF s") (auto simp: segSync_def Let_def split: if_splits)
qed

lemma cache_uuids [simp]:
  "sgUuids (cacheRange u r s) = sgUuids s" "sgUuids (cacheUUID n u s) = (sgUuids s)(n \<mapsto> u)" "sgUuids (enqueueCompress t s) = sgUuids s"
  by (simp_all add: cacheRange_def cacheUUID_def enqueueCompress_def)

lemma seal_sealed:
  assumes s: "sgOk os s" and a: "seal os s = ((u, c, ok), s')"
  shows "sealedKept s s'"
  using a
proof (cases rule: seal_cases)
  case (renamed i a t k wok f d s1)
  show ?thesis
  proof (rule sealedKeptI)
    fix n j
    assume n: "n \<noteq> NActive" "nameOf (sgDir s) n = Some j"
    have "n \<noteq> NPlain t" using n(2) sealedName_least(1) [of "sgDir s" "nowAt os (sgTick s)"] by (auto simp: renamed(5))
    then show "nameOf (sgDir s') n = Some j \<and> adFiles (sgDir s') j = adFiles (sgDir s) j \<and> sgUuids s' n = sgUuids s n"
      using n active_apart [OF s renamed(1) n] by (simp add: renamed(6,9,10))
  qed
qed (auto intro: sealedKeptI)

lemma segRotate_sealed:
  assumes s: "sgOk os s" and r: "segRotate os q s = (out, s')"
  shows "sealedKept s s'"
proof -
  obtain u c ok s1 where se: "seal os s = ((u, c, ok), s1)" by (metis prod.exhaust)
  obtain ok2 s2 where o: "openActive os q s1 = (ok2, s2)" by (cases "openActive os q s1")
  have "s' = s1 \<or> s' = s2" using r by (auto simp: segRotate_def se o split: if_splits)
  then show ?thesis
    using seal_sealed [OF s se] openActive_sealed [OF _ o] seal_ok [OF s se] sealedKept_trans by blast
qed

definition sealedRel :: "osLib \<Rightarrow> segmenter \<times> nat \<Rightarrow> segmenter \<times> nat \<Rightarrow> bool" where
  "sealedRel os x y \<longleftrightarrow> (sgOk os (fst x) \<longrightarrow> sgOk os (fst y) \<and> sealedKept (fst x) (fst y))"

interpretation sealed: trail_relation os "sealedRel os" for os
proof unfold_locales
  show "sealedRel os x z" if "sealedRel os x y" "sealedRel os y z" for x y z
    using that sealedKept_trans unfolding sealedRel_def by blast
qed (auto simp: sealedRel_def intro: sgOk_same sealedKeptI segRotate_sealed segAppend_sealed segSync_sealed
    dest: segRotate_ok segAppend_ok segSync_ok)

subsection \<open>Gaps and heartbeats\<close>

context trail_relation
begin

lemma writeGaps_kept: "writeGaps os n p gs w = Some w' \<Longrightarrow> kept w w'"
proof (induction gs arbitrary: w)
  case (Cons g gs)
  then show ?case using writeSystem_kept [OF writeRec_keeps] kept_trans by (fastforce split: option.splits)
qed (auto intro: kept_refl)

lemma emitGapsFrom_kept: "emitGapsFrom os n is w = Some w' \<Longrightarrow> kept w w'"
proof (induction "is" arbitrary: w)
  case (Cons i "is")
  obtain gaps p where g: "producerGaps (wProducers w ! i) = (gaps, p)" by (cases "producerGaps (wProducers w ! i)")
  obtain v where v: "writeGaps os n p gaps (w\<lparr>wProducers := (wProducers w)[i := p]\<rparr>) = Some v" "emitGapsFrom os n is v = Some w'"
    using Cons.prems g by (auto split: option.splits)
  have "kept w v" using kept_via [OF writeGaps_kept [OF v(1)], of w v] by simp
  then show ?case using Cons.IH [OF v(2)] kept_trans by blast
qed (auto intro: kept_refl)

lemma heartbeat_kept: "heartbeat os n w = Some w' \<Longrightarrow> kept w w'"
proof -
  assume h: "heartbeat os n w = Some w'"
  then obtain v where v: "emitProducerGaps os n (w\<lparr>wHeartbeats := Suc (wHeartbeats w)\<rparr>) = Some v"
    "writeSystem os (writeRec os n) (SysHeartbeat (wSeq v)) v = Some w'"
    by (auto simp: heartbeat_def split: option.splits)
  have "kept w v" using kept_via [OF emitGapsFrom_kept [OF v(1) [unfolded emitProducerGaps_def]], of w v] by simp
  then show ?thesis using writeSystem_kept [OF writeRec_keeps v(2)] kept_trans by blast
qed

end

lemma writeGaps_frame: "writeGaps os n p gs w = Some w' \<Longrightarrow> frame w' = frame w"
proof (induction gs arbitrary: w)
  case (Cons g gs)
  then show ?case using writeSystem_frame [OF writeRec_frames] by (fastforce split: option.splits)
qed simp

lemma emitGapsFrom_answers: "emitGapsFrom os n is w = Some w' \<Longrightarrow> wPending w' = wPending w \<and> wAnswers w' = wAnswers w"
proof (induction "is" arbitrary: w)
  case (Cons i "is")
  obtain gaps p where g: "producerGaps (wProducers w ! i) = (gaps, p)" by (cases "producerGaps (wProducers w ! i)")
  obtain v where v: "writeGaps os n p gaps (w\<lparr>wProducers := (wProducers w)[i := p]\<rparr>) = Some v" "emitGapsFrom os n is v = Some w'"
    using Cons.prems g by (auto split: option.splits)
  then show ?case using Cons.IH [OF v(2)] frameD(4,5) [OF writeGaps_frame [OF v(1)]] by simp
qed simp

lemma heartbeat_answers: "heartbeat os n w = Some w' \<Longrightarrow> wPending w' = wPending w \<and> wAnswers w' = wAnswers w"
  using emitGapsFrom_answers frameD(4,5) [OF writeSystem_frame [OF writeRec_frames]]
  by (fastforce simp: heartbeat_def emitProducerGaps_def split: option.splits)

section \<open>Runs of the writer\<close>

text \<open>
  What the writer's goroutine does to the trail, in any order: it handles a request of \<open>Write\<close>,
  appends a queued record, beats, rotates, and flushes; a waiting caller may time out in between. The
  list has the requests that were handled.
\<close>

inductive trailRun :: "osLib \<Rightarrow> nat \<Rightarrow> Writer \<Rightarrow> (nat \<times> Record) list \<Rightarrow> Writer \<Rightarrow> bool" for os n w0 where
  start: "trailRun os n w0 [] w0"
| request: "trailRun os n w0 h w \<Longrightarrow> handleSync os n sr w = Some w' \<Longrightarrow> trailRun os n w0 (sr # h) w'"
| queued: "trailRun os n w0 h w \<Longrightarrow> writeRec os n r w = Some (b, w') \<Longrightarrow> trailRun os n w0 h w'"
| rotated: "trailRun os n w0 h w \<Longrightarrow> rotateW os n w = Some (b, w') \<Longrightarrow> trailRun os n w0 h w'"
| beat: "trailRun os n w0 h w \<Longrightarrow> heartbeat os n w = Some w' \<Longrightarrow> trailRun os n w0 h w'"
| flushed: "trailRun os n w0 h w \<Longrightarrow> trailRun os n w0 h (flush os w)"
| timedOut: "trailRun os n w0 h w \<Longrightarrow> trailRun os n w0 h (writeTimeout q w)"

definition preparedFrom :: "osLib \<Rightarrow> Record \<Rightarrow> Record \<Rightarrow> bool" where
  "preparedFrom os r r' \<longleftrightarrow> (\<exists>w. r' = fst (prepare os r w))"

lemma answer_sel:
  "wSg (answer q e w) = wSg w" "wSeq (answer q e w) = wSeq w" "wPending (answer q e w) = wPending w"
  "set (wAnswers (answer q e w)) \<subseteq> insert (q, e) (set (wAnswers w))"
  by (auto simp: answer_def)

lemma fold_answer_sel:
  "wSg (fold (\<lambda>(q, r) w. answer q e w) ps w) = wSg w" "wSeq (fold (\<lambda>(q, r) w. answer q e w) ps w) = wSeq w"
  "set (wAnswers (fold (\<lambda>(q, r) w. answer q e w) ps w)) \<subseteq> (\<lambda>(q, r). (q, e)) ` set ps \<union> set (wAnswers w)"
proof (induction ps arbitrary: w)
  case (Cons p ps)
  obtain q r where p: "p = (q, r)" by (cases p)
  { case 1 show ?case using Cons.IH(1) by (simp add: p answer_sel) }
  { case 2 show ?case using Cons.IH(2) by (simp add: p answer_sel) }
  { case 3 show ?case using Cons.IH(3) [of "answer q e w"] answer_sel(4) [of q e w] by (auto simp: p) }
qed auto

lemma flush_spec:
  obtains (idle) "wPending w = []" "flush os w = w"
  | (failed) sg where "segSync os (wSg w) = (False, sg)" "wSg (flush os w) = sg" "wSeq (flush os w) = wSeq w"
      "wPending (flush os w) = []" "set (wAnswers (flush os w)) \<subseteq> (\<lambda>(q, r). (q, Some ErrWriteFailed)) ` set (wPending w) \<union> set (wAnswers w)"
  | (synced) sg where "segSync os (wSg w) = (True, sg)" "wSg (flush os w) = sg" "wSeq (flush os w) = wSeq w"
      "wPending (flush os w) = []" "set (wAnswers (flush os w)) \<subseteq> (\<lambda>(q, r). (q, None)) ` set (wPending w) \<union> set (wAnswers w)"
proof (cases "wPending w = [] \<and> sgF (wSg w) = None")
  case True
  then show ?thesis using idle by (simp add: flush_def)
next
  case False
  obtain ok sg where sg: "segSync os (wSg w) = (ok, sg)" by (cases "segSync os (wSg w)")
  show ?thesis
  proof (cases ok)
    case True
    let ?w = "w\<lparr>wSg := sg\<rparr>"
    let ?v = "if wAppended ?w then ?w\<lparr>wLastWrite := wNow os ?w, wAppended := False\<rparr> else ?w"
    have f: "flush os w = (fold (\<lambda>(q, r) w. answer q None w) (wPending ?v) ?v)\<lparr>wPending := []\<rparr>"
      unfolding flush_def if_not_P [OF False] using True sg by (simp add: Let_def)
    have v: "wSg ?v = sg" "wSeq ?v = wSeq w" "wPending ?v = wPending w" "wAnswers ?v = wAnswers w" by simp_all
    show ?thesis
      using synced [of sg] True sg fold_answer_sel [of None "wPending ?v" ?v] by (simp only: f v) simp
  next
    case n: False
    let ?v = "noteWriteFailure os (w\<lparr>wSg := sg, wSyncFailures := Suc (wSyncFailures w)\<rparr>)"
    have f: "flush os w = (fold (\<lambda>(q, r) w. answer q (Some ErrWriteFailed) w) (wPending ?v) ?v)\<lparr>wPending := []\<rparr>"
      unfolding flush_def if_not_P [OF False] using n sg by (simp add: failPending_def)
    have v: "wSg ?v = sg" "wSeq ?v = wSeq w" "wPending ?v = wPending w" "wAnswers ?v = wAnswers w"
      by (simp_all add: noteWriteFailure_def Let_def)
    show ?thesis
      using failed [of sg] n sg fold_answer_sel [of "Some ErrWriteFailed" "wPending ?v" ?v] by (simp only: f v) simp
  qed
qed

lemma writeTimeout_sel:
  "wSg (writeTimeout q w) = wSg w" "wSeq (writeTimeout q w) = wSeq w" "wPending (writeTimeout q w) = wPending w"
  "(p, None) \<in> set (wAnswers (writeTimeout q w)) \<Longrightarrow> (p, None) \<in> set (wAnswers w)"
  by (auto simp: writeTimeout_def answer_def split: if_splits)

context trail_relation
begin

lemma flush_kept: "kept w (flush os w)"
  by (cases rule: flush_spec [of w os]) (auto intro: R_refl R_sync simp: kept_def)

lemma run_kept: "trailRun os n w0 h w \<Longrightarrow> kept w0 w"
proof (induction rule: trailRun.induct)
  case start
  then show ?case by (rule kept_refl) simp_all
next
  case (timedOut h w q)
  then show ?case using kept_trans kept_refl writeTimeout_sel(1,2) by blast
qed (blast intro: kept_trans handleSync_kept write_kept rotateW_kept heartbeat_kept flush_kept)+

end
subsection \<open>What an answer means\<close>

definition runOk :: "osLib \<Rightarrow> Writer \<Rightarrow> bool" where
  "runOk os w \<longleftrightarrow> wholeOk os (wSg w) \<and> settled os (wSg w)"

definition pendingWritten :: "osLib \<Rightarrow> (nat \<times> Record) list \<Rightarrow> Writer \<Rightarrow> bool" where
  "pendingWritten os h w \<longleftrightarrow>
     (\<forall>(q, r) \<in> set (wPending w). (q, r) \<in> set h \<and> (\<exists>st r'. (st, r') \<in> trailRecs (sgDir (wSg w)) \<and> preparedFrom os r r'))"

definition answeredDurable :: "osLib \<Rightarrow> (nat \<times> Record) list \<Rightarrow> Writer \<Rightarrow> bool" where
  "answeredDurable os h w \<longleftrightarrow>
     (\<forall>q. (q, None) \<in> set (wAnswers w) \<longrightarrow>
        (\<exists>r st r'. (q, r) \<in> set h \<and> durable (sgDir (wSg w)) st r' \<and> preparedFrom os r r'))"

lemma run_grows:
  assumes "growth.kept os w w'" and "runOk os w"
  shows "grows (sgDir (wSg w)) (sgDir (wSg w'))" "dirOk (sgDir (wSg w))"
  using assms by (simp_all add: growth.kept_def growRel_def runOk_def wholeOk_def sgOk_def)

lemma pendingWritten_grows:
  assumes "pendingWritten os h w" and "grows (sgDir (wSg w)) (sgDir (wSg w'))" and "set (wPending w') \<subseteq> set (wPending w)"
    and "set h \<subseteq> set h'"
  shows "pendingWritten os h' w'"
  using assms trailRecs_grows [OF assms(2)] unfolding pendingWritten_def by blast

lemma answeredDurable_grows:
  assumes "answeredDurable os h w" and "dirOk (sgDir (wSg w))" and "grows (sgDir (wSg w)) (sgDir (wSg w'))"
    and "\<And>q. (q, None) \<in> set (wAnswers w') \<Longrightarrow> (q, None) \<in> set (wAnswers w)" and "set h \<subseteq> set h'"
  shows "answeredDurable os h' w'"
  using assms(1,4,5) durable_grows [OF assms(2,3)] unfolding answeredDurable_def by blast

lemma run_quiet:
  assumes "growth.kept os w w'" and "runOk os w" and "pendingWritten os h w" and "answeredDurable os h w"
    and "wPending w' = wPending w" and "\<And>q. (q, None) \<in> set (wAnswers w') \<Longrightarrow> (q, None) \<in> set (wAnswers w)"
    and "set h \<subseteq> set h'"
  shows "pendingWritten os h' w' \<and> answeredDurable os h' w'"
  using pendingWritten_grows [OF assms(3) run_grows(1) [OF assms(1,2)] _ assms(7)]
    answeredDurable_grows [OF assms(4) run_grows(2,1) [OF assms(1,2)] assms(6,7)] assms(5) by simp

lemma request_spec:
  assumes os: "wholeLines os" and h: "handleSync os n sr w = Some w'" and ok: "runOk os w"
    and P: "pendingWritten os h w" and A: "answeredDurable os h w"
  shows "pendingWritten os (sr # h) w' \<and> answeredDurable os (sr # h) w'"
proof -
  obtain b v where v: "writeRec os n (snd sr) w = Some (b, v)" using h by (auto simp: handleSync_def split: option.splits)
  note f = frameD [OF write_frame [OF v]]
  have q: "pendingWritten os (sr # h) v \<and> answeredDurable os (sr # h) v"
    by (rule run_quiet [OF growth.write_kept [OF v] ok P A]) (use f in auto)
  show ?thesis
  proof (cases b)
    case True
    obtain st where "(st, fst (prepare os (snd sr) w)) \<in> trailRecs (sgDir (wSg v))"
      using write_onTrail [OF os _ v [unfolded True [THEN eqTrueI]]] True ok by (auto simp: runOk_def)
    then have "\<exists>st r'. (st, r') \<in> trailRecs (sgDir (wSg v)) \<and> preparedFrom os (snd sr) r'" by (auto simp: preparedFrom_def)
    moreover have "w' = v\<lparr>wPending := wPending v @ [sr]\<rparr>" using h v True by (simp add: handleSync_def)
    ultimately show ?thesis using q by (cases sr) (auto simp: pendingWritten_def answeredDurable_def)
  next
    case False
    then have "w' = answer (fst sr) (Some ErrWriteFailed) v" using h v by (simp add: handleSync_def)
    then show ?thesis using q by (auto simp: pendingWritten_def answeredDurable_def answer_def)
  qed
qed

lemma flush_durable:
  assumes ok: "runOk os w" and P: "pendingWritten os h w" and A: "answeredDurable os h w"
  shows "pendingWritten os h (flush os w) \<and> answeredDurable os h (flush os w)"
proof (cases rule: flush_spec [of w os])
  case idle
  then show ?thesis using P A by simp
next
  case (failed sg)
  have "answeredDurable os h (flush os w)"
    by (rule answeredDurable_grows [OF A run_grows(2,1) [OF growth.flush_kept ok]]) (use failed in auto)
  then show ?thesis using failed by (simp add: pendingWritten_def)
next
  case (synced sg)
  have d: "durable (sgDir sg) st r" if "(st, r) \<in> trailRecs (sgDir sg)" for st r
    using segSync_settled [OF _ synced(1)] ok that by (auto simp: runOk_def)
  note g = run_grows [OF growth.flush_kept ok]
  have "\<exists>r st r'. (q, r) \<in> set h \<and> durable (sgDir sg) st r' \<and> preparedFrom os r r'"
    if q: "(q, None) \<in> set (wAnswers (flush os w))" for q
  proof (cases "(q, None) \<in> set (wAnswers w)")
    case True
    then show ?thesis using A durable_grows [OF g(2,1)] synced(2) unfolding answeredDurable_def by metis
  next
    case False
    then obtain r where "(q, r) \<in> set (wPending w)" using q synced(5) by auto
    then obtain st r' where r: "(q, r) \<in> set h" "(st, r') \<in> trailRecs (sgDir (wSg w))" "preparedFrom os r r'"
      using P unfolding pendingWritten_def by blast
    have "durable (sgDir sg) st r'" using d subsetD [OF trailRecs_grows [OF g(1)] r(2)] synced(2) by simp
    then show ?thesis using r by blast
  qed
  then show ?thesis using synced by (simp add: pendingWritten_def answeredDurable_def)
qed

lemma run_runOk:
  assumes "wholeLines os" and "\<forall>k. sealSyncOkAt os k" and "runOk os w0" and "trailRun os n w0 h w"
  shows "runOk os w"
  using whole.run_kept [OF assms(4)] stable.run_kept [OF assms(4)] assms(1-3)
  by (simp add: runOk_def whole.kept_def stable.kept_def wholeRel_def settledRel_def)

lemma run_durable:
  assumes os: "wholeLines os" "\<forall>k. sealSyncOkAt os k" and s: "runOk os w0" "wPending w0 = []" "wAnswers w0 = []"
    and r: "trailRun os n w0 h w"
  shows "pendingWritten os h w \<and> answeredDurable os h w"
  using r
proof (induction rule: trailRun.induct)
  case start
  then show ?case using s by (simp add: pendingWritten_def answeredDurable_def)
next
  case (request h w sr w')
  then show ?case using request_spec [OF os(1)] run_runOk [OF os s(1)] by blast
next
  case (queued h w r b w')
  then show ?case
    using run_quiet [OF growth.write_kept [OF queued(2)] run_runOk [OF os s(1) queued(1)], of h h]
      frameD [OF write_frame [OF queued(2)]] by simp
next
  case (rotated h w b w')
  then show ?case
    using run_quiet [OF growth.rotateW_kept [OF rotated(2)] run_runOk [OF os s(1) rotated(1)], of h h]
      frameD [OF rotateW_frame [OF rotated(2)]] by simp
next
  case (beat h w w')
  then show ?case
    using run_quiet [OF growth.heartbeat_kept [OF beat(2)] run_runOk [OF os s(1) beat(1)], of h h] heartbeat_answers [OF beat(2)] by simp
next
  case (flushed h w)
  then show ?case using flush_durable run_runOk [OF os s(1)] by blast
next
  case (timedOut h w q)
  have "growth.kept os w (writeTimeout q w)" by (rule growth.kept_refl) (simp_all add: writeTimeout_sel)
  then show ?case
    using run_quiet [OF _ run_runOk [OF os s(1) timedOut(1)], of "writeTimeout q w" h h] timedOut(2) writeTimeout_sel(3) writeTimeout_sel(4) [of _ q w] by simp
qed

section \<open>Examples\<close>

definition exRunDir :: adir where
  "exRunDir =
     \<lparr>adNames = [(NActive, 0)],
      adFiles = (\<lambda>i. if i = 0 then
         \<lparr>sfLines = [LHeader \<lparr>hUUID = ''u'', hPrev = [], hInstance = ''gw'', hBoot = ''b1'', hOpened = 0, hFirstSeq = 1\<rparr>],
          sfTorn = 0, sfSynced = 0\<rparr> else emptyFile),
      adNext = 1\<rparr>"

definition exRunWriter :: "int \<Rightarrow> Writer" where
  "exRunWriter maxBytes =
     (exWriter ((newSegmenter exRunDir ''gw'' ''b1'' maxBytes 3600 0)\<lparr>sgF := Some 0, sgUUID := ''u'', sgSize := fileBytes exOs (adFiles exRunDir 0)\<rparr>))
     \<lparr>wSeq := 0\<rparr>"

text \<open>A request, a queued record and a second request in one batch, then the flush.\<close>

definition exRequests :: "osLib \<Rightarrow> Writer \<Rightarrow> Writer option" where
  "exRequests os w =
     (case handleSync os 3 (1, exIntent) w of
        None \<Rightarrow> None
      | Some w \<Rightarrow>
          (case writeRec os 3 (exIntent\<lparr>EventID := ''e2''\<rparr>) w of
             None \<Rightarrow> None
           | Some (b, w) \<Rightarrow> map_option (flush os) (handleSync os 3 (2, exIntent\<lparr>EventID := ''e3''\<rparr>) w)))"

lemma exRequests_run:
  assumes "exRequests os w = Some w'"
  shows "trailRun os 3 w [(2, exIntent\<lparr>EventID := ''e3''\<rparr>), (1, exIntent)] w'"
proof -
  obtain w1 b w2 w3 where s: "handleSync os 3 (1, exIntent) w = Some w1" "writeRec os 3 (exIntent\<lparr>EventID := ''e2''\<rparr>) w1 = Some (b, w2)"
    "handleSync os 3 (2, exIntent\<lparr>EventID := ''e3''\<rparr>) w2 = Some w3" "w' = flush os w3"
    using assms by (auto simp: exRequests_def split: option.splits)
  show ?thesis
    unfolding s(4) by (rule trailRun.flushed [OF trailRun.request [OF trailRun.queued [OF trailRun.request [OF trailRun.start s(1)] s(2)] s(3)]])
qed

lemma exRun_sel:
  "sgDir (wSg (exRunWriter m)) = exRunDir" "sgF (wSg (exRunWriter m)) = Some 0" "wPending (exRunWriter m) = []" "wAnswers (exRunWriter m) = []"
  "sgSize (wSg (exRunWriter m)) = fileBytes exOs (adFiles exRunDir 0)" "wSeq (exRunWriter m) = 0" "sgBoot (wSg (exRunWriter m)) = ''b1''"
  by (simp_all add: exRunWriter_def exWriter_def newSegmenter_def)

lemma exRun_ok: "runOk exOs (exRunWriter m)" "trailOk exOs (wSg (exRunWriter m)) (wSeq (exRunWriter m))" "wholeLines exOs"
proof -
  have d: "dirOk exRunDir" "nameOf exRunDir NActive = Some 0" "sfTorn (adFiles exRunDir 0) = 0"
    by (auto simp: dirOk_def exRunDir_def nameOf_def emptyFile_def split: if_splits)
  have t: "trailRecs exRunDir = {}" by (auto simp: trailRecs_def fileRecs_def exRunDir_def emptyFile_def)
  have w: "wholeOk exOs (wSg (exRunWriter m))" using d by (simp add: wholeOk_def sgOk_def activeWhole_def exRun_sel)
  then show "runOk exOs (exRunWriter m)" by (simp add: runOk_def settled_def wholeOk_def exRun_sel t)
  show "trailOk exOs (wSg (exRunWriter m)) (wSeq (exRunWriter m))" using w by (simp add: trailOk_def seqOk_def exRun_sel t)
  show "wholeLines exOs" by (simp add: wholeLines_def exOs_def)
qed

lemma exRun_answers: "map_option (\<lambda>w. (wAnswers w, wSeq w)) (exRequests exOs (exRunWriter 250)) = Some ([(1, None), (2, None)], 5)"
  by code_simp

text \<open>The event IDs on stable storage, as a list that can be computed.\<close>

fun eventIds :: "aline list \<Rightarrow> string list" where
  "eventIds [] = []"
| "eventIds (LRecord st r # ls) = EventID r # eventIds ls"
| "eventIds (_ # ls) = eventIds ls"

definition durableIds :: "adir \<Rightarrow> string list" where
  "durableIds d = concat (map (\<lambda>i. eventIds (take (sfSynced (adFiles d i)) (sfLines (adFiles d i)))) [0..<adNext d])"

section \<open>Properties\<close>






end
