(* ===== verification/Audit_Retention.thy ===== *)
theory Audit_Retention
  imports Audit_Trail Audit_Cursor "HOL-Library.List_Lexorder" "HOL-Library.Char_ord"
begin

text \<open>
  Retention of the audit trail (src/pkg/audit/retention.go, sink_retention.go, policy.go): the
  policy and its floor, legal holds, the terms older segments keep when the policy is tightened,
  where the sinks stand with a segment, and the prune pass. The pass runs on the writer's
  goroutine and writes its announcements through \<open>write\<close>; free space and the sinks' progress are
  its environment. Times are in milliseconds, as the names of sealed segments carry them.
\<close>

section \<open>Definitions\<close>

subsection \<open>Policy\<close>

record Policy =
  MaxSegmentBytes :: int
  MaxSegmentAge :: int
  polRetention :: Retention

record PolicyFloor =
  MinRetentionAge :: int
  MinRetentionBytes :: int
  MinReserveBytes :: int
  MaxSegmentAgeCeiling :: int

definition validPolicy :: "Policy \<Rightarrow> bool" where
  "validPolicy p \<longleftrightarrow>
     MaxSegmentBytes p \<ge> 0 \<and> MaxSegmentAge p \<ge> 0 \<and> MaxAge (polRetention p) \<ge> 0 \<and> MaxBytes (polRetention p) \<ge> 0 \<and>
     ReserveBytes (polRetention p) \<ge> 0 \<and> MaxPrunePerPass (polRetention p) \<ge> 0 \<and>
     \<not> (MaxBytes (polRetention p) > 0 \<and> MaxSegmentBytes p > 0 \<and> MaxBytes (polRetention p) < MaxSegmentBytes p)"

definition FloorViolations :: "PolicyFloor \<Rightarrow> Policy \<Rightarrow> string list" where
  "FloorViolations f p =
     sort
      ((if MinRetentionAge f > 0 \<and> MaxAge (polRetention p) > 0 \<and> MaxAge (polRetention p) < MinRetentionAge f
        then [''retention.max_age''] else []) @
       (if MinRetentionBytes f > 0 \<and> MaxBytes (polRetention p) > 0 \<and> MaxBytes (polRetention p) < MinRetentionBytes f
        then [''retention.max_bytes''] else []) @
       (if MinReserveBytes f > 0 \<and> ReserveBytes (polRetention p) < MinReserveBytes f
        then [''retention.reserve_bytes''] else []) @
       (if MaxSegmentAgeCeiling f > 0 \<and> (MaxSegmentAge p = 0 \<or> MaxSegmentAge p > MaxSegmentAgeCeiling f)
        then [''max_segment_age''] else []))"

definition ChangedFields :: "Policy \<Rightarrow> Policy \<Rightarrow> string list" where
  "ChangedFields p n =
     sort
      ((if MaxSegmentBytes p \<noteq> MaxSegmentBytes n then [''max_segment_bytes''] else []) @
       (if MaxSegmentAge p \<noteq> MaxSegmentAge n then [''max_segment_age''] else []) @
       (if MaxAge (polRetention p) \<noteq> MaxAge (polRetention n) then [''retention.max_age''] else []) @
       (if MaxBytes (polRetention p) \<noteq> MaxBytes (polRetention n) then [''retention.max_bytes''] else []) @
       (if ReserveBytes (polRetention p) \<noteq> ReserveBytes (polRetention n) then [''retention.reserve_bytes''] else []) @
       (if MaxPrunePerPass (polRetention p) \<noteq> MaxPrunePerPass (polRetention n) then [''retention.max_prune_per_pass''] else []))"

definition withDefaults :: "Retention \<Rightarrow> Retention" where
  "withDefaults r = (if MaxPrunePerPass r \<le> 0 then r\<lparr>MaxPrunePerPass := 1\<rparr> else r)"

definition policyOf :: "Writer \<Rightarrow> Policy" where
  "policyOf w = \<lparr>MaxSegmentBytes = sgMaxBytes (wSg w), MaxSegmentAge = sgMaxAge (wSg w), polRetention = wRetention w\<rparr>"

text \<open>
  \<open>grandfatherLocked\<close>: each sealed segment that has no terms yet gets those of the old policy;
  \<open>None\<close> is the zero time, a segment that was kept indefinitely.
\<close>

definition grandfatherOne :: "Policy \<Rightarrow> SegmentInfo \<Rightarrow> Writer \<Rightarrow> Writer" where
  "grandfatherOne old x w =
     (let (u, sg) = uuidOf (siName x) (wSg w); w = w\<lparr>wSg := sg\<rparr> in
      if u = [] \<or> wGrand w u \<noteq> None then w
      else w\<lparr>wGrand := (wGrand w)(u \<mapsto>
               (if MaxAge (polRetention old) > 0 then Some (siTime x + MaxAge (polRetention old)) else None))\<rparr>)"

definition tighter :: "int \<Rightarrow> int \<Rightarrow> bool" where
  "tighter old next \<longleftrightarrow> next > 0 \<and> (old = 0 \<or> next < old)"

definition grandfatherLocked :: "osLib \<Rightarrow> Policy \<Rightarrow> Policy \<Rightarrow> Writer \<Rightarrow> Writer" where
  "grandfatherLocked os old next w =
     (if \<not> tighter (MaxAge (polRetention old)) (MaxAge (polRetention next)) \<and>
         \<not> tighter (MaxBytes (polRetention old)) (MaxBytes (polRetention next)) then w
      else fold (grandfatherOne old) (listSealed os (sgDir (wSg w))) w)"

datatype polErr = PolInvalid | PolFloor "string list"

definition applyPolicy :: "osLib \<Rightarrow> Policy \<Rightarrow> Policy \<Rightarrow> Writer \<Rightarrow> Writer" where
  "applyPolicy os old p w =
     (let w = grandfatherLocked os old p w in
      w\<lparr>wSg := (wSg w)\<lparr>sgMaxBytes := MaxSegmentBytes p, sgMaxAge := MaxSegmentAge p\<rparr>, wRetention := polRetention p\<rparr>)"

definition SetPolicy :: "osLib \<Rightarrow> Policy \<Rightarrow> PolicyFloor \<Rightarrow> Writer \<Rightarrow> (polErr + string list) \<times> Writer" where
  "SetPolicy os p floor w =
     (if \<not> validPolicy p then (Inl PolInvalid, w)
      else if FloorViolations floor p \<noteq> [] then (Inl (PolFloor (FloorViolations floor p)), w)
      else let old = policyOf w; changed = ChangedFields old p in
           if changed = [] then (Inr [], w)
           else (Inr changed, applyPolicy os old (p\<lparr>polRetention := withDefaults (polRetention p)\<rparr>) w))"

definition SetRetention :: "Retention \<Rightarrow> Writer \<Rightarrow> Writer" where
  "SetRetention r w = w\<lparr>wRetention := withDefaults r\<rparr>"

definition grandfatherHolds :: "string \<Rightarrow> int \<Rightarrow> Writer \<Rightarrow> bool \<times> Writer" where
  "grandfatherHolds u now w =
     (if u = [] then (False, w)
      else case wGrand w u of
             None \<Rightarrow> (False, w)
           | Some None \<Rightarrow> (True, w)
           | Some (Some t) \<Rightarrow> if now < t then (True, w) else (False, w\<lparr>wGrand := (wGrand w)(u := None)\<rparr>))"

definition forgetGrandfather :: "string \<Rightarrow> Writer \<Rightarrow> Writer" where
  "forgetGrandfather u w = (if u = [] then w else w\<lparr>wGrand := (wGrand w)(u := None)\<rparr>)"

definition Hold :: "string \<Rightarrow> string \<Rightarrow> Writer \<Rightarrow> Writer" where
  "Hold u h w = w\<lparr>wHolds := (wHolds w)(u \<mapsto> h)\<rparr>"

definition ReleaseHold :: "string \<Rightarrow> Writer \<Rightarrow> Writer" where
  "ReleaseHold u w = w\<lparr>wHolds := (wHolds w)(u := None)\<rparr>"

definition isHeld :: "string \<Rightarrow> Writer \<Rightarrow> bool" where
  "isHeld u w \<longleftrightarrow> u \<noteq> [] \<and> wHolds w u \<noteq> None"

subsection \<open>Where the sinks stand\<close>

record SinkProgress =
  spName :: string
  spPos :: Position
  spConnected :: bool

definition unknownRange :: segRange where
  "unknownRange = \<lparr>rgFirst = 0, rgLast = 0, rgEmpty = False, rgUnknown = True\<rparr>"

text \<open>
  \<open>rangeOf\<close>: a range that is not known is read on a goroutine of its own, started once; \<open>rangeRead\<close> is
  that goroutine's end.
\<close>

definition rangeOf :: "SegmentInfo \<Rightarrow> string \<Rightarrow> segmenter \<Rightarrow> segRange option \<times> segmenter" where
  "rangeOf x u s =
     (if u = [] then (Some unknownRange, s)
      else case sgRanges s u of
             Some r \<Rightarrow> (Some r, s)
           | None \<Rightarrow> (None, if sgResolving s u = None then s\<lparr>sgResolving := (sgResolving s)(u \<mapsto> siName x)\<rparr> else s))"

definition isFraming :: "aline \<Rightarrow> bool" where
  "isFraming l \<longleftrightarrow> (case l of LHeader _ \<Rightarrow> True | LFooter _ \<Rightarrow> True | LOther _ \<Rightarrow> True | _ \<Rightarrow> False)"

definition scanTokens :: "segFile \<Rightarrow> aline list" where
  "scanTokens f = sfLines f @ (if sfTorn f = 0 then [] else [LBad (sfTorn f)])"

definition readRange :: "osLib \<Rightarrow> segFile \<Rightarrow> segRange" where
  "readRange os f =
     (let toks = takeWhile (\<lambda>l. lineBytes os l \<le> maxLineBytes) (scanTokens f);
          long = (length toks < length (scanTokens f));
          recs = filter (\<lambda>l. \<not> isFraming l) toks
      in if recs = [] then \<lparr>rgFirst = 0, rgLast = 0, rgEmpty = \<not> long, rgUnknown = long\<rparr>
         else case (hd recs, last recs) of
                (LRecord a _, LRecord b _) \<Rightarrow>
                  if stSeq a = 0 \<or> stSeq b < stSeq a then unknownRange
                  else \<lparr>rgFirst = stSeq a, rgLast = stSeq b, rgEmpty = False, rgUnknown = False\<rparr>
              | _ \<Rightarrow> unknownRange)"

fun otherForm :: "segName \<Rightarrow> segName" where
  "otherForm (NPlain t) = NGz t"
| "otherForm (NGz t) = NPlain t"
| "otherForm NActive = NActive"

definition readSegmentRange :: "osLib \<Rightarrow> segName \<Rightarrow> adir \<Rightarrow> segRange" where
  "readSegmentRange os nm d =
     (case nameOf d nm of
        Some i \<Rightarrow> readRange os (adFiles d i)
      | None \<Rightarrow> (case nameOf d (otherForm nm) of None \<Rightarrow> unknownRange | Some i \<Rightarrow> readRange os (adFiles d i)))"

definition rangeRead :: "osLib \<Rightarrow> string \<Rightarrow> segmenter \<Rightarrow> segmenter" where
  "rangeRead os u s =
     (case sgResolving s u of None \<Rightarrow> s | Some nm \<Rightarrow> cacheRange u (readSegmentRange os nm (sgDir s)) s)"

text \<open>\<open>indexOf\<close>: the segments' UUIDs are read only as far as a sink's place makes necessary.\<close>

record standing =
  sdOrder :: "string \<rightharpoonup> nat"
  sdScanned :: nat
  sdSealed :: "string list option"
  sdSg :: segmenter
  sdExported :: "string list"
  sdPending :: "string list"
  sdConnected :: bool
  sdInside :: "SinkProgress list"

fun scanFor :: "string \<Rightarrow> SegmentInfo list \<Rightarrow> standing \<Rightarrow> nat option \<times> standing" where
  "scanFor u [] z = (None, z)"
| "scanFor u (x # xs) z =
     (let (su, sg) = uuidOf (siName x) (sdSg z); n = sdScanned z;
          z = z\<lparr>sdSg := sg, sdOrder := (sdOrder z)(su \<mapsto> n), sdScanned := Suc n\<rparr>
      in if su = u then (Some n, z) else scanFor u xs z)"

definition indexOf :: "SegmentInfo list \<Rightarrow> string \<Rightarrow> standing \<Rightarrow> nat option \<times> standing" where
  "indexOf segs u z =
     (case sdOrder z u of Some i \<Rightarrow> (Some i, z) | None \<Rightarrow> scanFor u (drop (sdScanned z) segs) z)"

fun uuidsOf :: "SegmentInfo list \<Rightarrow> segmenter \<Rightarrow> string list \<times> segmenter" where
  "uuidsOf [] s = ([], s)"
| "uuidsOf (x # xs) s = (let (u, s) = uuidOf (siName x) s; (us, s) = uuidsOf xs s in (u # us, s))"

definition sealedSince :: "osLib \<Rightarrow> string \<Rightarrow> standing \<Rightarrow> bool \<times> standing" where
  "sealedSince os u z =
     (case sdSealed z of
        Some us \<Rightarrow> (u \<in> set us, z)
      | None \<Rightarrow> (let (us, sg) = uuidsOf (listSealed os (sgDir (sdSg z))) (sdSg z)
                 in (u \<in> set us, z\<lparr>sdSealed := Some us, sdSg := sg\<rparr>)))"

definition behind :: "SinkProgress \<Rightarrow> standing \<Rightarrow> standing" where
  "behind p z = z\<lparr>sdPending := sdPending z @ [spName p], sdConnected := sdConnected z \<or> spConnected p\<rparr>"

definition past :: "SinkProgress \<Rightarrow> standing \<Rightarrow> standing" where
  "past p z = z\<lparr>sdExported := sdExported z @ [spName p]\<rparr>"

definition standOne :: "osLib \<Rightarrow> SegmentInfo list \<Rightarrow> nat \<Rightarrow> string \<Rightarrow> SinkProgress \<Rightarrow> standing \<Rightarrow> standing" where
  "standOne os segs at u p z =
     (let v = SegmentUUID (spPos p) in
      if v = [] then behind p z
      else if v = sgUUID (sdSg z) then past p z
      else if v = u then z\<lparr>sdInside := sdInside z @ [p]\<rparr>
      else case indexOf segs v z of
             (Some i, z) \<Rightarrow> if i > at then past p z else behind p z
           | (None, z) \<Rightarrow> (case sealedSince os v z of (True, z) \<Rightarrow> past p z | (False, z) \<Rightarrow> behind p z))"

definition standInside :: "segRange \<Rightarrow> SinkProgress \<Rightarrow> standing \<Rightarrow> standing" where
  "standInside r p z =
     (if rgEmpty r \<or> \<not> rgUnknown r \<and> PosSeq (spPos p) \<ge> rgLast r then past p z else behind p z)"

text \<open>\<open>None\<close>: what the segment holds is still being read. Otherwise those past it, those not, and its range.\<close>

definition sinkStandings :: "osLib \<Rightarrow> SinkProgress list \<Rightarrow> SegmentInfo list \<Rightarrow> nat \<Rightarrow> SegmentInfo \<Rightarrow> string \<Rightarrow> segmenter \<Rightarrow>
    (string list \<times> string list \<times> bool \<times> segRange option) option \<times> segmenter" where
  "sinkStandings os sinks segs at x u s =
     (if sinks = [] then (Some ([], [], False, None), s)
      else
        (let z = fold (standOne os segs at u) sinks
               \<lparr>sdOrder = Map.empty, sdScanned = 0, sdSealed = None, sdSg = s, sdExported = [], sdPending = [],
                sdConnected = False, sdInside = []\<rparr>
         in if sdPending z = [] \<and> sdInside z = [] then (Some (sort (sdExported z), [], False, None), sdSg z)
            else case rangeOf x u (sdSg z) of
                   (None, s) \<Rightarrow> (None, s)
                 | (Some r, s) \<Rightarrow>
                     (let z = fold (standInside r) (sdInside z) z
                      in (Some (sort (sdExported z), sort (sdPending z), sdConnected z, Some r), s))))"

subsection \<open>The prune pass\<close>

record pruneEnv =
  peFree :: int
  peSinks :: "nat \<Rightarrow> SinkProgress list"

datatype pruneOutcome = PKeep | PBreak | PReturn | PGone

text \<open>The records that go out before a segment is removed; \<open>False\<close> when one could not be written.\<close>

definition ageDays :: "int \<Rightarrow> int" where
  "ageDays age = quo age 86400000"

definition announce :: "osLib \<Rightarrow> nat \<Rightarrow> string \<Rightarrow> int \<Rightarrow> SegmentInfo \<Rightarrow> string list \<Rightarrow> string list \<Rightarrow> segRange option \<Rightarrow> Writer \<Rightarrow>
    (bool \<times> Writer) option" where
  "announce os n u age x exported pending rng w =
     (let lost = (case rng of
                    Some r \<Rightarrow> if pending \<noteq> [] \<and> \<not> rgEmpty r
                      then writeSystemDurable os n (SysLostToRetention u (rgFirst r) (rgLast r) pending) w
                      else Some (True, w)
                  | None \<Rightarrow> Some (True, w));
          count = (case rng of Some r \<Rightarrow> if pending \<noteq> [] \<and> \<not> rgEmpty r \<and> \<not> rgUnknown r then rgLast r - rgFirst r + 1 else 0
                   | None \<Rightarrow> 0)
      in case lost of
           None \<Rightarrow> None
         | Some (False, w) \<Rightarrow> Some (False, w)
         | Some (True, w) \<Rightarrow>
             writeSystemDurable os n (SysPrune u (ageDays age) (int (siBytes x)) exported)
               (w\<lparr>wLostToRetention := wLostToRetention w + count\<rparr>))"

definition removeStep :: "osLib \<Rightarrow> nat \<Rightarrow> string \<Rightarrow> SegmentInfo \<Rightarrow> Writer \<Rightarrow> (pruneOutcome \<times> Writer) option" where
  "removeStep os n u x w =
     (case removeSealed os (siTime x) (wSg w) of
        (True, sg) \<Rightarrow>
          (let w = forgetGrandfather u (w\<lparr>wSg := sg, wPruneOwed := (wPruneOwed w)(siTime x := None)\<rparr>)
           in Some (PGone, w\<lparr>wSg := forgetRange u (wSg w), wPruned := Suc (wPruned w)\<rparr>))
      | (False, sg) \<Rightarrow>
          (let w = w\<lparr>wSg := sg\<rparr>;
               said = (case wPruneOwed w (siTime x) of Some True \<Rightarrow> True | _ \<Rightarrow> False);
               done = (if said then Some w
                       else writeSystem os (writeRec os n) (SysPruneFailed u)
                              (w\<lparr>wSg := (wSg w)\<lparr>sgPruneFailed := Suc (sgPruneFailed (wSg w))\<rparr>\<rparr>))
           in case done of
                None \<Rightarrow> None
              | Some w \<Rightarrow> Some (PBreak, w\<lparr>wPruneOwed := (wPruneOwed w)(siTime x \<mapsto> True)\<rparr>)))"

definition pruneSegment :: "osLib \<Rightarrow> nat \<Rightarrow> pruneEnv \<Rightarrow> bool \<Rightarrow> int option \<Rightarrow> int \<Rightarrow> SegmentInfo list \<Rightarrow> nat \<Rightarrow> SegmentInfo \<Rightarrow> Writer \<Rightarrow>
    (pruneOutcome \<times> Writer) option" where
  "pruneSegment os n env breached saw now segs at x w =
     (let (u, sg) = uuidOf (siName x) (wSg w); w = w\<lparr>wSg := sg\<rparr> in
      if isHeld u w then Some (PKeep, w)
      else if wPruneOwed w (siTime x) \<noteq> None then removeStep os n u x w
      else
        (let (g, w) = (if breached then (False, w) else grandfatherHolds u now w) in
         if g then Some (PKeep, w)
         else
           (case sinkStandings os (peSinks env (sgTick (wSg w))) segs at x u (wSg w) of
              (None, sg) \<Rightarrow> Some (PBreak, w\<lparr>wSg := sg\<rparr>)
            | (Some (exported, pending, connected, rng), sg) \<Rightarrow>
                (let w = w\<lparr>wSg := sg\<rparr> in
                 if connected \<and> \<not> breached \<and> (case saw of None \<Rightarrow> True | Some t \<Rightarrow> siTime x > t) then Some (PBreak, w)
                 else case announce os n u (now - siTime x) x exported pending rng w of
                        None \<Rightarrow> None
                      | Some (False, w) \<Rightarrow> Some (PReturn, w)
                      | Some (True, w) \<Rightarrow> removeStep os n u x w))))"

text \<open>
  The loop over the listed segments, oldest first. The result has the remaining total, or \<open>None\<close> when an
  announcement failed and the pass returned without storing it.
\<close>

definition overdue :: "Retention \<Rightarrow> bool \<Rightarrow> int \<Rightarrow> int \<Rightarrow> SegmentInfo \<Rightarrow> Writer \<Rightarrow> bool" where
  "overdue pol breached now tot x w \<longleftrightarrow>
     wPruneOwed w (siTime x) \<noteq> None \<or> breached \<or>
     MaxAge pol > 0 \<and> now - siTime x > MaxAge pol \<or> MaxBytes pol > 0 \<and> tot > MaxBytes pol"

fun pruneLoop :: "osLib \<Rightarrow> nat \<Rightarrow> pruneEnv \<Rightarrow> Retention \<Rightarrow> bool \<Rightarrow> int option \<Rightarrow> int \<Rightarrow> SegmentInfo list \<Rightarrow> nat \<Rightarrow>
    SegmentInfo list \<Rightarrow> int \<Rightarrow> int \<Rightarrow> Writer \<Rightarrow> (int option \<times> Writer) option" where
  "pruneLoop os n env pol breached saw now segs at [] pruned tot w = Some (Some tot, w)"
| "pruneLoop os n env pol breached saw now segs at (x # xs) pruned tot w =
     (if pruned \<ge> MaxPrunePerPass pol then Some (Some tot, w)
      else if \<not> overdue pol breached now tot x w
      then pruneLoop os n env pol breached saw now segs (Suc at) xs pruned tot w
      else case pruneSegment os n env breached saw now segs at x w of
             None \<Rightarrow> None
           | Some (PKeep, w) \<Rightarrow> pruneLoop os n env pol breached saw now segs (Suc at) xs pruned tot w
           | Some (PBreak, w) \<Rightarrow> Some (Some tot, w)
           | Some (PReturn, w) \<Rightarrow> Some (None, w)
           | Some (PGone, w) \<Rightarrow>
               pruneLoop os n env pol breached saw now segs (Suc at) xs (pruned + 1) (tot - int (siBytes x)) w)"

definition checkReserve :: "osLib \<Rightarrow> nat \<Rightarrow> pruneEnv \<Rightarrow> Retention \<Rightarrow> Writer \<Rightarrow> (bool \<times> Writer) option" where
  "checkReserve os n env pol w =
     (if ReserveBytes pol > 0 \<and> peFree env \<ge> 0 then
        (let breached = (peFree env < ReserveBytes pol);
             said = (if breached \<and> \<not> wReserveBreached w
                     then writeSystem os (writeRec os n) (SysReserveBreached (peFree env) (ReserveBytes pol))
                            (w\<lparr>wReserveBreaches := Suc (wReserveBreaches w)\<rparr>)
                     else Some w)
         in case said of None \<Rightarrow> None | Some w \<Rightarrow> Some (breached, w\<lparr>wReserveBreached := breached\<rparr>))
      else Some (False, w))"

definition prunePass :: "osLib \<Rightarrow> nat \<Rightarrow> pruneEnv \<Rightarrow> Writer \<Rightarrow> Writer option" where
  "prunePass os n env w =
     (let pol = wRetention w;
          segs = listSegments os (sgDir (wSg w));
          tot = int (sum_list (map siBytes segs));
          saw = wPassSaw w;
          w = w\<lparr>wSealedBytes := tot, wPassSaw := (if segs = [] then wPassSaw w else Some (siTime (last segs)))\<rparr>
      in case checkReserve os n env pol w of
           None \<Rightarrow> None
         | Some (breached, w) \<Rightarrow>
             (case pruneLoop os n env pol breached saw (wNow os w) segs 0 segs 0 tot w of
                None \<Rightarrow> None
              | Some (None, w) \<Rightarrow> Some w
              | Some (Some tot, w) \<Rightarrow> Some (w\<lparr>wSealedBytes := tot\<rparr>)))"

section \<open>Lemmas\<close>

subsection \<open>The listing\<close>

definition listing :: "osLib \<Rightarrow> adir \<Rightarrow> segName \<times> nat \<Rightarrow> SegmentInfo list" where
  "listing os d p =
     (case fst p of
        NActive \<Rightarrow> []
      | NPlain t \<Rightarrow> [\<lparr>siTime = t, siBytes = fileBytes os (adFiles d (snd p)), siGz = False\<rparr>]
      | NGz t \<Rightarrow> [\<lparr>siTime = t, siBytes = fileBytes os (adFiles d (snd p)), siGz = True\<rparr>])"

definition sealKey :: "SegmentInfo \<Rightarrow> int" where
  "sealKey x = 2 * siTime x + (if siGz x then 1 else 0)"

lemma listSealed_eq: "listSealed os d = sort_key sealKey (concat (map (listing os d) (adNames d)))"
proof -
  have 1: "(\<lambda>x. 2 * siTime x + (if siGz x then 1 else 0)) = sealKey" by (rule ext) (simp add: sealKey_def)
  have 2: "listing os d = (\<lambda>(n, i). case n of
            NActive \<Rightarrow> []
          | NPlain t \<Rightarrow> [\<lparr>siTime = t, siBytes = fileBytes os (adFiles d i), siGz = False\<rparr>]
          | NGz t \<Rightarrow> [\<lparr>siTime = t, siBytes = fileBytes os (adFiles d i), siGz = True\<rparr>])"
    by (rule ext) (auto simp: listing_def split: segName.split)
  show ?thesis unfolding listSealed_def 1 2 ..
qed

lemma listSealed_present:
  assumes "x \<in> set (listSealed os d)"
  shows "nameOf d (siName x) \<noteq> None"
proof -
  obtain p where "p \<in> set (adNames d)" "x \<in> set (listing os d p)" using assms by (auto simp: listSealed_eq)
  then have "siName x = fst p" "p \<in> set (adNames d)" by (auto simp: listing_def siName_def split: segName.splits)
  then show ?thesis by (metis fst_conv map_of_eq_None_iff nameOf_def image_eqI)
qed

text \<open>Merging the two forms of a segment keeps its last name; the times are then distinct.\<close>

lemma mergeForms_spec:
  assumes "sorted (map siTime (out @ fs))" and "distinct (map siTime out)"
    and "\<And>x. x \<in> set out \<Longrightarrow> P (siName x)" and "\<And>x. x \<in> set fs \<Longrightarrow> P (siName x)"
  shows "sorted (map siTime (mergeForms out fs)) \<and> distinct (map siTime (mergeForms out fs)) \<and>
    (\<forall>x \<in> set (mergeForms out fs). P (siName x)) \<and> siTime ` set (mergeForms out fs) = siTime ` set (out @ fs)"
  using assms
proof (induction out fs rule: mergeForms.induct)
  case (2 out f fs)
  show ?case
  proof (cases "out \<noteq> [] \<and> siTime (last out) = siTime f")
    case True
    then obtain o1 x where o: "out = o1 @ [x]" by (metis append_butlast_last_id)
    define g where "g = f\<lparr>siBytes := siBytes f + siBytes x\<rparr>"
    have g: "siTime g = siTime f" "siName g = siName f" "siTime x = siTime f" using True o by (simp_all add: g_def siName_def)
    have "P (siName y)" if "y \<in> set (o1 @ [g])" for y using that 2(5,6) o g by auto
    moreover have "sorted (map siTime ((o1 @ [g]) @ fs))" "distinct (map siTime (o1 @ [g]))"
      using 2(3,4) o g by (auto simp: sorted_append)
    ultimately have "sorted (map siTime (mergeForms (o1 @ [g]) fs)) \<and> distinct (map siTime (mergeForms (o1 @ [g]) fs)) \<and>
        (\<forall>x \<in> set (mergeForms (o1 @ [g]) fs). P (siName x)) \<and>
        siTime ` set (mergeForms (o1 @ [g]) fs) = siTime ` set ((o1 @ [g]) @ fs)"
      using 2(1) [OF True] 2(6) o by (simp add: g_def)
    then show ?thesis using True o g by (simp add: g_def insert_commute)
  next
    case False
    have lt: "siTime y \<noteq> siTime f" if "y \<in> set out" for y
    proof -
      have "siTime y \<le> siTime (last out)" "siTime (last out) \<le> siTime f" "out \<noteq> []"
        using that 2(3) by (cases out rule: rev_cases; force simp: sorted_append)+
      then show ?thesis using False by auto
    qed
    have "distinct (map siTime (out @ [f]))" using 2(4) lt by fastforce
    then show ?thesis using 2(2) [OF False] 2(3,5,6) False by auto
  qed
qed auto

lemma sorted_sealKey_time: "sorted (map sealKey xs) \<Longrightarrow> sorted (map siTime xs)"
proof (induction xs)
  case (Cons x xs)
  have "siTime x \<le> siTime y" if "sealKey x \<le> sealKey y" for y
    using that by (simp add: sealKey_def split: if_splits)
  then show ?case using Cons by auto
qed simp

lemma listSegments_spec:
  "sorted (map siTime (listSegments os d))" "distinct (map siTime (listSegments os d))"
  "x \<in> set (listSegments os d) \<Longrightarrow> nameOf d (siName x) \<noteq> None"
  "siTime ` set (listSegments os d) = set (takenTimes d)"
proof -
  have s: "sorted (map siTime ([] @ listSealed os d))"
    using sorted_sealKey_time [of "listSealed os d"] by (simp add: listSealed_eq)
  note m = mergeForms_spec [OF s, of "\<lambda>n. nameOf d n \<noteq> None"]
  show "sorted (map siTime (listSegments os d))" "distinct (map siTime (listSegments os d))"
    "x \<in> set (listSegments os d) \<Longrightarrow> nameOf d (siName x) \<noteq> None"
    using m listSealed_present [of _ os d] by (auto simp: listSegments_def)
  have "siTime ` set (concat (map (listing os d) ps)) = set (concat (map (sealTime \<circ> fst) ps))" for ps
    by (induction ps) (auto simp: listing_def split: segName.splits)
  then show "siTime ` set (listSegments os d) = set (takenTimes d)"
    using m listSealed_present [of _ os d] by (auto simp: listSegments_def listSealed_eq takenTimes_def)
qed

subsection \<open>What only fills caches\<close>

definition cacheOnly :: "segmenter \<Rightarrow> segmenter \<Rightarrow> bool" where
  "cacheOnly s s' \<longleftrightarrow>
     sgDir s' = sgDir s \<and> sgF s' = sgF s \<and> sgSize s' = sgSize s \<and> sgBoot s' = sgBoot s \<and> sgInstance s' = sgInstance s \<and>
     (\<forall>n. fst (uuidOf n s') = fst (uuidOf n s))"

lemma cacheOnly_refl [simp]: "cacheOnly s s"
  by (simp add: cacheOnly_def)

lemma cacheOnly_trans: "cacheOnly s t \<Longrightarrow> cacheOnly t u \<Longrightarrow> cacheOnly s u"
  by (simp add: cacheOnly_def)

lemma uuidOf_cacheOnly: "cacheOnly s (snd (uuidOf n s))"
  by (auto simp: cacheOnly_def uuidOf_def cacheUUID_def Let_def split: option.splits)

lemma rangeOf_cacheOnly: "cacheOnly s (snd (rangeOf x u s))"
  by (auto simp: cacheOnly_def rangeOf_def uuidOf_fst split: option.splits)

lemma uuidsOf_cacheOnly: "cacheOnly s (snd (uuidsOf xs s))"
proof (induction xs arbitrary: s)
  case (Cons x xs)
  obtain u s1 where a: "uuidOf (siName x) s = (u, s1)" by (cases "uuidOf (siName x) s")
  obtain us s2 where b: "uuidsOf xs s1 = (us, s2)" by (cases "uuidsOf xs s1")
  show ?case using Cons.IH [of s1] uuidOf_cacheOnly [of s "siName x"] a b cacheOnly_trans by auto
qed simp

lemma scanFor_cacheOnly: "cacheOnly (sdSg z) (sdSg (snd (scanFor u xs z)))"
proof (induction u xs z rule: scanFor.induct)
  case (2 u x xs z)
  obtain su sg where a: "uuidOf (siName x) (sdSg z) = (su, sg)" by (cases "uuidOf (siName x) (sdSg z)")
  have "cacheOnly (sdSg z) sg" using uuidOf_cacheOnly [of "sdSg z" "siName x"] a by simp
  then show ?case using 2 a cacheOnly_trans by (auto simp: Let_def)
qed simp

lemma standOne_cacheOnly: "cacheOnly (sdSg z) (sdSg (standOne os segs at u p z))"
proof -
  have i: "cacheOnly (sdSg z) (sdSg (snd (indexOf segs v z)))" for v z
    using scanFor_cacheOnly by (auto simp: indexOf_def split: option.splits)
  have s: "cacheOnly (sdSg z) (sdSg (snd (sealedSince os v z)))" for v z
    using uuidsOf_cacheOnly [of "sdSg z"] by (auto simp: sealedSince_def split: option.splits prod.splits) (metis snd_conv)
  obtain a z1 where a: "indexOf segs (SegmentUUID (spPos p)) z = (a, z1)" by (cases "indexOf segs (SegmentUUID (spPos p)) z")
  obtain b z2 where b: "sealedSince os (SegmentUUID (spPos p)) z1 = (b, z2)" by (cases "sealedSince os (SegmentUUID (spPos p)) z1")
  have "cacheOnly (sdSg z) (sdSg z1)" "cacheOnly (sdSg z) (sdSg z2)"
    using i [of z] s [of z1] a b cacheOnly_trans by (metis snd_conv)+
  then show ?thesis by (auto simp: standOne_def Let_def behind_def past_def a b split: option.splits bool.splits)
qed

lemma fold_standOne_cacheOnly: "cacheOnly (sdSg z) (sdSg (fold (standOne os segs at u) ps z))"
proof (induction ps arbitrary: z)
  case (Cons p ps)
  then show ?case using standOne_cacheOnly cacheOnly_trans by fastforce
qed simp

lemma sinkStandings_cacheOnly: "cacheOnly s (snd (sinkStandings os sinks segs at x u s))"
proof -
  let ?z0 = "\<lparr>sdOrder = Map.empty, sdScanned = 0, sdSealed = None, sdSg = s, sdExported = [], sdPending = [],
                sdConnected = False, sdInside = []\<rparr>"
  have 1: "cacheOnly s (sdSg (fold (standOne os segs at u) sinks ?z0))"
    using fold_standOne_cacheOnly [of ?z0 os segs at u sinks] by simp
  have 2: "cacheOnly s (snd (rangeOf x u (sdSg (fold (standOne os segs at u) sinks ?z0))))"
    using cacheOnly_trans [OF 1 rangeOf_cacheOnly] .
  show ?thesis
    using 1 2 by (auto simp: sinkStandings_def Let_def split: option.splits prod.splits)
qed



subsection \<open>One segment of a pass\<close>

definition passOk :: "osLib \<Rightarrow> Writer \<Rightarrow> bool" where
  "passOk os w \<longleftrightarrow> wholeOk os (wSg w) \<and> settled os (wSg w)"

definition passLaws :: "osLib \<Rightarrow> bool" where
  "passLaws os \<longleftrightarrow> wholeLines os \<and> (\<forall>k. sealSyncOkAt os k)"

text \<open>What the records of a pass, and the look at the sinks, leave as it was.\<close>

definition passes :: "osLib \<Rightarrow> Writer \<Rightarrow> Writer \<Rightarrow> bool" where
  "passes os w w' \<longleftrightarrow>
     (passOk os w \<longrightarrow> passOk os w' \<and> sealedKept (wSg w) (wSg w') \<and> grows (sgDir (wSg w)) (sgDir (wSg w'))) \<and>
     wHolds w' = wHolds w \<and> wPruneOwed w' = wPruneOwed w \<and> wPruned w' = wPruned w"

lemma passes_refl [simp]: "passes os w w"
  by (simp add: passes_def)

lemma passes_trans: "passes os u v \<Longrightarrow> passes os v w \<Longrightarrow> passes os u w"
  unfolding passes_def using sealedKept_trans grows_trans by (metis (no_types, lifting))

lemma passes_same:
  "wSg w' = wSg w \<Longrightarrow> wHolds w' = wHolds w \<Longrightarrow> wPruneOwed w' = wPruneOwed w \<Longrightarrow> wPruned w' = wPruned w \<Longrightarrow> passes os w w'"
  by (simp add: passes_def passOk_def)

lemma passes_cache:
  assumes "cacheOnly (wSg w) sg"
  shows "passes os w (w\<lparr>wSg := sg\<rparr>)"
proof -
  have "passOk os w \<Longrightarrow> passOk os (w\<lparr>wSg := sg\<rparr>)"
    using assms by (auto simp: passOk_def cacheOnly_def wholeOk_def activeWhole_def settled_def intro: sgOk_same)
  moreover have "sealedKept (wSg w) sg" using assms by (simp add: cacheOnly_def sealedKept_def)
  ultimately show ?thesis using assms by (simp add: passes_def cacheOnly_def)
qed

lemma passes_kept:
  assumes "passLaws os" and "growth.kept os w w'" and "whole.kept os w w'" and "stable.kept os w w'" and "sealed.kept os w w'"
    and "frame w' = frame w"
  shows "passes os w w'"
  using assms frameD [OF assms(6)]
  by (simp add: passes_def passOk_def passLaws_def growth.kept_def whole.kept_def stable.kept_def sealed.kept_def
      growRel_def wholeRel_def settledRel_def sealedRel_def wholeOk_def)

lemma writeSystem_passes:
  assumes "passLaws os" and "writeSystem os (writeRec os n) d w = Some w'"
  shows "passes os w w'"
  using passes_kept [OF assms(1)] growth.writeSystem_kept [OF growth.writeRec_keeps assms(2)]
    whole.writeSystem_kept [OF whole.writeRec_keeps assms(2)] stable.writeSystem_kept [OF stable.writeRec_keeps assms(2)]
    sealed.writeSystem_kept [OF sealed.writeRec_keeps assms(2)] writeSystem_frame [OF writeRec_frames assms(2)] by blast

lemma writeSystemDurable_passes:
  assumes "passLaws os" and "writeSystemDurable os n d w = Some (b, w')"
  shows "passes os w w'"
  using passes_kept [OF assms(1)] growth.writeSystemDurable_kept [OF assms(2)] whole.writeSystemDurable_kept [OF assms(2)]
    stable.writeSystemDurable_kept [OF assms(2)] sealed.writeSystemDurable_kept [OF assms(2)]
    writeSystemDurable_frame [OF assms(2)] by blast

lemma announce_spec:
  assumes laws: "passLaws os" and a: "announce os n u age x ex pend rng w = Some (b, w')"
  shows "passes os w w' \<and> (b \<and> passOk os w \<longrightarrow>
    (\<exists>st r. durable (sgDir (wSg w')) st r \<and> rSys r = Some (SysPrune u (ageDays age) (int (siBytes x)) ex)))"
proof -
  let ?d = "SysPrune u (ageDays age) (int (siBytes x)) ex"
  have fin: ?thesis if "passes os w v" and "writeSystemDurable os n ?d (v\<lparr>wLostToRetention := c\<rparr>) = Some (b, w')" for v c
  proof -
    have p: "passes os w (v\<lparr>wLostToRetention := c\<rparr>)" using passes_trans [OF that(1) passes_same] by simp
    have "\<exists>st r. durable (sgDir (wSg w')) st r \<and> rSys r = Some ?d" if "b" "passOk os w"
      using systemDurable_durable [of os "v\<lparr>wLostToRetention := c\<rparr>"] p that laws
        \<open>writeSystemDurable os n ?d (v\<lparr>wLostToRetention := c\<rparr>) = Some (b, w')\<close>
      by (auto simp: passLaws_def passes_def passOk_def)
    then show ?thesis using passes_trans [OF p writeSystemDurable_passes [OF laws that(2)]] by blast
  qed
  let ?lost = "\<lambda>r. writeSystemDurable os n (SysLostToRetention u (rgFirst r) (rgLast r) pend) w"
  show ?thesis
  proof (cases "\<exists>r. rng = Some r \<and> pend \<noteq> [] \<and> \<not> rgEmpty r")
    case True
    then obtain r where r: "rng = Some r" "pend \<noteq> []" "\<not> rgEmpty r" by blast
    then obtain ok v where v: "?lost r = Some (ok, v)" using a by (auto simp: announce_def Let_def split: option.splits)
    note p = writeSystemDurable_passes [OF laws v]
    show ?thesis
    proof (cases ok)
      case True
      then have "\<exists>c. writeSystemDurable os n ?d (v\<lparr>wLostToRetention := c\<rparr>) = Some (b, w')"
        using a r v by (auto simp: announce_def Let_def)
      then show ?thesis using fin [OF p] by blast
    next
      case False
      then show ?thesis using a r v p by (simp add: announce_def Let_def)
    qed
  next
    case False
    then have "writeSystemDurable os n ?d (w\<lparr>wLostToRetention := wLostToRetention w\<rparr>) = Some (b, w')"
      using a by (auto simp: announce_def Let_def split: option.splits)
    then show ?thesis using fin [OF passes_refl] by blast
  qed
qed

definition segTimes :: "segName \<Rightarrow> int set" where
  "segTimes nm = set (sealTime nm)"

text \<open>
  A step over the segment \<open>x\<close>: the invariants hold after it, the files only grow, the names of
  other segments keep their files and UUIDs, and owed removals of other segments stay.
\<close>

definition aside :: "osLib \<Rightarrow> int \<Rightarrow> Writer \<Rightarrow> Writer \<Rightarrow> bool" where
  "aside os t w w' \<longleftrightarrow>
     (passOk os w \<longrightarrow> passOk os w' \<and> grows (sgDir (wSg w)) (sgDir (wSg w')) \<and>
        (\<forall>nm i. nm \<noteq> NActive \<and> t \<notin> segTimes nm \<and> nameOf (sgDir (wSg w)) nm = Some i \<longrightarrow>
           nameOf (sgDir (wSg w')) nm = Some i \<and> fst (uuidOf nm (wSg w')) = fst (uuidOf nm (wSg w)))) \<and>
     wHolds w' = wHolds w \<and> (\<forall>s. s \<noteq> t \<longrightarrow> wPruneOwed w' s = wPruneOwed w s)"

lemma passes_aside: "passes os w w' \<Longrightarrow> aside os t w w'"
  using sealedKeptD by (auto simp: passes_def aside_def)

lemma asideD:
  assumes "aside os t w w'" and "passOk os w"
  shows "passOk os w'" "grows (sgDir (wSg w)) (sgDir (wSg w'))"
    "nm \<noteq> NActive \<Longrightarrow> t \<notin> segTimes nm \<Longrightarrow> nameOf (sgDir (wSg w)) nm = Some i \<Longrightarrow>
      nameOf (sgDir (wSg w')) nm = Some i \<and> fst (uuidOf nm (wSg w')) = fst (uuidOf nm (wSg w))"
    "wHolds w' = wHolds w" "s \<noteq> t \<Longrightarrow> wPruneOwed w' s = wPruneOwed w s"
  using assms unfolding aside_def by blast+

lemma aside_trans:
  assumes "aside os t u v" and "aside os t v w"
  shows "aside os t u w"
proof -
  have "passOk os w \<and> grows (sgDir (wSg u)) (sgDir (wSg w)) \<and>
        (\<forall>nm i. nm \<noteq> NActive \<and> t \<notin> segTimes nm \<and> nameOf (sgDir (wSg u)) nm = Some i \<longrightarrow>
           nameOf (sgDir (wSg w)) nm = Some i \<and> fst (uuidOf nm (wSg w)) = fst (uuidOf nm (wSg u)))"
    if p: "passOk os u"
  proof -
    note a = asideD [OF assms(1) p] note b = asideD [OF assms(2) a(1)]
    show ?thesis using b(1) grows_trans [OF a(2) b(2)] a(3) b(3) by (metis (no_types))
  qed
  then show ?thesis using assms by (simp add: aside_def)
qed

lemma delName_sel: "adFiles (delName nm d) = adFiles d" "adNext (delName nm d) = adNext d"
  by (simp_all add: delName_def)

lemma removeSealed_spec:
  assumes sg: "removeSealed os t s = (ok, sg)"
  shows "adFiles (sgDir sg) = adFiles (sgDir s)" "adNext (sgDir sg) = adNext (sgDir s)"
    "sgF sg = sgF s" "sgSize sg = sgSize s" "sgUuids sg = sgUuids s"
    "nm \<noteq> NPlain t \<Longrightarrow> nm \<noteq> NGz t \<Longrightarrow> nameOf (sgDir sg) nm = nameOf (sgDir s) nm"
    "nameOf (sgDir sg) nm = Some i \<Longrightarrow> nameOf (sgDir s) nm = Some i"
  using sg by (auto simp: removeSealed_def Let_def delName_sel split: if_splits)

lemma removeSealed_sgOk:
  assumes "removeSealed os t s = (ok, sg)" and "sgOk os s"
  shows "sgOk os sg"
proof -
  note d = removeSealed_spec [OF assms(1)] note o = dirOkD [OF sgOkD(1) [OF assms(2)]]
  have "dirOk (sgDir sg)"
  proof (rule dirOkI)
    show "i < adNext (sgDir sg)" if "nameOf (sgDir sg) n = Some i" for n i using o(3) [OF d(7) [OF that]] d(2) by simp
    show "n = m" if "nameOf (sgDir sg) n = Some i" "nameOf (sgDir sg) m = Some i" for n m i
      using o(4) [OF d(7) [OF that(1)] d(7) [OF that(2)]] .
  qed (use d(1,2) o(1,2) in simp_all)
  then show ?thesis using assms(2) d(1,3,4) d(6) [of NActive] by (simp add: sgOk_def)
qed

lemma removeSealed_aside:
  assumes sg: "removeSealed os t (wSg w) = (ok, sg)"
  shows "aside os t w (w\<lparr>wSg := sg\<rparr>)"
proof -
  note d = removeSealed_spec [OF sg]
  have recs: "trailRecs (sgDir sg) = trailRecs (sgDir (wSg w))" using trailRecs_files [OF d(1)] .
  have "passOk os (w\<lparr>wSg := sg\<rparr>)" if "passOk os w"
  proof -
    have "sgOk os sg" using that removeSealed_sgOk [OF sg] by (simp add: passOk_def wholeOk_def)
    moreover have "activeWhole sg" using that d(1) d(6) [of NActive] by (simp add: passOk_def wholeOk_def activeWhole_def)
    ultimately show ?thesis using that d(1,3) recs by (simp add: passOk_def wholeOk_def settled_def durable_def)
  qed
  moreover have "nameOf (sgDir sg) nm = Some i \<and> fst (uuidOf nm sg) = fst (uuidOf nm (wSg w))"
    if n: "t \<notin> segTimes nm" "nameOf (sgDir (wSg w)) nm = Some i" for nm i
  proof -
    have k: "nameOf (sgDir sg) nm = Some i" using d(6) [of nm] n by (cases nm) (simp_all add: segTimes_def)
    have "readHeaderUUID (sgDir sg) nm = readHeaderUUID (sgDir (wSg w)) nm" by (rule readHeaderUUID_cong) (use k n d(1) in auto)
    then show ?thesis using k d(5) by (simp add: uuidOf_fst split: option.split)
  qed
  ultimately show ?thesis
    using grows_names [OF d(1,2)] by (simp add: aside_def)
qed

lemma removeStep_spec:
  assumes laws: "passLaws os" and r: "removeStep os n u x w = Some (out, w')"
  shows "aside os (siTime x) w w' \<and> out \<in> {PGone, PBreak} \<and> wPruned w' = wPruned w + (if out = PGone then 1 else 0)"
proof -
  obtain ok sg where sg: "removeSealed os (siTime x) (wSg w) = (ok, sg)" by (cases "removeSealed os (siTime x) (wSg w)")
  let ?t = "siTime x"
  note w1 = removeSealed_aside [OF sg]
  show ?thesis
  proof (cases ok)
    case True
    then have w': "out = PGone" "wSg w' = forgetRange u sg" "wHolds w' = wHolds w" "wPruned w' = Suc (wPruned w)"
      "wPruneOwed w' = (wPruneOwed w)(?t := None)"
      using r sg by (auto simp: removeStep_def Let_def forgetGrandfather_def split: if_splits)
    have "passes os (w\<lparr>wSg := sg\<rparr>) (w\<lparr>wSg := forgetRange u sg\<rparr>)"
      using passes_cache [of "w\<lparr>wSg := sg\<rparr>" "forgetRange u sg" os]
      by (simp add: cacheOnly_def forgetRange_def uuidOf_fst readHeaderUUID_def split: option.split)
    note a = aside_trans [OF w1 passes_aside [OF this]]
    show ?thesis using a w' by (simp add: aside_def passOk_def)
  next
    case False
    let ?v = "w\<lparr>wSg := sg\<rparr>" and ?v' = "w\<lparr>wSg := sg\<lparr>sgPruneFailed := Suc (sgPruneFailed sg)\<rparr>\<rparr>"
    obtain v where v: "out = PBreak" "w' = v\<lparr>wPruneOwed := (wPruneOwed v)(?t \<mapsto> True)\<rparr>"
      "v = ?v \<or> writeSystem os (writeRec os n) (SysPruneFailed u) ?v' = Some v"
    proof (cases "wPruneOwed w ?t = Some True")
      case True
      show ?thesis by (rule that [of ?v]) (use r sg False True in \<open>simp_all add: removeStep_def Let_def\<close>)
    next
      case n: False
      then have "(case wPruneOwed w ?t of Some True \<Rightarrow> True | _ \<Rightarrow> False) = False" by (simp split: option.split bool.split)
      then obtain v where "writeSystem os (writeRec os n) (SysPruneFailed u) ?v' = Some v"
        "out = PBreak" "w' = v\<lparr>wPruneOwed := (wPruneOwed v)(?t \<mapsto> True)\<rparr>"
        using r sg False by (auto simp: removeStep_def Let_def split: option.splits)
      then show ?thesis using that by blast
    qed
    have "passes os ?v ?v'"
      using passes_cache [of ?v "sg\<lparr>sgPruneFailed := Suc (sgPruneFailed sg)\<rparr>" os]
      by (simp add: cacheOnly_def uuidOf_fst readHeaderUUID_def split: option.split)
    then have p: "passes os ?v v" using v(3) passes_trans writeSystem_passes [OF laws] by (metis passes_refl)
    have "wPruned v = wPruned w" using p by (simp add: passes_def)
    moreover have "aside os ?t w w'"
      using aside_trans [OF w1 passes_aside [OF p]] by (simp add: aside_def passOk_def v(2))
    ultimately show ?thesis using v by simp
  qed
qed

lemma announce_frame: "announce os n u age x ex pend rng w = Some (b, w') \<Longrightarrow> wGrand w' = wGrand w"
proof -
  have f: "wGrand v' = wGrand v" if "writeSystemDurable os n d v = Some (b, v')" for d v b v'
    using frameD [OF writeSystemDurable_frame [OF that]] by simp
  assume "announce os n u age x ex pend rng w = Some (b, w')"
  then show ?thesis by (auto simp: announce_def Let_def split: option.splits if_splits bool.splits dest!: f)
qed

lemma removeStep_terms:
  assumes "removeStep os n u x w = Some (out, w')"
  shows "u' \<noteq> u \<Longrightarrow> wGrand w' u' = wGrand w u'" "out = PGone \<Longrightarrow> wPruneOwed w' = (wPruneOwed w)(siTime x := None)"
proof -
  have f: "wGrand v' = wGrand v" if "writeSystem os (writeRec os n) d v = Some v'" for d v v'
    using frameD [OF writeSystem_frame [OF writeRec_frames that]] by simp
  show "wGrand w' u' = wGrand w u'" if "u' \<noteq> u"
    using assms that by (auto simp: removeStep_def Let_def forgetGrandfather_def split: option.splits if_splits bool.splits prod.splits dest!: f)
  show "wPruneOwed w' = (wPruneOwed w)(siTime x := None)" if "out = PGone"
    using assms that by (auto simp: removeStep_def Let_def forgetGrandfather_def split: option.splits if_splits bool.splits prod.splits)
qed

lemma grandfatherHolds_passes: "grandfatherHolds u now w = (g, w') \<Longrightarrow> passes os w w'"
  by (auto simp: grandfatherHolds_def intro: passes_same split: if_splits option.splits)

lemma pruneSegment_cases:
  assumes laws: "passLaws os" and p: "pruneSegment os n env br saw now segs at x w = Some (out, w')"
    and u: "uuidOf (siName x) (wSg w) = (u, sg)"
  obtains (kept) "passes os w w'" "out \<noteq> PGone" "\<forall>u'. u' \<noteq> u \<longrightarrow> wGrand w' u' = wGrand w u'"
  | (owed) "passes os w (w\<lparr>wSg := sg\<rparr>)" "\<not> isHeld u w" "wPruneOwed w (siTime x) \<noteq> None"
      "removeStep os n u x (w\<lparr>wSg := sg\<rparr>) = Some (out, w')"
  | (said) w1 ex pend rng v where "\<not> isHeld u w" "passes os w v"
      "announce os n u (now - siTime x) x ex pend rng v = Some (True, w1)" "removeStep os n u x w1 = Some (out, w')"
      "\<forall>u'. u' \<noteq> u \<longrightarrow> wGrand v u' = wGrand w u'"
proof -
  let ?w = "w\<lparr>wSg := sg\<rparr>"
  have c: "passes os w ?w" using passes_cache [OF uuidOf_cacheOnly [of "wSg w" "siName x"], where os = os] u by simp
  have h: "isHeld u ?w = isHeld u w" by (simp add: isHeld_def)
  obtain g w2 where g: "(if br then (False, ?w) else grandfatherHolds u now ?w) = (g, w2)"
    by (cases "if br then (False, ?w) else grandfatherHolds u now ?w")
  have p2: "passes os w w2"
    using passes_trans [OF c] grandfatherHolds_passes [of u now ?w g w2 os] g by (auto split: if_splits)
  have g2: "\<forall>u'. u' \<noteq> u \<longrightarrow> wGrand w2 u' = wGrand w u'"
    using g by (auto simp: grandfatherHolds_def split: if_splits option.splits)
  obtain so sg3 where so: "sinkStandings os (peSinks env (sgTick (wSg w2))) segs at x u (wSg w2) = (so, sg3)"
    by (metis prod.exhaust)
  let ?w3 = "w2\<lparr>wSg := sg3\<rparr>"
  have p3: "passes os w ?w3"
    using passes_trans [OF p2 passes_cache [OF sinkStandings_cacheOnly [of "wSg w2" os "peSinks env (sgTick (wSg w2))" segs at x u]]] so by simp
  note P = p [unfolded pruneSegment_def Let_def u prod.case]
  show thesis
  proof (cases "isHeld u w \<or> wPruneOwed w (siTime x) \<noteq> None \<or> g \<or> so = None")
    case True
    then show ?thesis using P c p2 p3 g g2 so h kept owed by (auto split: if_splits)
  next
    case False
    then obtain ex pend con rng where s: "so = Some (ex, pend, con, rng)" by (metis not_None_eq prod_cases4)
    show ?thesis
    proof (cases "con \<and> \<not> br \<and> (case saw of None \<Rightarrow> True | Some t \<Rightarrow> siTime x > t)")
      case True
      then show ?thesis using P False g g2 so h s kept p3 by auto
    next
      case n: False
      have q: "(case announce os n u (now - siTime x) x ex pend rng ?w3 of
            None \<Rightarrow> None | Some (False, w) \<Rightarrow> Some (PReturn, w) | Some (True, w) \<Rightarrow> removeStep os n u x w) = Some (out, w')"
        using P False g so h s by (simp add: if_not_P [OF n])
      then obtain b w1 where a: "announce os n u (now - siTime x) x ex pend rng ?w3 = Some (b, w1)" by (auto split: option.splits)
      show ?thesis
      proof (cases b)
        case True
        then show ?thesis using said [OF _ p3] False q a g2 by simp
      next
        case b: False
        then show ?thesis using kept q a passes_trans [OF p3] announce_spec [OF laws a] announce_frame [OF a] g2 by auto
      qed
    qed
  qed
qed

lemma pruneSegment_spec:
  assumes laws: "passLaws os" and p: "pruneSegment os n env br saw now segs at x w = Some (out, w')"
  shows "aside os (siTime x) w w' \<and> wPruned w' = wPruned w + (if out = PGone then 1 else 0)" (is ?A)
    "passOk os w \<Longrightarrow> out \<in> {PKeep, PReturn} \<Longrightarrow> sealedKept (wSg w) (wSg w')"
    "passOk os w \<Longrightarrow> nm \<noteq> NActive \<Longrightarrow> nameOf (sgDir (wSg w)) nm = Some i \<Longrightarrow> nameOf (sgDir (wSg w')) nm \<noteq> Some i \<Longrightarrow>
      \<not> isHeld (fst (uuidOf (siName x) (wSg w))) w \<and>
      (wPruneOwed w (siTime x) \<noteq> None \<or>
       (\<exists>d st r sinks. nameOf d nm = Some i \<and> grows d (sgDir (wSg w')) \<and> durable d st r \<and>
          rSys r = Some (SysPrune (fst (uuidOf (siName x) (wSg w))) (ageDays (now - siTime x)) (int (siBytes x)) sinks)))"
    (is "_ \<Longrightarrow> _ \<Longrightarrow> _ \<Longrightarrow> _ \<Longrightarrow> ?C")
proof -
  obtain u sg where u: "uuidOf (siName x) (wSg w) = (u, sg)" by (cases "uuidOf (siName x) (wSg w)")
  note rm = removeStep_spec [OF laws]
  have R: ?A if "passes os w v" "removeStep os n u x v = Some (out, w')" for v
    using aside_trans [OF passes_aside [OF that(1)]] rm [OF that(2)] that(1) by (auto simp: passes_def)
  have K: ?A "passOk os w \<longrightarrow> sealedKept (wSg w) (wSg w')" if "passes os w w'" "out \<noteq> PGone"
    using that passes_aside [OF that(1)] by (auto simp: passes_def)
  note cs = pruneSegment_cases [OF laws p u]
  show ?A
  proof (rule cs)
    show ?A if "passes os w v" "announce os n u (now - siTime x) x ex pend rng v = Some (True, w1)" "removeStep os n u x w1 = Some (out, w')"
      for v ex pend rng w1 using R [OF passes_trans [OF that(1)] that(3)] announce_spec [OF laws that(2)] by blast
  qed (use R K(1) in blast)+
  show "sealedKept (wSg w) (wSg w')" if "passOk os w" "out \<in> {PKeep, PReturn}"
    by (rule cs) (use rm K(2) that in blast)+
  show ?C if ok: "passOk os w" and nm: "nm \<noteq> NActive" "nameOf (sgDir (wSg w)) nm = Some i" "nameOf (sgDir (wSg w')) nm \<noteq> Some i"
  proof (cases rule: cs)
    case 1
    then show ?thesis using K(2) ok nm sealedKeptD(1) by blast
  next
    case 2
    then show ?thesis using u by simp
  next
    case (3 w1 ex pend rng v)
    note said = 3
    note a = announce_spec [OF laws said(3)]
    have p: "passes os w w1" using passes_trans [OF said(2)] a by blast
    have "passOk os v" using said(2) ok by (simp add: passes_def)
    then obtain st r where "durable (sgDir (wSg w1)) st r" "rSys r = Some (SysPrune u (ageDays (now - siTime x)) (int (siBytes x)) ex)"
      using a by blast
    moreover have "nameOf (sgDir (wSg w1)) nm = Some i" using p ok nm sealedKeptD(1) by (auto simp: passes_def)
    moreover have "grows (sgDir (wSg w1)) (sgDir (wSg w'))"
      using rm [OF said(4)] p ok by (simp add: passes_def aside_def)
    ultimately have "\<exists>d st r sinks. nameOf d nm = Some i \<and> grows d (sgDir (wSg w')) \<and> durable d st r \<and> rSys r = Some (SysPrune u (ageDays (now - siTime x)) (int (siBytes x)) sinks)"
      by blast
    then show ?thesis using said(1) u by simp
  qed
qed

subsection \<open>The loop and the pass\<close>

text \<open>Why the name \<open>nm\<close> of the file \<open>i\<close> may be gone after the pass that began in \<open>w\<close>.\<close>

definition justified :: "int \<Rightarrow> SegmentInfo \<Rightarrow> segName \<Rightarrow> nat \<Rightarrow> Writer \<Rightarrow> Writer \<Rightarrow> bool" where
  "justified now x nm i w w' \<longleftrightarrow>
     siTime x \<in> segTimes nm \<and> \<not> isHeld (fst (uuidOf (siName x) (wSg w))) w \<and>
     (wPruneOwed w (siTime x) \<noteq> None \<or>
      (\<exists>d st r sinks. nameOf d nm = Some i \<and> grows d (sgDir (wSg w')) \<and> durable d st r \<and>
         rSys r = Some (SysPrune (fst (uuidOf (siName x) (wSg w))) (ageDays (now - siTime x)) (int (siBytes x)) sinks)))"

lemma justified_later: "justified now x nm i w v \<Longrightarrow> grows (sgDir (wSg v)) (sgDir (wSg w')) \<Longrightarrow> justified now x nm i w w'"
  unfolding justified_def using grows_trans by blast

lemma justified_earlier:
  assumes a: "aside os t w v" "passOk os w" and j: "justified now x nm i v w'" and x: "siTime x \<noteq> t"
    and n: "nameOf (sgDir (wSg w)) (siName x) \<noteq> None"
  shows "justified now x nm i w w'"
proof -
  note b = asideD [OF a]
  obtain k where "nameOf (sgDir (wSg w)) (siName x) = Some k" using n by blast
  moreover have "siName x \<noteq> NActive" "t \<notin> segTimes (siName x)" using x by (auto simp: siName_def segTimes_def)
  ultimately have "fst (uuidOf (siName x) (wSg v)) = fst (uuidOf (siName x) (wSg w))" using b(3) by blast
  then show ?thesis using j b(4) b(5) [OF x] by (simp add: justified_def isHeld_def)
qed

lemma pruneLoop_spec:
  assumes laws: "passLaws os" and p: "pruneLoop os n env pol br saw now segs at xs pr tot w = Some (res, w')"
    and ok: "passOk os w" and d: "distinct (map siTime xs)" and nx: "\<forall>x \<in> set xs. nameOf (sgDir (wSg w)) (siName x) \<noteq> None"
  shows "passOk os w' \<and> grows (sgDir (wSg w)) (sgDir (wSg w')) \<and>
    (\<forall>nm i. nm \<noteq> NActive \<and> nameOf (sgDir (wSg w)) nm = Some i \<and> nameOf (sgDir (wSg w')) nm \<noteq> Some i \<longrightarrow>
      (\<exists>x \<in> set xs. justified now x nm i w w'))"
  using p ok d nx
proof (induction xs arbitrary: at pr tot w)
  case (Cons x xs)
  show ?case
  proof (cases "pr \<ge> MaxPrunePerPass pol \<or> \<not> overdue pol br now tot x w")
    case True
    then show ?thesis using Cons by (auto split: if_splits)
  next
    case False
    then obtain out v where v: "pruneSegment os n env br saw now segs at x w = Some (out, v)"
      using Cons.prems(1) by (auto split: option.splits)
    note s = pruneSegment_spec [OF laws v]
    have a: "aside os (siTime x) w v" using s(1) by blast
    note b = asideD [OF a Cons.prems(2)]
    have j: "justified now x nm i w v"
      if n: "nm \<noteq> NActive" "nameOf (sgDir (wSg w)) nm = Some i" "nameOf (sgDir (wSg v)) nm \<noteq> Some i" for nm i
      using s(3) [OF Cons.prems(2) n] b(3) [OF n(1) _ n(2)] n(3) by (auto simp: justified_def)
    show ?thesis
    proof (cases "out \<in> {PKeep, PGone}")
      case True
      then obtain pr' tot' where r: "pruneLoop os n env pol br saw now segs (Suc at) xs pr' tot' v = Some (res, w')"
        using Cons.prems(1) False v by (auto split: if_splits)
      have nx: "\<forall>y \<in> set xs. nameOf (sgDir (wSg v)) (siName y) \<noteq> None"
      proof
        fix y
        assume y: "y \<in> set xs"
        then obtain k where k: "nameOf (sgDir (wSg w)) (siName y) = Some k" using Cons.prems(4) by fastforce
        have "siTime y \<noteq> siTime x" using y Cons.prems(3) by (metis distinct.simps(2) image_eqI list.map(2) set_map)
        then have "siName y \<noteq> NActive" "siTime x \<notin> segTimes (siName y)" by (auto simp: siName_def segTimes_def)
        then show "nameOf (sgDir (wSg v)) (siName y) \<noteq> None" using b(3) k by fastforce
      qed
      have dx: "distinct (map siTime xs)" using Cons.prems(3) by simp
      note IH = Cons.IH [OF r b(1) dx nx]
      have g: "grows (sgDir (wSg v)) (sgDir (wSg w'))" using IH by simp
      have "\<exists>y \<in> set (x # xs). justified now y nm i w w'"
        if n: "nm \<noteq> NActive" "nameOf (sgDir (wSg w)) nm = Some i" "nameOf (sgDir (wSg w')) nm \<noteq> Some i" for nm i
      proof (cases "nameOf (sgDir (wSg v)) nm = Some i")
        case False
        then show ?thesis using justified_later [OF j [OF n(1,2)] g] by auto
      next
        case True
        then obtain y where y: "y \<in> set xs" "justified now y nm i v w'" using IH n by blast
        have "siTime y \<noteq> siTime x" using y Cons.prems(3) by (metis distinct.simps(2) image_eqI list.map(2) set_map)
        then show ?thesis using justified_earlier [OF a Cons.prems(2) y(2)] y(1) Cons.prems(4) by auto
      qed
      then show ?thesis using IH grows_trans [OF b(2) g] by blast
    next
      case out: False
      then have "w' = v" using Cons.prems(1) False v by (cases out) (auto split: if_splits)
      then show ?thesis using b(1,2) j by auto
    qed
  qed
qed auto

lemma pruneLoop_count:
  assumes laws: "passLaws os" and p: "pruneLoop os n env pol br saw now segs at xs pr tot w = Some (res, w')"
  shows "wPruned w' \<le> wPruned w + nat (MaxPrunePerPass pol - pr)"
  using p
proof (induction xs arbitrary: at pr tot w)
  case (Cons x xs)
  show ?case
  proof (cases "pr \<ge> MaxPrunePerPass pol \<or> \<not> overdue pol br now tot x w")
    case True
    then show ?thesis using Cons by (auto split: if_splits)
  next
    case False
    then obtain out v where v: "pruneSegment os n env br saw now segs at x w = Some (out, v)"
      using Cons.prems by (auto split: option.splits)
    then show ?thesis
      using pruneSegment_spec(1) [OF laws v] Cons.prems False Cons.IH [of "Suc at" pr tot v]
        Cons.IH [of "Suc at" "pr + 1" "tot - int (siBytes x)" v]
      by (cases out) (auto simp: nat_diff_distrib')
  qed
qed auto

lemma checkReserve_passes:
  assumes "passLaws os" and "checkReserve os n env pol w = Some (br, w')"
  shows "passes os w w'"
proof -
  have s: "passes os v (v\<lparr>wReserveBreached := b\<rparr>)" "passes os v (v\<lparr>wReserveBreaches := k\<rparr>)" for v b k by (auto intro: passes_same)
  have "passes os u (v\<lparr>wReserveBreached := b\<rparr>)" if "writeSystem os (writeRec os n) d (u\<lparr>wReserveBreaches := k\<rparr>) = Some v" for u v b d k
    using passes_trans [OF passes_trans [OF s(2) writeSystem_passes [OF assms(1) that]] s(1)] .
  then show ?thesis
    using assms(2) s(1) by (auto simp: checkReserve_def Let_def split: if_splits option.splits)
qed

lemma checkReserve_spec:
  assumes "checkReserve os n env pol w = Some (br, w')"
  shows "br = (ReserveBytes pol > 0 \<and> 0 \<le> peFree env \<and> peFree env < ReserveBytes pol)" "wGrand w' = wGrand w"
proof -
  have f: "wGrand v' = wGrand v" if "writeSystem os (writeRec os n) d v = Some v'" for d v v'
    using frameD [OF writeSystem_frame [OF writeRec_frames that]] by simp
  show "br = (ReserveBytes pol > 0 \<and> 0 \<le> peFree env \<and> peFree env < ReserveBytes pol)" "wGrand w' = wGrand w"
    using assms by (auto simp: checkReserve_def Let_def split: if_splits option.splits dest!: f)
qed

lemma prunePass_cases:
  assumes laws: "passLaws os" and p: "prunePass os n env w = Some w'"
  obtains br w1 res w2 where "passes os w w1" "wSg w' = wSg w2" "wPruned w' = wPruned w2"
    "pruneLoop os n env (wRetention w) br (wPassSaw w) (wNow os w1) (listSegments os (sgDir (wSg w))) 0
       (listSegments os (sgDir (wSg w))) 0 (int (sum_list (map siBytes (listSegments os (sgDir (wSg w)))))) w1 = Some (res, w2)"
    "br = (ReserveBytes (wRetention w) > 0 \<and> 0 \<le> peFree env \<and> peFree env < ReserveBytes (wRetention w))" "wGrand w1 = wGrand w"
proof -
  let ?segs = "listSegments os (sgDir (wSg w))"
  let ?w0 = "w\<lparr>wSealedBytes := int (sum_list (map siBytes ?segs)), wPassSaw := (if ?segs = [] then wPassSaw w else Some (siTime (last ?segs)))\<rparr>"
  obtain br w1 where c: "checkReserve os n env (wRetention w) ?w0 = Some (br, w1)"
    using p by (auto simp: prunePass_def Let_def split: option.splits)
  have p1: "passes os w w1" using passes_trans [OF passes_same checkReserve_passes [OF laws c]] by simp
  obtain res w2 where l: "pruneLoop os n env (wRetention w) br (wPassSaw w) (wNow os w1) ?segs 0 ?segs 0
      (int (sum_list (map siBytes ?segs))) w1 = Some (res, w2)"
    using p c by (auto simp: prunePass_def Let_def split: option.splits)
  have "w' = w2 \<or> (\<exists>t. w' = w2\<lparr>wSealedBytes := t\<rparr>)" using p c l by (auto simp: prunePass_def Let_def split: option.splits)
  then show thesis using that [OF p1 _ _ l] checkReserve_spec [OF c] by auto
qed

lemma aside_later:
  assumes a: "aside os t w v" "passOk os w" and x: "siTime y \<noteq> t" and n: "nameOf (sgDir (wSg w)) (siName y) \<noteq> None"
  shows "nameOf (sgDir (wSg v)) (siName y) \<noteq> None \<and> fst (uuidOf (siName y) (wSg v)) = fst (uuidOf (siName y) (wSg w))"
proof -
  obtain k where "nameOf (sgDir (wSg w)) (siName y) = Some k" using n by blast
  moreover have "siName y \<noteq> NActive" "t \<notin> segTimes (siName y)" using x by (auto simp: siName_def segTimes_def)
  ultimately show ?thesis using asideD(3) [OF a] by fastforce
qed

subsection \<open>Terms that outlive a tighter policy\<close>

definition termHolds :: "int \<Rightarrow> int option \<Rightarrow> bool" where
  "termHolds now g \<longleftrightarrow> (case g of None \<Rightarrow> True | Some t \<Rightarrow> now < t)"

lemma pruneSegment_term:
  assumes p: "pruneSegment os n env False saw now segs at x w = Some (out, w')"
    and o: "wPruneOwed w (siTime x) = None" and u: "fst (uuidOf (siName x) (wSg w)) = u" "u \<noteq> []"
    and g: "wGrand w u = Some g" "termHolds now g"
  shows "out = PKeep \<and> passes os w w' \<and> wGrand w' = wGrand w"
proof -
  obtain sg where s: "uuidOf (siName x) (wSg w) = (u, sg)" using u by (metis prod.collapse)
  have c: "passes os w (w\<lparr>wSg := sg\<rparr>)" using passes_cache [OF uuidOf_cacheOnly [of "wSg w" "siName x"], where os = os] s by simp
  have "grandfatherHolds u now (w\<lparr>wSg := sg\<rparr>) = (True, w\<lparr>wSg := sg\<rparr>)"
    using u g by (auto simp: grandfatherHolds_def termHolds_def split: option.splits)
  then show ?thesis using p o s c by (auto simp: pruneSegment_def Let_def split: if_splits)
qed

lemma pruneSegment_others:
  assumes p: "pruneSegment os n env br saw now segs at x w = Some (out, w')" and o: "wPruneOwed w (siTime x) = None"
    and u: "fst (uuidOf (siName x) (wSg w)) \<noteq> u" and laws: "passLaws os"
  shows "wGrand w' u = wGrand w u" "out \<in> {PKeep, PGone} \<Longrightarrow> wPruneOwed w' = wPruneOwed w"
proof -
  obtain v sg where s: "uuidOf (siName x) (wSg w) = (v, sg)" by (cases "uuidOf (siName x) (wSg w)")
  have v: "u \<noteq> v" using u s by auto
  have "wGrand w' u = wGrand w u \<and> (out \<in> {PKeep, PGone} \<longrightarrow> wPruneOwed w' = wPruneOwed w)"
  proof (cases rule: pruneSegment_cases [OF laws p s])
    case 1
    then show ?thesis using v by (simp add: passes_def)
  next
    case 2
    then show ?thesis using o by simp
  next
    case (3 w1 ex pend rng v')
    have "passes os w w1" using passes_trans [OF 3(2)] announce_spec [OF laws 3(3)] by blast
    then have "wPruneOwed w1 = wPruneOwed w" by (simp add: passes_def)
    moreover have "(wPruneOwed w)(siTime x := None) = wPruneOwed w" using o by auto
    moreover have "out = PGone \<or> out = PBreak" using removeStep_spec [OF laws 3(4)] by auto
    ultimately show ?thesis using removeStep_terms [OF 3(4)] announce_frame [OF 3(3)] 3(5) v by auto
  qed
  then show "wGrand w' u = wGrand w u" "out \<in> {PKeep, PGone} \<Longrightarrow> wPruneOwed w' = wPruneOwed w" by blast+
qed

lemma pruneLoop_term:
  assumes laws: "passLaws os" and p: "pruneLoop os n env pol False saw now segs at xs pr tot w = Some (res, w')"
    and ok: "passOk os w" and d: "distinct (map siTime xs)" and nx: "\<forall>x \<in> set xs. nameOf (sgDir (wSg w)) (siName x) \<noteq> None"
    and o: "wPruneOwed w = Map.empty" and u: "u \<noteq> []" "\<forall>x \<in> set xs. siTime x = t \<longrightarrow> fst (uuidOf (siName x) (wSg w)) = u"
    and g: "wGrand w u = Some g" "termHolds now g"
    and nm: "nm \<noteq> NActive" "segTimes nm = {t}" "nameOf (sgDir (wSg w)) nm = Some i"
  shows "nameOf (sgDir (wSg w')) nm = Some i"
  using p ok d nx o u(2) g(1) nm(3)
proof (induction xs arbitrary: at pr tot w)
  case (Cons x xs)
  show ?case
  proof (cases "pr \<ge> MaxPrunePerPass pol \<or> \<not> overdue pol False now tot x w")
    case True
    then show ?thesis using Cons by (auto split: if_splits)
  next
    case False
    then obtain out v where v: "pruneSegment os n env False saw now segs at x w = Some (out, v)"
      using Cons.prems(1) by (auto split: option.splits)
    note s = pruneSegment_spec [OF laws v]
    have a: "aside os (siTime x) w v" using s(1) by blast
    note b = asideD [OF a Cons.prems(2)]
    have ow: "wPruneOwed w (siTime x) = None" using Cons.prems(5) by simp
    have keep: "nameOf (sgDir (wSg v)) nm = Some i" "wGrand v u = Some g" "out \<in> {PKeep, PGone} \<longrightarrow> wPruneOwed v = Map.empty"
    proof -
      have *: "nameOf (sgDir (wSg v)) nm = Some i \<and> wGrand v u = Some g \<and> (out \<in> {PKeep, PGone} \<longrightarrow> wPruneOwed v = Map.empty)"
      proof (cases "fst (uuidOf (siName x) (wSg w)) = u")
        case True
        have "passes os w v" "wGrand v = wGrand w" using pruneSegment_term [OF v ow True u(1) Cons.prems(7) g(2)] by auto
        then show ?thesis using Cons.prems(2,5,7,8) sealedKeptD(1) [OF _ nm(1)] by (auto simp: passes_def)
      next
        case f: False
        then have "siTime x \<notin> segTimes nm" using Cons.prems(6) nm(2) by auto
        then show ?thesis
          using b(3) [OF nm(1) _ Cons.prems(8)] pruneSegment_others [OF v ow f laws] Cons.prems(5,7) by simp
      qed
      then show "nameOf (sgDir (wSg v)) nm = Some i" "wGrand v u = Some g" "out \<in> {PKeep, PGone} \<longrightarrow> wPruneOwed v = Map.empty"
        by blast+
    qed
    show ?thesis
    proof (cases "out \<in> {PKeep, PGone}")
      case True
      then obtain pr' tot' where r: "pruneLoop os n env pol False saw now segs (Suc at) xs pr' tot' v = Some (res, w')"
        using Cons.prems(1) False v by (auto split: if_splits)
      have later: "nameOf (sgDir (wSg v)) (siName y) \<noteq> None \<and> fst (uuidOf (siName y) (wSg v)) = fst (uuidOf (siName y) (wSg w))"
        if y: "y \<in> set xs" for y
      proof (rule aside_later [OF a Cons.prems(2)])
        show "siTime y \<noteq> siTime x" using y Cons.prems(3) by (metis distinct.simps(2) image_eqI list.map(2) set_map)
        show "nameOf (sgDir (wSg w)) (siName y) \<noteq> None" using y Cons.prems(4) by simp
      qed
      show ?thesis
        by (rule Cons.IH [OF r b(1)]) (use later keep True Cons.prems(3,6) in auto)
    next
      case out: False
      then have "w' = v" using Cons.prems(1) False v by (cases out) (auto split: if_splits)
      then show ?thesis using keep by simp
    qed
  qed
qed auto

lemma siTime_siName: "sealTime (siName x) = [siTime x]" "siName x \<noteq> NActive"
  by (simp_all add: siName_def)

lemma listSegments_listed:
  assumes "x \<in> set (listSegments os d)"
  shows "\<exists>y \<in> set (listSealed os d). siName y = siName x \<and> siTime y = siTime x"
proof -
  have s: "sorted (map siTime ([] @ listSealed os d))"
    using sorted_sealKey_time [of "listSealed os d"] by (simp add: listSealed_eq)
  have "\<exists>y \<in> set (listSealed os d). siName y = siName x"
    using mergeForms_spec [OF s, of "\<lambda>n. \<exists>y \<in> set (listSealed os d). siName y = n"] assms by (auto simp: listSegments_def)
  then show ?thesis using siTime_siName(1) by (metis list.inject)
qed

lemma listSealed_complete:
  assumes "nameOf d nm = Some i" and "segTimes nm = {t}"
  shows "\<exists>y \<in> set (listSealed os d). siTime y = t"
proof -
  have p: "(nm, i) \<in> set (adNames d)" using assms(1) by (simp add: nameOf_def map_of_SomeD)
  have "\<exists>y \<in> set (listing os d (nm, i)). siTime y = t" using assms(2) by (cases nm) (auto simp: listing_def segTimes_def)
  then show ?thesis using p by (fastforce simp: listSealed_eq)
qed

definition termOf :: "Retention \<Rightarrow> int \<Rightarrow> int option" where
  "termOf r t = (if MaxAge r > 0 then Some (t + MaxAge r) else None)"

text \<open>Recording the terms fills caches, keeps terms that are there, and gives the others the old policy's.\<close>

definition termsKept :: "Writer \<Rightarrow> Writer \<Rightarrow> bool" where
  "termsKept w w' \<longleftrightarrow>
     cacheOnly (wSg w) (wSg w') \<and> wPruneOwed w' = wPruneOwed w \<and> wHolds w' = wHolds w \<and> wPruned w' = wPruned w \<and>
     (\<forall>u g. wGrand w u = Some g \<longrightarrow> wGrand w' u = Some g)"

lemma grandfatherOne_spec:
  "termsKept w (grandfatherOne old x w)"
  "u = fst (uuidOf (siName x) (wSg w)) \<Longrightarrow> u \<noteq> [] \<Longrightarrow> wGrand w u = None \<Longrightarrow>
     wGrand (grandfatherOne old x w) u = Some (termOf (polRetention old) (siTime x))"
  "u \<noteq> fst (uuidOf (siName x) (wSg w)) \<Longrightarrow> wGrand (grandfatherOne old x w) u = wGrand w u"
  using uuidOf_cacheOnly [of "wSg w" "siName x"]
  by (auto simp: termsKept_def grandfatherOne_def termOf_def Let_def split: prod.split)

lemma fold_grandfather:
  assumes "u \<noteq> []" and "\<forall>x \<in> set xs. fst (uuidOf (siName x) (wSg w)) = u \<longrightarrow> siTime x = t"
    and "wGrand w u = Some (termOf (polRetention old) t) \<or>
      wGrand w u = None \<and> (\<exists>x \<in> set xs. fst (uuidOf (siName x) (wSg w)) = u)"
  shows "termsKept w (fold (grandfatherOne old) xs w) \<and>
    wGrand (fold (grandfatherOne old) xs w) u = Some (termOf (polRetention old) t)"
  using assms(2,3)
proof (induction xs arbitrary: w)
  case (Cons x xs)
  let ?v = "grandfatherOne old x w"
  have k: "termsKept w ?v" by (rule grandfatherOne_spec)
  then have id: "fst (uuidOf n (wSg ?v)) = fst (uuidOf n (wSg w))" for n by (simp add: termsKept_def cacheOnly_def)
  have "wGrand ?v u = Some (termOf (polRetention old) t) \<or>
      wGrand ?v u = None \<and> (\<exists>x \<in> set xs. fst (uuidOf (siName x) (wSg ?v)) = u)"
  proof (cases "fst (uuidOf (siName x) (wSg w)) = u")
    case True
    then show ?thesis using Cons.prems k grandfatherOne_spec(2) [of u x w old] assms(1) by (auto simp: termsKept_def)
  next
    case False
    then show ?thesis using Cons.prems grandfatherOne_spec(3) [of u x w old] id by auto
  qed
  then have "termsKept ?v (fold (grandfatherOne old) xs ?v) \<and>
      wGrand (fold (grandfatherOne old) xs ?v) u = Some (termOf (polRetention old) t)"
    using Cons.IH [of ?v] Cons.prems(1) id by simp
  then show ?case using k cacheOnly_trans by (auto simp: termsKept_def)
qed (simp add: termsKept_def)

lemma cacheOnly_limits: "cacheOnly s (s\<lparr>sgMaxBytes := b, sgMaxAge := a\<rparr>)"
  by (simp add: cacheOnly_def uuidOf_fst split: option.split)

lemma SetPolicy_terms:
  assumes "SetPolicy os p fl w = (Inr ch, w1)"
    and "tighter (MaxAge (wRetention w)) (MaxAge (polRetention p)) \<or> tighter (MaxBytes (wRetention w)) (MaxBytes (polRetention p))"
    and "segTimes nm = {t}" and "nameOf (sgDir (wSg w)) nm = Some i" and "u \<noteq> []" and "wGrand w u = None"
    and "\<forall>y \<in> set (listSealed os (sgDir (wSg w))). siTime y = t \<longleftrightarrow> fst (uuidOf (siName y) (wSg w)) = u"
  shows "cacheOnly (wSg w) (wSg w1) \<and> wGrand w1 u = Some (termOf (wRetention w) t) \<and> wPruneOwed w1 = wPruneOwed w \<and>
    wRetention w1 = withDefaults (polRetention p) \<and> wHolds w1 = wHolds w \<and> wPruned w1 = wPruned w"
proof -
  let ?p = "p\<lparr>polRetention := withDefaults (polRetention p)\<rparr>"
  have ret: "MaxAge (withDefaults r) = MaxAge r" "MaxBytes (withDefaults r) = MaxBytes r" "ReserveBytes (withDefaults r) = ReserveBytes r" for r
    by (simp_all add: withDefaults_def)
  have ti: "tighter (MaxAge (polRetention (policyOf w))) (MaxAge (polRetention ?p)) \<or>
      tighter (MaxBytes (polRetention (policyOf w))) (MaxBytes (polRetention ?p))"
    using assms(2) by (simp add: policyOf_def ret)
  then have "MaxAge (wRetention w) \<noteq> MaxAge (polRetention p) \<or> MaxBytes (wRetention w) \<noteq> MaxBytes (polRetention p)"
    using assms(2) by (auto simp: tighter_def)
  then have "ChangedFields (policyOf w) p \<noteq> []" by (auto simp: ChangedFields_def policyOf_def simp flip: set_empty)
  then have w1: "w1 = applyPolicy os (policyOf w) ?p w" using assms(1) by (auto simp: SetPolicy_def Let_def split: if_splits)
  define wg where "wg = fold (grandfatherOne (policyOf w)) (listSealed os (sgDir (wSg w))) w"
  have wg1: "grandfatherLocked os (policyOf w) ?p w = wg" using ti by (auto simp: grandfatherLocked_def wg_def)
  have g: "termsKept w wg \<and> wGrand wg u = Some (termOf (wRetention w) t)"
    using fold_grandfather [of u "listSealed os (sgDir (wSg w))" w t "policyOf w"] assms(5-7)
      listSealed_complete [OF assms(4,3), of os] by (auto simp: wg_def policyOf_def)
  have "cacheOnly (wSg w) (wSg w1)"
    using cacheOnly_trans [OF _ cacheOnly_limits] g by (simp add: w1 wg1 applyPolicy_def Let_def termsKept_def)
  then show ?thesis using g by (simp add: w1 wg1 applyPolicy_def Let_def termsKept_def)
qed

section \<open>An example trail\<close>

definition exPruneOs :: osLib where
  "exPruneOs = exOs\<lparr>nowAt := (\<lambda>_. 1000)\<rparr>"

definition exHdr :: "string \<Rightarrow> aline" where
  "exHdr u = LHeader \<lparr>hUUID = u, hPrev = [], hInstance = ''gw'', hBoot = ''b0'', hOpened = 1, hFirstSeq = 1\<rparr>"

definition exPruneDir :: adir where
  "exPruneDir =
     \<lparr>adNames = [(NActive, 0), (NPlain 5, 1)],
      adFiles = (\<lambda>i. if i = 0 then \<lparr>sfLines = [exHdr ''u9''], sfTorn = 0, sfSynced = 0\<rparr>
                     else if i = 1 then
                       \<lparr>sfLines = [exHdr ''u1'', LRecord \<lparr>stInstance = ''gw'', stBoot = ''b0'', stSegment = ''u1'', stSeq = 1\<rparr> exIntent],
                        sfTorn = 0, sfSynced = 2\<rparr>
                     else emptyFile),
      adNext = 2\<rparr>"

definition exPruneWriter :: "int \<Rightarrow> Writer" where
  "exPruneWriter age =
     (exWriter ((newSegmenter exPruneDir ''gw'' ''b1'' 100000 3600 0)\<lparr>sgF := Some 0, sgUUID := ''u9'', sgSize := lineBytes exPruneOs (exHdr ''u9'')\<rparr>))
     \<lparr>wRetention := \<lparr>MaxAge = age, MaxBytes = 0, ReserveBytes = 0, MaxPrunePerPass = 1\<rparr>\<rparr>"

definition exPruneEnv :: pruneEnv where
  "exPruneEnv = \<lparr>peFree = -1, peSinks = (\<lambda>_. [])\<rparr>"

lemma exPrune_laws: "passLaws exPruneOs"
  by (simp add: passLaws_def wholeLines_def exPruneOs_def exOs_def)

lemma exPrune_sel:
  "sgDir (wSg (exPruneWriter age)) = exPruneDir" "sgF (wSg (exPruneWriter age)) = Some 0"
  "sgSize (wSg (exPruneWriter age)) = lineBytes exPruneOs (exHdr ''u9'')"
  by (simp_all add: exPruneWriter_def exWriter_def newSegmenter_def)

lemma exPrune_ok: "passOk exPruneOs (exPruneWriter age)"
proof -
  have d: "dirOk exPruneDir" by (auto simp: dirOk_def exPruneDir_def nameOf_def emptyFile_def split: if_splits)
  have o: "sgOk exPruneOs (wSg (exPruneWriter age))"
    using d by (simp add: sgOk_def exPrune_sel) (simp add: exPruneDir_def nameOf_def fileBytes_def)
  have "activeWhole (wSg (exPruneWriter age))" by (simp add: activeWhole_def exPrune_sel) (simp add: exPruneDir_def nameOf_def)
  moreover have "durable exPruneDir st r" if m: "(st, r) \<in> trailRecs exPruneDir" for st r
  proof -
    have "sfLines (adFiles exPruneDir 1) ! 1 = LRecord st r" "1 < sfSynced (adFiles exPruneDir 1)"
      using m by (auto simp: trailRecs_def fileRecs_def exPruneDir_def exHdr_def emptyFile_def split: if_splits)
    then show ?thesis unfolding durable_def by blast
  qed
  ultimately show ?thesis using o by (simp add: passOk_def wholeOk_def settled_def exPrune_sel)
qed

lemma exPrune_removes:
  "map_option (\<lambda>w. nameOf (sgDir (wSg w)) (NPlain 5)) (prunePass exPruneOs 3 exPruneEnv (exPruneWriter 100)) = Some None"
  by code_simp
definition exTighter :: Policy where
  "exTighter = \<lparr>MaxSegmentBytes = 100000, MaxSegmentAge = 3600,
     polRetention = \<lparr>MaxAge = 100, MaxBytes = 0, ReserveBytes = 0, MaxPrunePerPass = 1\<rparr>\<rparr>"

definition exFloor :: PolicyFloor where
  "exFloor = \<lparr>MinRetentionAge = 50, MinRetentionBytes = 0, MinReserveBytes = 0, MaxSegmentAgeCeiling = 0\<rparr>"

lemma exTighter_accepted: "fst (SetPolicy exPruneOs exTighter exFloor (exPruneWriter 2000)) = Inr [''retention.max_age'']"
  by code_simp

lemma exTighter_pass:
  "map_option (\<lambda>w. ()) (prunePass exPruneOs 3 exPruneEnv (snd (SetPolicy exPruneOs exTighter exFloor (exPruneWriter 2000)))) = Some ()"
  by code_simp

lemma exPrune_uuid: "map (\<lambda>y. (siTime y, fst (uuidOf (siName y) (wSg (exPruneWriter 2000))))) (listSealed exPruneOs exPruneDir) = [(5, ''u1'')]"
  by code_simp

section \<open>Properties\<close>



text \<open>
  A pass removes at most \<open>MaxPrunePerPass\<close> segments, whatever is overdue and however short
  the disk is.
\<close>

theorem prune_bounded:
  assumes "passLaws os" and "prunePass os n env w = Some w'"
  shows "wPruned w' \<le> wPruned w + nat (MaxPrunePerPass (wRetention w))"
  using prunePass_cases [OF assms] pruneLoop_count [OF assms(1)] by (metis diff_zero passes_def)

theorem prune_bounded_witness:
  "\<exists>w'. prunePass exPruneOs 3 exPruneEnv (exPruneWriter 100) = Some w' \<and> wPruned w' \<le> 1"
proof -
  obtain w' where w: "prunePass exPruneOs 3 exPruneEnv (exPruneWriter 100) = Some w'" using exPrune_removes by auto
  then show ?thesis
    using prune_bounded [OF exPrune_laws w] by (simp add: exPruneWriter_def exWriter_def)
qed



end
