(* ===== verification/Spec2Isabelle.thy ===== *)
theory Spec2Isabelle
  imports Quota_Runs Opa_Sync Bfd Key_Service Audit_Export Audit_Retention
begin

text \<open>
  This development models parts of the loxilb inference gateway, a load balancer in front of
  inference servers: who may send a request (API keys), how much a tenant, user or key may use
  (rate limits and token quotas), how gateways share that state, how firewall rules follow a
  policy server, how a pair of gateways elects its master, and the audit trail.

  \<^bold>\<open>The program and its parts.\<close> A proxy worker that holds a request asks the gateway in turn for
  the key (\<open>llb_ai_validate_key\<close>), the rate limit and a token reservation, and settles what was used
  when the answer ends. The key service (src/pkg/aikey) answers from a cache, from PostgreSQL behind
  a guard, or from what it last knew. The limiter store (src/pkg/ratelimit) keeps a bucket per
  tenant, user, key, model and service, and gossips usage to the peers. The ladder
  (src/pkg/loxinet/ai_gateway_dp.go) decides which buckets a request takes from. The policy
  synchroniser (src/pkg/opa) and BFD (src/pkg/proto) stand apart. The audit trail (src/pkg/audit) takes
  records from all of them: producers queue records or drop them, one writer appends them to
  segments, flushes and answers, seals full segments, prunes old ones by policy, and sinks number what they ship.

  \<^bold>\<open>Theories, in the order they build on each other.\<close>
  \<^item> \<open>Gw_Prelude\<close>: 64-bit arithmetic, the string and number functions of Go's library that the code
    uses, and the interfaces \<open>machine\<close>, \<open>monotone_machine\<close> and \<open>codec\<close>.
  \<^item> \<open>Token_Bucket\<close>, \<open>Rate_Store\<close> (src/pkg/ratelimit/ratelimit.go, burst.go): one bucket as a virtual
    clock and the store of buckets. Shown: what a firm and an elastic reservation admit, the exact
    retry time, what eviction forgives.
  \<^item> \<open>Rate_Sync\<close> (ratelimit_sync.go, loxinet/sockproxy_sync.go): export, delta and merge of usage
    between gateways, with the interface \<open>gossip_receiver\<close>. Shown: a delta stream loads what full
    pushes load, a batch of rows acts as a set, gossip never gives quota back, the warm-up gate
    reports once.
  \<^item> \<open>Quota_Runs\<close>: runs of store operations. Shown: what can be charged to a bucket over a stretch of
    time is bounded by its burst and its rate.
  \<^item> \<open>Resv_Ledger\<close>, \<open>Claim_Store\<close> (loxinet/ai_reservation_ledger.go): what requests hold, the
    read-back of it, and the interface \<open>claim_api\<close> between the store and the ladder.
  \<^item> \<open>Qos_Ladder\<close> (loxinet/ai_gateway_dp.go, ai_default_reservation.go, aikey/qos_ladder.go): the rate
    limit check, key validation, buckets of a request, reservation, release and settlement. Shown: a
    reservation takes from every bucket or from none, a release gives back exactly what was taken, a
    request is charged once, bucket keys of different scopes never meet, an unknown limit refuses.
  \<^item> \<open>Lookup_Guard\<close> (aikey/lookup_guard.go): the in-flight bound, the circuit and the negative cache
    in front of the store, with the workers interleaved. Shown: the bounds in every interleaving, the
    life of the circuit, the negative cache never refuses a key without an answer behind it.
  \<^item> \<open>Key_Tables\<close> (aikey/schema.go, tx.go, classes.go, class_patch.go, the statements of service.go,
    pgstore/outcome.go): tables, statements and their fates, transactions, error classes.
  \<^item> \<open>Class_Snapshot\<close> (aikey/class_snapshot.go, class_lkg_limits.go): the snapshot of objectives and
    classes with concurrent refreshers, and the last-known-good file. Shown: a finished refresh leaves
    its own writes in force, a restart on the file serves what the store had.
  \<^item> \<open>Key_Service\<close> (aikey/service.go, key_patch.go, invalidate.go): keys and tenant limits. Shown: a
    revoked key is refused, a retried create converges, a failed write says what it did, limits stay
    in force while the store is away; and two places where the code departs from its comments.
  \<^item> \<open>Go_Net\<close>, \<open>Opa_Sync\<close> (src/pkg/opa): normaliser, diff, applier, cache and circuit breaker of the
    policy synchroniser. Shown: rounds converge, the cache mirrors the firewall.
  \<^item> \<open>Bfd\<close> (src/pkg/proto/bfd.go): packets, sessions, timeouts and the election between two gateways.
  \<^item> \<open>Audit_Cursor\<close>, \<open>Audit_Export\<close> (audit/sink_cursor.go): the files in which a sink of the audit trail
    keeps its place and its export numbers, over a file system with power losses. Shown: no number
    is handed out twice in an epoch, how many numbers a crash can skip, a file cut short is not read.
  \<^item> \<open>Audit_Segment\<close> (audit/segment.go): the segments of the trail, over a directory of files with lines.
  \<^item> \<open>Audit_Producer\<close> (audit/producer.go, \<open>emitProducerGaps\<close> of writer.go): the ring of dropped numbers
    between a producer and the writer, with the interface \<open>bounded_queue\<close>. Shown: the writer reads
    what was pushed in every interleaving, and the gap records account for the drops.
  \<^item> \<open>Audit_Writer\<close> (audit/writer.go, schema.go): the operations of the writer's loop. Shown: when a
    write returns, and two states in which it never does.
  \<^item> \<open>Audit_Trail\<close>: the interface \<open>trail_relation\<close> lifts a relation on the segmenter from the five file
    operations to everything the writer does; it is interpreted for growth, whole lines, sequence numbers,
    stable storage and sealed segments. Shown: a request answered without an error is on stable
    storage, the numbers of a boot have no hole; and a failed flush that is answered as a success.
  \<^item> \<open>Audit_Retention\<close> (audit/retention.go, policy.go, sink_retention.go): policies, holds, the sinks'
    standing and the prune pass. Shown: a segment is removed only after its removal is on record and
    never under a hold, a tighter policy does not reach back.
  \<^item> This theory: the key gate, which joins \<open>Key_Service\<close> and \<open>Qos_Ladder\<close>.

  \<^bold>\<open>How code becomes definitions.\<close> A struct is a record, an enumeration a datatype, an operation a
  function that takes the state and returns it, with its errors as values and its clock as an
  argument. A Go map that is ranged over is an association list. An \<open>int64\<close> is an integer with its
  wrap-around written out (\<open>i64\<close>). Mutexes make the operations atomic; where the code releases its
  lock between two steps of an operation, the operation is given in those steps, and a step relation
  (\<open>guardStep\<close>, \<open>refreshStep\<close>, \<open>ringStep\<close>, \<open>trailRun\<close>) or a sequence of calls interleaves them.

  \<^bold>\<open>Parameters.\<close> Code outside the repository is an argument with its documented laws: the request
  limiter \<open>rateLib\<close> (golang.org/x/time/rate), the TTL cache \<open>cacheLib\<close> with \<open>cache_laws\<close> (go-cache), SHA-256
  (\<open>hashKey\<close>), the driver's outcome of a statement (\<open>stmtFate\<close>, with \<open>honest\<close> where a theorem needs that a
  statement that was not sent was not applied), the firewall that rules are applied to (\<open>rest_ok\<close>), and
  the host of a BFD session (\<open>bfdHost\<close>), the JSON codec of a cursor (\<open>cursorJson\<close>), and the operating
  system under the trail (\<open>osLib\<close>: at each step the clock, a fresh UUID, and which operation fails). Each theorem with such a law has a witness that meets it.

  \<^bold>\<open>Bounds and termination.\<close> Loops over slices are structural recursion, and the decimal printer
  terminates by the size of its argument. The audit writer's \<open>write\<close> calls itself with no bound; the
  model gives it the depth of its calls and is \<open>None\<close> where that is not enough. Depth 3 is enough
  whenever renames succeed and segments have room (\<open>write_returns\<close>). The search for a free segment
  name is given as many steps as there are names, which is enough (\<open>sealedName_least\<close>). Counters
  that need \<open>2^64\<close> steps to wrap (tickets, generations) are unbounded.

  \<^bold>\<open>Not modelled.\<close> The eBPF datapath and its cgo bindings, the load-balancer rule tables, the REST
  layer (generated), routing by KV-cache contents, external pickers and classifiers, JWT checks,
  metrics, and the user-limit and default-limit statements of the key store, which the ladder
  takes as look-ups. Of the audit trail: the reader, the sinks' loops and transports, the JSON encoder,
  the fault points, start-up and the supervisor of the writer, the search for orphaned intents, and
  the byte format of compressed segments, whose content is taken to be that of the plain ones.
\<close>

section \<open>The key gate\<close>

text \<open>
  The gate of a request that carries a key: \<open>llb_ai_validate_key\<close> runs \<open>validateAPIKeyInternal\<close> with the
  key service as its validator. The gate reads four fields of the entry, and tells an invalid key
  from every other error.
\<close>

definition gateEntry :: "keyEntry \<Rightarrow> ApiKeyEntry" where
  "gateEntry e = \<lparr>KeyID = ke_id e, KeyTenantID = ke_tenant e, AllowedModels = ke_models e, ExpiresAt = ke_expires e\<rparr>"

definition gateError :: "svcErr \<Rightarrow> validateError" where
  "gateError e = (case e of EInvalidKey \<Rightarrow> ErrInvalidKey | _ \<Rightarrow> StoreCannotAnswer)"

definition keyGate :: "'c cacheLib \<Rightarrow> (string \<Rightarrow> string) \<Rightarrow> int \<Rightarrow> readEnv \<Rightarrow> string \<Rightarrow> string \<Rightarrow> keyDb \<Rightarrow> 'c keyService \<Rightarrow>
    int \<times> string \<times> string \<times> string \<times> string" where
  "keyGate lib hashKey now env rawKey model db s =
     validateAPIKeyInternal (\<lambda>raw. map_sum gateError gateEntry (fst (ValidateAPIKey lib hashKey now env raw db s))) now rawKey model"

lemma gate_refuses:
  assumes "fst (ValidateAPIKey lib hashKey now env raw db s) = Inl e"
  shows "fst (keyGate lib hashKey now env raw model db s) \<in> {1, 4}"
  using assms by (auto simp: keyGate_def validateAPIKeyInternal_def gateError_def split: svcErr.split)

lemma gate_decides:
  assumes "fst (ValidateAPIKey lib hashKey now env raw db s) = Inr e" and "raw \<noteq> ''''"
  shows "keyGate lib hashKey now env raw model db s =
    (if (case ke_expires e of None \<Rightarrow> False | Some t \<Rightarrow> now > t) then (1, '''', '''', '''', ''invalid_api_key'')
     else if ke_models e \<noteq> [] \<and> model \<notin> set (ke_models e) then (2, ke_tenant e, ke_id e, '''', ''model_not_allowed'')
     else (0, ke_tenant e, ke_id e, model, ''''))"
  using assms by (auto simp: keyGate_def validateAPIKeyInternal_def gateEntry_def list_ex_iff)

lemma db_ok_insert:
  assumes "db_ok db" and "sqlSelectAPIKeyByClientOp (tenant_id r) c db = None" and "client_op_id r = Some c"
    and "key_id r \<notin> key_id ` set (api_keys db)" and "key_hash r \<notin> key_hash ` set (api_keys db)"
  shows "db_ok (db\<lparr>api_keys := api_keys db @ [r]\<rparr>)"
  using assms by (auto simp: db_ok_def sqlSelectAPIKeyByClientOp_def find_None_iff)

section \<open>Properties across components\<close>



end
